(* ===== verification/Prelude.thy ===== *)
theory Prelude
  imports Main "HOL-Library.Word" "HOL-Library.Monad_Syntax" "HOL-Library.Sublist"
begin

text \<open>
  Shared vocabulary of the development: the machine types of the engine, C buffers with
  checked access, byte order, C strings, and the generic lemmas the components use.

  A C buffer \<open>(uint8_t *p, size_t len)\<close> is a list whose length is \<open>len\<close>. Every read and
  write of the source goes through \<open>load8\<close>, \<open>load_bytes\<close> and \<open>store_bytes\<close>, which give \<open>None\<close>
  when the access is out of bounds. So \<open>None\<close> as the value of a modelled function means that
  the C code has undefined behaviour on that input, and \<open>f x \<noteq> None\<close> is memory safety.
  Sizes (\<open>size_t\<close>, 64 bits on both targets) that are lengths of existing buffers are \<open>nat\<close>;
  integers whose wrap-around matters are words of their width. Both macOS targets are
  little-endian, so a \<open>memcpy\<close> between a buffer and a \<open>uint32_t\<close> is \<open>load32\<close>/\<open>bytes32\<close>.
\<close>

unbundle bit_operations_syntax

named_theorems buf_simps \<open>rewriting of checked buffer accesses\<close>

section \<open>Types\<close>

type_synonym byte = "8 word"
type_synonym u16 = "16 word"
type_synonym u32 = "32 word"
type_synonym u64 = "64 word"
type_synonym buf = "byte list"

lemma unat_byte_less: "unat (a :: byte) < 256"
  using unsigned_less [of a] by simp

lemma unat_u16_less: "unat (a :: u16) < 65536"
  using unsigned_less [of a] by simp

lemma unat_u32_less: "unat (a :: u32) < 4294967296"
  using unsigned_less [of a] by simp

lemma unat_u64_less: "unat (a :: u64) < 18446744073709551616"
  using unsigned_less [of a] by simp

section \<open>Checked buffers\<close>

definition load8 :: "'a list \<Rightarrow> nat \<Rightarrow> 'a option" where
  "load8 b i = (if i < length b then Some (b ! i) else None)"

definition load_bytes :: "'a list \<Rightarrow> nat \<Rightarrow> nat \<Rightarrow> 'a list option" where
  "load_bytes b i n = (if i + n \<le> length b then Some (take n (drop i b)) else None)"

definition splice_at :: "'a list \<Rightarrow> nat \<Rightarrow> 'a list \<Rightarrow> 'a list" where
  "splice_at b i xs = take i b @ xs @ drop (i + length xs) b"

definition store_bytes :: "'a list \<Rightarrow> nat \<Rightarrow> 'a list \<Rightarrow> 'a list option" where
  "store_bytes b i xs = (if i + length xs \<le> length b then Some (splice_at b i xs) else None)"

lemma load8_Some [buf_simps]: "i < length b \<Longrightarrow> load8 b i = Some (b ! i)"
  by (simp add: load8_def)

lemma load_bytes_Some [buf_simps]:
  "i + n \<le> length b \<Longrightarrow> load_bytes b i n = Some (take n (drop i b))"
  by (simp add: load_bytes_def)

lemma store_bytes_Some [buf_simps]:
  "i + length xs \<le> length b \<Longrightarrow> store_bytes b i xs = Some (splice_at b i xs)"
  by (simp add: store_bytes_def)

lemma load8_eq_Some_iff: "load8 b i = Some x \<longleftrightarrow> i < length b \<and> x = b ! i"
  by (auto simp: load8_def)

lemma load_bytes_eq_Some_iff:
  "load_bytes b i n = Some x \<longleftrightarrow> i + n \<le> length b \<and> x = take n (drop i b)"
  by (auto simp: load_bytes_def)

lemma store_bytes_eq_Some_iff:
  "store_bytes b i xs = Some b' \<longleftrightarrow> i + length xs \<le> length b \<and> b' = splice_at b i xs"
  by (auto simp: store_bytes_def)

lemma length_splice_at [simp]: "i + length xs \<le> length b \<Longrightarrow> length (splice_at b i xs) = length b"
  by (simp add: splice_at_def)

lemma nth_splice_at:
  "i + length xs \<le> length b \<Longrightarrow> k < length b \<Longrightarrow>
   splice_at b i xs ! k = (if i \<le> k \<and> k < i + length xs then xs ! (k - i) else b ! k)"
  by (auto simp: splice_at_def nth_append min_def)

lemma splice_at_nth_same:
  "i + length xs \<le> length b \<Longrightarrow> k < length xs \<Longrightarrow> splice_at b i xs ! (i + k) = xs ! k"
  by (simp add: nth_splice_at)

lemma take_splice_at_prefix: "k \<le> i \<Longrightarrow> i \<le> length b \<Longrightarrow> take k (splice_at b i xs) = take k b"
  by (simp add: splice_at_def min_def)

lemma drop_splice_at_suffix:
  "i + length xs \<le> k \<Longrightarrow> i + length xs \<le> length b \<Longrightarrow> drop k (splice_at b i xs) = drop k b"
  by (simp add: splice_at_def)

lemma splice_at_zero [simp]: "splice_at b 0 xs = xs @ drop (length xs) b"
  by (simp add: splice_at_def)

lemma splice_at_idem:
  "i + length xs \<le> length b \<Longrightarrow> take (length xs) (drop i b) = xs \<Longrightarrow> splice_at b i xs = b"
  by (metis splice_at_def append_take_drop_id drop_drop add.commute)

lemma splice_at_twice:
  "length xs = length ys \<Longrightarrow> i + length xs \<le> length b \<Longrightarrow>
   splice_at (splice_at b i xs) i ys = splice_at b i ys"
  by (auto simp: splice_at_def min_def simp flip: length_0_conv)

lemma store_bytes_append:
  "length pre = i \<Longrightarrow> length old = length v \<Longrightarrow>
   store_bytes (pre @ old @ post) i v = Some (pre @ v @ post)"
  by (simp add: store_bytes_def splice_at_def)

lemma load_bytes_prefix: "length x = n \<Longrightarrow> load_bytes (x @ y) 0 n = Some x"
  by (auto simp: load_bytes_def)

text \<open>A field of a buffer, and what a write does to the fields around it.\<close>

definition field :: "'a list \<Rightarrow> nat \<Rightarrow> nat \<Rightarrow> 'a list" where
  "field b i n = take n (drop i b)"

lemma field_splice_same:
  "i + length v \<le> length b \<Longrightarrow> n = length v \<Longrightarrow> field (splice_at b i v) i n = v"
  by (simp add: field_def splice_at_def)

lemma field_splice_within:
  "i + length v \<le> length b \<Longrightarrow> i \<le> j \<Longrightarrow> j + n \<le> i + length v \<Longrightarrow>
   field (splice_at b i v) j n = field v (j - i) n"
  by (simp add: field_def splice_at_def)

lemma field_splice_other:
  assumes "i + length v \<le> length b" "j + n \<le> i \<or> i + length v \<le> j"
  shows "field (splice_at b i v) j n = field b j n"
proof (rule nth_equalityI)
  show "length (field (splice_at b i v) j n) = length (field b j n)"
    using assms(1) by (simp add: field_def)
  fix k assume "k < length (field (splice_at b i v) j n)"
  then have "k < n" "j + k < length b" using assms(1) by (auto simp: field_def)
  then show "field (splice_at b i v) j n ! k = field b j n ! k"
    using assms by (auto simp: field_def nth_splice_at)
qed

lemma field_replicate [simp]: "i + n \<le> m \<Longrightarrow> field (replicate m x) i n = replicate n x"
  by (simp add: field_def)

lemma length_field [simp]: "i + n \<le> length b \<Longrightarrow> length (field b i n) = n"
  by (simp add: field_def)

lemma load_bytes_field: "i + n \<le> length b \<Longrightarrow> load_bytes b i n = Some (field b i n)"
  by (simp add: load_bytes_def field_def)

lemma field_all [simp]: "length b \<le> n \<Longrightarrow> field b 0 n = b"
  by (simp add: field_def)

lemma field_field: "j + m \<le> n \<Longrightarrow> field (field b i n) j m = field b (i + j) m"
  by (simp add: field_def take_drop min_def add.commute add.left_commute)

section \<open>Byte order\<close>

definition be16 :: "byte \<Rightarrow> byte \<Rightarrow> u16" where
  "be16 hi lo = push_bit 8 (ucast hi) OR ucast lo"

definition hi8 :: "u16 \<Rightarrow> byte" where
  "hi8 x = ucast (drop_bit 8 x)"

definition lo8 :: "u16 \<Rightarrow> byte" where
  "lo8 x = ucast x"

definition word32 :: "byte \<Rightarrow> byte \<Rightarrow> byte \<Rightarrow> byte \<Rightarrow> u32" where
  "word32 b0 b1 b2 b3 =
     ucast b0 OR push_bit 8 (ucast b1) OR push_bit 16 (ucast b2) OR push_bit 24 (ucast b3)"

definition bytes32 :: "u32 \<Rightarrow> buf" where
  "bytes32 v = [ucast v, ucast (drop_bit 8 v), ucast (drop_bit 16 v), ucast (drop_bit 24 v)]"

definition load32 :: "buf \<Rightarrow> nat \<Rightarrow> u32 option" where
  "load32 b i = do {
     b0 \<leftarrow> load8 b i; b1 \<leftarrow> load8 b (i + 1); b2 \<leftarrow> load8 b (i + 2); b3 \<leftarrow> load8 b (i + 3);
     Some (word32 b0 b1 b2 b3) }"

definition ntohl :: "u32 \<Rightarrow> u32" where
  "ntohl v = word32 (ucast (drop_bit 24 v)) (ucast (drop_bit 16 v)) (ucast (drop_bit 8 v)) (ucast v)"

abbreviation htonl :: "u32 \<Rightarrow> u32" where
  "htonl \<equiv> ntohl"

abbreviation word_at :: "buf \<Rightarrow> nat \<Rightarrow> u32" where
  "word_at b i \<equiv> word32 (b ! i) (b ! (i + 1)) (b ! (i + 2)) (b ! (i + 3))"

lemma length_bytes32 [simp]: "length (bytes32 v) = 4"
  by (simp add: bytes32_def)

lemma load32_Some [buf_simps]:
  "i + 4 \<le> length b \<Longrightarrow> load32 b i = Some (word_at b i)"
  by (simp add: load32_def load8_def)

lemma word32_bytes: "word32 (ucast v) (ucast (drop_bit 8 v)) (ucast (drop_bit 16 v)) (ucast (drop_bit 24 v)) = v"
proof (rule bit_word_eqI)
  fix n assume "n < LENGTH(32)"
  then consider "n < 8" | "8 \<le> n" "n < 16" | "16 \<le> n" "n < 24" | "24 \<le> n" "n < 32"
    by fastforce
  then show "bit (word32 (ucast v) (ucast (drop_bit 8 v)) (ucast (drop_bit 16 v)) (ucast (drop_bit 24 v))) n = bit v n"
    by cases (auto simp: word32_def bit_simps)
qed

lemma ucast_word32 [simp]: "(ucast (word32 a b c d) :: byte) = a"
  unfolding word32_def by (rule bit_word_eqI) (auto simp: bit_simps)

lemma ucast_word32_8 [simp]: "(ucast (drop_bit 8 (word32 a b c d)) :: byte) = b"
  unfolding word32_def by (rule bit_word_eqI) (auto simp: bit_simps dest: bit_imp_le_length)

lemma ucast_word32_16 [simp]: "(ucast (drop_bit 16 (word32 a b c d)) :: byte) = c"
  unfolding word32_def by (rule bit_word_eqI) (auto simp: bit_simps dest: bit_imp_le_length)

lemma ucast_word32_24 [simp]: "(ucast (drop_bit 24 (word32 a b c d)) :: byte) = d"
  unfolding word32_def by (rule bit_word_eqI) (auto simp: bit_simps dest: bit_imp_le_length)

lemma word32_inject [simp]:
  "word32 a b c d = word32 a' b' c' d' \<longleftrightarrow> a = a' \<and> b = b' \<and> c = c' \<and> d = d'"
  by (metis ucast_word32 ucast_word32_8 ucast_word32_16 ucast_word32_24)

lemma bytes32_word32 [simp]: "bytes32 (word32 a b c d) = [a, b, c, d]"
  by (simp add: bytes32_def)

lemma ntohl_word32 [simp]: "ntohl (word32 a b c d) = word32 d c b a"
  by (simp add: ntohl_def)

lemma ntohl_ntohl [simp]: "ntohl (ntohl v) = v"
  by (metis ntohl_def ntohl_word32 word32_bytes)

lemma hi8_be16 [simp]: "hi8 (be16 a b) = a"
  unfolding hi8_def be16_def by (rule bit_word_eqI) (auto simp: bit_simps dest: bit_imp_le_length)

lemma lo8_be16 [simp]: "lo8 (be16 a b) = b"
  unfolding lo8_def be16_def by (rule bit_word_eqI) (auto simp: bit_simps)

lemma be16_hi_lo [simp]: "be16 (hi8 x) (lo8 x) = x"
  unfolding hi8_def lo8_def be16_def by (rule bit_word_eqI) (auto simp: bit_simps)

lemma be16_inject [simp]: "be16 a b = be16 c d \<longleftrightarrow> a = c \<and> b = d"
  by (metis hi8_be16 lo8_be16)

lemma unat_be16: "unat (be16 a b) = 256 * unat a + unat b"
proof -
  have "be16 a b = push_bit 8 (ucast a) + ucast b"
    unfolding be16_def
    by (rule disjunctive_add [symmetric]) (auto simp: bit_simps dest: bit_imp_le_length)
  moreover have "unat a < 256" "unat b < 256"
    using unsigned_less [of a] unsigned_less [of b] by simp_all
  ultimately show ?thesis
    by (simp add: unat_word_ariths push_bit_eq_mult unsigned_ucast_eq take_bit_eq_mod)
qed

section \<open>Runs\<close>

text \<open>A run of a component that serves one event after the other; \<open>None\<close> is undefined behaviour.\<close>

fun run :: "('e \<Rightarrow> 's \<Rightarrow> 's option) \<Rightarrow> 'e list \<Rightarrow> 's \<Rightarrow> 's option" where
  "run step [] s = Some s"
| "run step (ev # evs) s = step ev s \<bind> run step evs"

lemma run_append: "run step (evs @ evs') s = run step evs s \<bind> run step evs'"
  by (induction evs arbitrary: s) (simp_all split: bind_split)

lemma run_invariant:
  assumes "P s" "list_all ok evs"
    and "\<And>ev s. P s \<Longrightarrow> ok ev \<Longrightarrow> \<exists>s'. step ev s = Some s' \<and> P s'"
  shows "\<exists>s'. run step evs s = Some s' \<and> P s'"
  using assms(1,2)
proof (induction evs arbitrary: s)
  case (Cons ev evs)
  then obtain s1 where "step ev s = Some s1" "P s1" using assms(3) [of s ev] by auto
  then show ?case using Cons by simp
qed simp

end
