(* ===== verification/Checksum.thy ===== *)
theory Checksum
  imports Prelude
begin

text \<open>
  The Internet checksum of \<open>engine/src/common.c\<close> (\<open>at_ip_checksum\<close>, RFC 1071) and the routine
  that fills IPv4 and TCP/UDP/ICMP checksums in place (\<open>at_ip4_fix_checksums\<close>), with the
  arithmetic that shows a filled packet verifies at the receiver. \<open>nsum16\<close> is the reference:
  the sum of the big-endian 16-bit words as a natural number, before any wrap-around.
\<close>

unbundle bit_operations_syntax

section \<open>The checksum routine\<close>

fun sum16 :: "u32 \<Rightarrow> buf \<Rightarrow> u32" where
  "sum16 s (a # b # p) = sum16 (s + (push_bit 8 (ucast a) OR ucast b)) p"
| "sum16 s [a] = s + push_bit 8 (ucast a)"
| "sum16 s [] = s"

lemma unat_low16: "unat (s AND 0xffff) = unat s mod 65536" for s :: u32
proof -
  have "s AND 0xffff = take_bit 16 s"
    by (simp add: take_bit_eq_mask mask_eq_exp_minus_1)
  then show ?thesis by (simp add: unsigned_take_bit_eq take_bit_eq_mod unat_mod)
qed

lemma unat_high16: "unat (drop_bit 16 s) = unat s div 65536" for s :: u32
  by (simp add: unat_drop_bit_eq drop_bit_eq_div unat_div)

lemma unat_fold_step:
  "unat ((s AND 0xffff) + drop_bit 16 s) = unat s mod 65536 + unat s div 65536" for s :: u32
proof -
  have "unat s < 4294967296" using unat_u32_less [of s] by simp
  then have "unat s mod 65536 + unat s div 65536 < 4294967296" by linarith
  then show ?thesis by (simp add: unat_word_ariths unat_low16 unat_high16)
qed

lemma fold16_decreases:
  fixes s :: u32
  assumes "drop_bit 16 s \<noteq> 0"
  shows "unat ((s AND 0xffff) + drop_bit 16 s) < unat s"
proof -
  have "unat s div 65536 \<noteq> 0"
    using assms unat_high16 [of s] unat_0_iff [of "drop_bit 16 s"] by metis
  then show ?thesis
    unfolding unat_fold_step using div_mult_mod_eq [of "unat s" 65536] by linarith
qed

function fold16 :: "u32 \<Rightarrow> u32" where
  "fold16 s = (if drop_bit 16 s \<noteq> 0 then fold16 ((s AND 0xffff) + drop_bit 16 s) else s)"
  by pat_completeness auto
termination
  by (relation "measure unat") (auto intro: fold16_decreases)

declare fold16.simps [simp del]

definition at_ip_checksum :: "buf \<Rightarrow> u16" where
  "at_ip_checksum p = ucast (NOT (fold16 (sum16 0 p)))"

section \<open>The sum as a natural number\<close>

fun nsum16 :: "buf \<Rightarrow> nat" where
  "nsum16 (a # b # p) = 256 * unat a + unat b + nsum16 p"
| "nsum16 [a] = 256 * unat a"
| "nsum16 [] = 0"

lemma unat_pair: "unat (push_bit 8 (ucast a) OR ucast b :: u32) = 256 * unat a + unat b"
  for a b :: byte
proof -
  have "(push_bit 8 (ucast a) OR ucast b :: u32) = push_bit 8 (ucast a) + ucast b"
    by (rule disjunctive_add [symmetric]) (auto simp: bit_simps dest: bit_imp_le_length)
  then show ?thesis
    using unat_byte_less [of a] unat_byte_less [of b]
    by (simp add: unat_word_ariths push_bit_eq_mult unsigned_ucast_eq take_bit_eq_mod)
qed

lemma unat_single: "unat (push_bit 8 (ucast a) :: u32) = 256 * unat a" for a :: byte
  using unat_pair [of a 0] by simp

lemma unat_sum16: "unat (sum16 s p) = (unat s + nsum16 p) mod 2 ^ 32"
proof (induction s p rule: sum16.induct)
  case (1 s a b p)
  then show ?case by (simp add: unat_word_ariths unat_pair mod_simps add.assoc)
next
  case (2 s a)
  then show ?case by (simp add: unat_word_ariths unat_single)
next
  case (3 s)
  then show ?case using unat_u32_less [of s] by simp
qed

lemma nsum16_bound: "nsum16 p \<le> 65535 * ((length p + 1) div 2)"
proof (induction p rule: nsum16.induct)
  case (1 a b p)
  then show ?case using unat_byte_less [of a] unat_byte_less [of b] by simp
next
  case (2 a)
  then show ?case using unat_byte_less [of a] by simp
qed simp

lemma nsum16_append: "even (length xs) \<Longrightarrow> nsum16 (xs @ ys) = nsum16 xs + nsum16 ys"
  by (induction xs rule: nsum16.induct) auto

lemma unat_sum16_small:
  "length p \<le> 131070 \<Longrightarrow> unat s + nsum16 p < 2 ^ 32 \<Longrightarrow> unat (sum16 s p) = unat s + nsum16 p"
  by (simp add: unat_sum16)

section \<open>Folding is reduction modulo 65535\<close>

lemma fold16_less: "unat (fold16 s) < 65536"
proof (induction s rule: fold16.induct)
  case (1 s)
  show ?case
  proof (cases "drop_bit 16 s = 0")
    case True
    then have "unat s div 65536 = 0" using unat_high16 [of s] by simp
    with True show ?thesis by (simp add: fold16.simps [of s])
  next
    case False
    with 1 show ?thesis by (simp add: fold16.simps [of s])
  qed
qed

lemma fold16_zero_iff: "fold16 s = 0 \<longleftrightarrow> s = 0"
proof (induction s rule: fold16.induct)
  case (1 s)
  show ?case
  proof (cases "drop_bit 16 s = 0")
    case True
    then show ?thesis by (simp add: fold16.simps [of s])
  next
    case False
    then have "unat s div 65536 \<noteq> 0" using unat_high16 [of s] unat_0_iff by metis
    then have "unat ((s AND 0xffff) + drop_bit 16 s) \<noteq> 0" unfolding unat_fold_step by simp
    then have "(s AND 0xffff) + drop_bit 16 s \<noteq> 0" by (metis unat_0)
    moreover have "s \<noteq> 0" using False by auto
    ultimately show ?thesis using 1 False by (simp add: fold16.simps [of s])
  qed
qed

lemma fold16_mod: "unat (fold16 s) mod 65535 = unat s mod 65535"
proof (induction s rule: fold16.induct)
  case (1 s)
  show ?case
  proof (cases "drop_bit 16 s = 0")
    case True
    then show ?thesis by (simp add: fold16.simps [of s])
  next
    case False
    have "unat s = unat s mod 65536 + unat s div 65536 + 65535 * (unat s div 65536)"
      using div_mult_mod_eq [of "unat s" 65536] by linarith
    then have "unat s mod 65535 = (unat s mod 65536 + unat s div 65536) mod 65535"
      by (metis mod_mult_self2)
    with 1 False show ?thesis by (simp add: fold16.simps [of s] unat_fold_step)
  qed
qed

lemma fold16_full_iff:
  "unat (fold16 s) = 65535 \<longleftrightarrow> s \<noteq> 0 \<and> 65535 dvd unat s"
proof
  assume l: "unat (fold16 s) = 65535"
  then have "unat s mod 65535 = 0" using fold16_mod [of s] by simp
  moreover have "s \<noteq> 0" using l fold16_zero_iff [of s] by auto
  ultimately show "s \<noteq> 0 \<and> 65535 dvd unat s" by (simp add: dvd_eq_mod_eq_0)
next
  assume r: "s \<noteq> 0 \<and> 65535 dvd unat s"
  then have "unat (fold16 s) mod 65535 = 0" using fold16_mod [of s] by (simp add: dvd_eq_mod_eq_0)
  moreover have "unat (fold16 s) \<noteq> 0" using r fold16_zero_iff unat_0_iff by metis
  ultimately show "unat (fold16 s) = 65535" using fold16_less [of s] by (auto elim!: dvdE)
qed

lemma unat_not16:
  fixes f :: u32
  assumes "unat f < 65536"
  shows "unat (ucast (NOT f) :: u16) = 65535 - unat f"
proof -
  have "NOT f = - 1 - f" by (simp add: not_eq_complement)
  moreover have "unat (- 1 - f) = unat (- 1 :: u32) - unat f"
    by (rule unat_sub) simp
  moreover have "unat (- 1 :: u32) = 4294967295"
    by (simp add: unsigned_minus_1_eq_mask mask_eq_exp_minus_1)
  ultimately have "unat (NOT f) = 4294967295 - unat f" by simp
  moreover have "(4294967295 - unat f) mod 65536 = 65535 - unat f"
  proof -
    have "(4294967295 - unat f) mod 65536 = (65535 - unat f + 65535 * 65536) mod 65536"
      using assms by simp
    also have "(65535 - unat f + 65535 * 65536) mod 65536 = (65535 - unat f) mod 65536"
      by (rule mod_mult_self1)
    finally show ?thesis by simp
  qed
  ultimately show ?thesis by (simp add: unsigned_ucast_eq take_bit_eq_mod)
qed

lemma unat_checksum: "unat (at_ip_checksum p) = 65535 - unat (fold16 (sum16 0 p))"
  unfolding at_ip_checksum_def by (rule unat_not16) (rule fold16_less)

lemma checksum_zero_iff: "at_ip_checksum p = 0 \<longleftrightarrow> unat (fold16 (sum16 0 p)) = 65535"
proof -
  have "at_ip_checksum p = 0 \<longleftrightarrow> unat (at_ip_checksum p) = 0" by (metis unat_0_iff)
  then show ?thesis using fold16_less [of "sum16 0 p"] by (auto simp: unat_checksum)
qed

text \<open>
  Writing the complement \<open>c\<close> of the folded sum into a zero field at an even offset makes the
  whole buffer sum to a positive multiple of 65535, which is what a receiver checks.
\<close>

lemma nsum16_splice:
  assumes "even k" "k + 2 \<le> length p" "p ! k = 0" "p ! (k + 1) = 0"
  shows "nsum16 (splice_at p k [hi8 c, lo8 c]) = nsum16 p + unat c"
proof -
  define xs ys where "xs = take k p" and "ys = drop (k + 2) p"
  have "drop k p = p ! k # p ! (k + 1) # ys"
    using assms(2) by (simp add: ys_def Cons_nth_drop_Suc)
  then have p: "p = xs @ [0, 0] @ ys"
    using assms append_take_drop_id [of k p] by (simp add: xs_def)
  have ev: "even (length xs)" using assms by (simp add: xs_def)
  have "splice_at p k [hi8 c, lo8 c] = xs @ [hi8 c, lo8 c] @ ys"
    using assms by (simp add: splice_at_def xs_def ys_def)
  moreover have "unat c = 256 * unat (hi8 c) + unat (lo8 c)"
    using unat_be16 [of "hi8 c" "lo8 c"] by simp
  moreover have "nsum16 p = nsum16 xs + nsum16 ys"
    by (subst p) (simp add: nsum16_append [OF ev])
  ultimately show ?thesis by (simp add: nsum16_append [OF ev])
qed

lemma complement_verifies:
  assumes c: "unat c = 65535 - unat (fold16 s)"
  shows "65535 dvd (unat s + unat c)"
proof -
  have "(unat s + (65535 - unat (fold16 s))) mod 65535 = 0"
  proof -
    have "unat (fold16 s) \<le> 65535" using fold16_less [of s] by simp
    moreover have "unat s mod 65535 = unat (fold16 s) mod 65535" by (simp add: fold16_mod)
    ultimately have "(unat s + (65535 - unat (fold16 s))) mod 65535 = (unat (fold16 s) + (65535 - unat (fold16 s))) mod 65535"
      by (metis mod_add_left_eq)
    then show ?thesis using \<open>unat (fold16 s) \<le> 65535\<close> by simp
  qed
  with c show ?thesis by (simp add: dvd_eq_mod_eq_0)
qed

section \<open>Filling the checksums of an outgoing IPv4 packet\<close>

text \<open>
  \<open>csum_off\<close> of the source (\<open>-1\<close> for none): where the L4 checksum field lies. The fragment
  test of the source looks at the fragment offset only (mask \<open>0x1fff\<close>), not at the
  more-fragments bit.
\<close>

definition csum_off :: "byte \<Rightarrow> bool \<Rightarrow> nat \<Rightarrow> nat option" where
  "csum_off proto is_frag l4len =
     (if \<not> is_frag \<and> 4 \<le> l4len then
        (if proto = 6 \<and> 20 \<le> l4len then Some 16
         else if proto = 17 \<and> 8 \<le> l4len then Some 6
         else if proto = 1 \<and> 4 \<le> l4len then Some 2
         else None)
      else None)"

definition fix_header :: "buf \<Rightarrow> nat \<Rightarrow> buf option" where
  "fix_header ip ihl = do {
     ip \<leftarrow> store_bytes ip 10 [0, 0];
     h \<leftarrow> load_bytes ip 0 ihl;
     (let ipcs = at_ip_checksum h in store_bytes ip 10 [hi8 ipcs, lo8 ipcs]) }"

definition pseudo_sum :: "buf \<Rightarrow> byte \<Rightarrow> nat \<Rightarrow> u32 option" where
  "pseudo_sum ip proto l4len =
     (if proto = 6 \<or> proto = 17 then do {
        addrs \<leftarrow> load_bytes ip 12 8;
        Some (sum16 0 addrs + ucast proto + of_nat l4len) }
      else Some 0)"

definition fix_l4 :: "buf \<Rightarrow> nat \<Rightarrow> nat \<Rightarrow> byte \<Rightarrow> nat \<Rightarrow> buf option" where
  "fix_l4 ip ihl k proto l4len = do {
     ip \<leftarrow> store_bytes ip (ihl + k) [0, 0];
     s \<leftarrow> pseudo_sum ip proto l4len;
     l4 \<leftarrow> load_bytes ip ihl l4len;
     (let csum = ucast (NOT (fold16 (sum16 s l4))) :: u16;
          csum = (if proto = 17 \<and> csum = 0 then 0xffff else csum)
      in store_bytes ip (ihl + k) [hi8 csum, lo8 csum]) }"

definition at_ip4_fix_checksums :: "buf \<Rightarrow> (int \<times> buf) option" where
  "at_ip4_fix_checksums ip =
     (if length ip < 20 then Some (-1, ip) else do {
        b0 \<leftarrow> load8 ip 0;
        (if drop_bit 4 b0 \<noteq> 4 then Some (-1, ip) else
         let ihl = unat (b0 AND 0x0f) * 4 in
         if ihl < 20 \<or> length ip < ihl then Some (-1, ip) else do {
           b6 \<leftarrow> load8 ip 6; b7 \<leftarrow> load8 ip 7;
           proto \<leftarrow> load8 ip 9;
           b10 \<leftarrow> load8 ip 10; b11 \<leftarrow> load8 ip 11;
           let is_frag = (be16 b6 b7 AND 0x1fff \<noteq> 0);
           let l4len = length ip - ihl;
           let off = csum_off proto is_frag l4len;
           let ip_missing = (b10 OR b11 = 0);
           l4_missing \<leftarrow> (case off of None \<Rightarrow> Some False
             | Some k \<Rightarrow> do { x \<leftarrow> load8 ip (ihl + k); y \<leftarrow> load8 ip (ihl + k + 1);
                              Some (x OR y = 0) });
           if \<not> ip_missing \<and> \<not> l4_missing then Some (0, ip) else do {
             ip \<leftarrow> (if ip_missing then fix_header ip ihl else Some ip);
             (case off of None \<Rightarrow> Some (0, ip)
              | Some k \<Rightarrow>
                  if is_frag \<or> \<not> l4_missing then Some (0, ip)
                  else do { ip \<leftarrow> fix_l4 ip ihl k proto l4len; Some (0, ip) }) }})
      })"

section \<open>What the routine computes\<close>

definition ip4_ihl :: "buf \<Rightarrow> nat" where
  "ip4_ihl ip = unat (ip ! 0 AND 0x0f) * 4"

definition ip4_ok :: "buf \<Rightarrow> bool" where
  "ip4_ok ip \<longleftrightarrow> 20 \<le> length ip \<and> drop_bit 4 (ip ! 0) = 4 \<and> 20 \<le> ip4_ihl ip \<and> ip4_ihl ip \<le> length ip"

definition ip4_csum_off :: "buf \<Rightarrow> nat option" where
  "ip4_csum_off ip =
     csum_off (ip ! 9) (be16 (ip ! 6) (ip ! 7) AND 0x1fff \<noteq> 0) (length ip - ip4_ihl ip)"

definition field_zero :: "buf \<Rightarrow> nat \<Rightarrow> bool" where
  "field_zero ip k \<longleftrightarrow> ip ! k = 0 \<and> ip ! (k + 1) = 0"

definition ip4_pseudo :: "buf \<Rightarrow> u32" where
  "ip4_pseudo ip = the (pseudo_sum ip (ip ! 9) (length ip - ip4_ihl ip))"

definition l4_checksum :: "buf \<Rightarrow> u16" where
  "l4_checksum ip =
     (let csum = ucast (NOT (fold16 (sum16 (ip4_pseudo ip) (drop (ip4_ihl ip) ip))))
      in if ip ! 9 = 17 \<and> csum = 0 then 0xffff else csum)"

definition with_header :: "buf \<Rightarrow> buf" where
  "with_header ip =
     (if field_zero ip 10
      then (let c = at_ip_checksum (take (ip4_ihl ip) ip) in splice_at ip 10 [hi8 c, lo8 c])
      else ip)"

definition with_l4 :: "buf \<Rightarrow> buf" where
  "with_l4 ip =
     (case ip4_csum_off ip of None \<Rightarrow> ip
      | Some k \<Rightarrow>
          (if field_zero ip (ip4_ihl ip + k)
           then splice_at ip (ip4_ihl ip + k) [hi8 (l4_checksum ip), lo8 (l4_checksum ip)]
           else ip))"

lemma csum_off_bound: "csum_off p f n = Some k \<Longrightarrow> k + 2 \<le> n \<and> \<not> f \<and> even k"
  by (auto simp: csum_off_def split: if_splits)

lemma take2_drop: "k + 2 \<le> length b \<Longrightarrow> take 2 (drop k b) = [b ! k, b ! (k + 1)]"
  by (simp add: numeral_2_eq_2 take_Suc_conv_app_nth flip: Cons_nth_drop_Suc)

lemma splice_zeros:
  "k + 2 \<le> length b \<Longrightarrow> field_zero b k \<Longrightarrow> splice_at b k [0, 0] = b"
  using take2_drop [of k b] splice_at_idem [of k "[0, 0]" b]
  by (simp add: field_zero_def numeral_2_eq_2)

lemma fix_header_eq:
  assumes "20 \<le> n" "n \<le> length ip" "field_zero ip 10"
  shows "fix_header ip n =
    Some (let c = at_ip_checksum (take n ip) in splice_at ip 10 [hi8 c, lo8 c])"
  using assms by (simp add: fix_header_def store_bytes_def load_bytes_def splice_zeros Let_def)

lemma pseudo_sum_Some: "20 \<le> length ip \<Longrightarrow> \<exists>s. pseudo_sum ip p n = Some s"
  by (auto simp: pseudo_sum_def load_bytes_def)

lemma ip4_ihl_less: "ip4_ihl ip < 64"
proof -
  have "ip ! 0 AND 15 = take_bit 4 (ip ! 0)"
    by (simp add: take_bit_eq_mask mask_eq_exp_minus_1)
  then show ?thesis
    by (simp add: ip4_ihl_def unsigned_take_bit_eq take_bit_eq_mod unat_mod)
qed

lemma fix_l4_eq:
  assumes "ip4_ok ip" "ip4_csum_off ip = Some k" "field_zero ip (ip4_ihl ip + k)"
  shows "fix_l4 ip (ip4_ihl ip) k (ip ! 9) (length ip - ip4_ihl ip) =
    Some (splice_at ip (ip4_ihl ip + k) [hi8 (l4_checksum ip), lo8 (l4_checksum ip)])"
proof -
  have k: "ip4_ihl ip + k + 2 \<le> length ip" and n: "20 \<le> length ip" "ip4_ihl ip \<le> length ip"
    using assms csum_off_bound by (fastforce simp: ip4_csum_off_def ip4_ok_def)+
  from pseudo_sum_Some [OF n(1)] have
    "pseudo_sum ip (ip ! 9) (length ip - ip4_ihl ip) = Some (ip4_pseudo ip)"
    by (metis ip4_pseudo_def option.sel)
  with k n assms(3) show ?thesis
    by (simp add: fix_l4_def store_bytes_def load_bytes_def splice_zeros l4_checksum_def Let_def)
qed

lemma with_header_frame:
  assumes "ip4_ok ip"
  shows "length (with_header ip) = length ip"
    and "k \<noteq> 10 \<Longrightarrow> k \<noteq> 11 \<Longrightarrow> k < length ip \<Longrightarrow> with_header ip ! k = ip ! k"
    and "12 \<le> k \<Longrightarrow> drop k (with_header ip) = drop k ip"
  using assms
  by (auto simp: with_header_def Let_def ip4_ok_def nth_splice_at drop_splice_at_suffix)

lemma with_header_same:
  assumes ok: "ip4_ok ip"
  shows "ip4_ihl (with_header ip) = ip4_ihl ip" "ip4_ok (with_header ip)"
    "ip4_csum_off (with_header ip) = ip4_csum_off ip"
    "ip4_pseudo (with_header ip) = ip4_pseudo ip"
    "l4_checksum (with_header ip) = l4_checksum ip"
proof -
  have n: "20 \<le> length ip" "20 \<le> ip4_ihl ip" "ip \<noteq> []" using ok by (auto simp: ip4_ok_def)
  note fr = with_header_frame [OF ok]
  show ihl: "ip4_ihl (with_header ip) = ip4_ihl ip"
    using n by (simp add: ip4_ihl_def fr)
  show "ip4_ok (with_header ip)"
    using ok n by (simp add: ip4_ok_def ihl fr)
  show "ip4_csum_off (with_header ip) = ip4_csum_off ip"
    using n by (simp add: ip4_csum_off_def ihl fr)
  show ps: "ip4_pseudo (with_header ip) = ip4_pseudo ip"
    using n by (simp add: ip4_pseudo_def pseudo_sum_def load_bytes_def ihl fr)
  show "l4_checksum (with_header ip) = l4_checksum ip"
    using n by (simp add: l4_checksum_def ihl fr ps)
qed

lemma with_l4_with_header:
  assumes ok: "ip4_ok ip"
  shows "with_l4 (with_header ip) =
    (case ip4_csum_off ip of None \<Rightarrow> with_header ip
     | Some k \<Rightarrow> (if field_zero ip (ip4_ihl ip + k)
         then splice_at (with_header ip) (ip4_ihl ip + k) [hi8 (l4_checksum ip), lo8 (l4_checksum ip)]
         else with_header ip))"
proof (cases "ip4_csum_off ip")
  case None
  then show ?thesis by (simp add: with_l4_def with_header_same [OF ok])
next
  case (Some k)
  then have "ip4_ihl ip + k + 2 \<le> length ip" "20 \<le> ip4_ihl ip"
    using csum_off_bound ok by (fastforce simp: ip4_csum_off_def ip4_ok_def)+
  with Some show ?thesis
    by (simp add: with_l4_def with_header_same [OF ok] field_zero_def with_header_frame [OF ok])
qed

lemma fix_checksums_eq:
  "at_ip4_fix_checksums ip =
     Some (if ip4_ok ip then (0, with_l4 (with_header ip)) else (-1, ip))"
proof (cases "ip4_ok ip")
  case False
  then show ?thesis
    by (auto simp: at_ip4_fix_checksums_def ip4_ok_def ip4_ihl_def load8_def Let_def)
next
  case ok: True
  have n: "20 \<le> length ip" "ip \<noteq> []" "20 \<le> ip4_ihl ip" "ip4_ihl ip \<le> length ip"
    "drop_bit 4 (ip ! 0) = 4" using ok by (auto simp: ip4_ok_def)
  note same = with_header_same [OF ok] and fr = with_header_frame [OF ok]
  have z10: "(ip ! 10 OR ip ! 11 = 0) = field_zero ip 10"
    by (simp add: field_zero_def or_eq_0_iff)
  have hdr: "field_zero ip 10 \<Longrightarrow> fix_header ip (ip4_ihl ip) = Some (with_header ip)"
    "\<not> field_zero ip 10 \<Longrightarrow> with_header ip = ip"
    using n by (simp_all add: with_header_def fix_header_eq)
  show ?thesis
  proof (cases "ip4_csum_off ip")
    case None
    then show ?thesis using n ok hdr
      by (simp add: at_ip4_fix_checksums_def load8_def z10 with_l4_with_header flip: ip4_ihl_def)
         (auto simp: ip4_csum_off_def Let_def)
  next
    case (Some k)
    then have k: "ip4_ihl ip + k + 2 \<le> length ip"
      and frag: "be16 (ip ! 6) (ip ! 7) AND 0x1fff = 0"
      and off: "csum_off (ip ! 9) False (length ip - ip4_ihl ip) = Some k"
      using n csum_off_bound by (fastforce simp: ip4_csum_off_def)+
    have zk: "(ip ! (ip4_ihl ip + k) OR ip ! (ip4_ihl ip + k + 1) = 0) = field_zero ip (ip4_ihl ip + k)"
      by (simp add: field_zero_def or_eq_0_iff)
    have p9: "with_header ip ! 9 = ip ! 9" using n by (simp add: fr)
    have zk': "field_zero (with_header ip) (ip4_ihl ip + k) = field_zero ip (ip4_ihl ip + k)"
      using n k by (simp add: field_zero_def fr)
    let ?l4 = "splice_at (with_header ip) (ip4_ihl ip + k) [hi8 (l4_checksum ip), lo8 (l4_checksum ip)]"
    have l4: "field_zero ip (ip4_ihl ip + k) \<Longrightarrow>
        fix_l4 (with_header ip) (ip4_ihl ip) k (ip ! 9) (length ip - ip4_ihl ip) = Some ?l4"
      using fix_l4_eq [OF same(2), of k] Some by (simp add: same fr p9 zk')
    have "at_ip4_fix_checksums ip =
        Some (0, if field_zero ip (ip4_ihl ip + k) then ?l4 else with_header ip)"
      using n hdr k frag off zk l4
      by (cases "field_zero ip 10"; cases "field_zero ip (ip4_ihl ip + k)")
         (simp_all add: at_ip4_fix_checksums_def load8_def z10 Let_def flip: ip4_ihl_def)
    then show ?thesis using ok Some by (simp add: with_l4_with_header)
  qed
qed

lemma with_l4_frame:
  assumes "ip4_ok ip"
  shows "length (with_l4 ip) = length ip" "k \<le> ip4_ihl ip \<Longrightarrow> take k (with_l4 ip) = take k ip"
proof -
  have "length (with_l4 ip) = length ip \<and> (k \<le> ip4_ihl ip \<longrightarrow> take k (with_l4 ip) = take k ip)"
  proof (cases "ip4_csum_off ip")
    case None
    then show ?thesis by (simp add: with_l4_def)
  next
    case (Some j)
    then have "ip4_ihl ip + j + 2 \<le> length ip"
      using csum_off_bound assms by (fastforce simp: ip4_csum_off_def ip4_ok_def)
    with Some show ?thesis by (simp add: with_l4_def take_splice_at_prefix)
  qed
  then show "length (with_l4 ip) = length ip" "k \<le> ip4_ihl ip \<Longrightarrow> take k (with_l4 ip) = take k ip"
    by blast+
qed

text \<open>The receiver's test: the one's complement sum is all ones, i.e. the checksum comes out 0.\<close>

lemma filled_checksum_verifies:
  assumes k: "even k" "k + 2 \<le> length p" "field_zero p k"
    and pos: "nsum16 p \<noteq> 0" and small: "length p \<le> 131068"
  shows "at_ip_checksum (splice_at p k [hi8 (at_ip_checksum p), lo8 (at_ip_checksum p)]) = 0"
proof -
  let ?c = "at_ip_checksum p" and ?q = "splice_at p k [hi8 (at_ip_checksum p), lo8 (at_ip_checksum p)]"
  have b: "nsum16 p + 65535 < 2 ^ 32" using nsum16_bound [of p] small by simp
  have q: "nsum16 ?q = nsum16 p + unat ?c"
    using k by (intro nsum16_splice) (auto simp: field_zero_def)
  have sp: "unat (sum16 0 p) = nsum16 p" using b by (simp add: unat_sum16)
  have sq: "unat (sum16 0 ?q) = nsum16 p + unat ?c"
    using b unat_u16_less [of ?c] by (simp add: unat_sum16 q)
  from complement_verifies [OF unat_checksum, of p] have "65535 dvd unat (sum16 0 ?q)"
    by (simp add: sp sq)
  moreover have "sum16 0 ?q \<noteq> 0" using sq pos by auto
  ultimately show ?thesis by (simp add: checksum_zero_iff fold16_full_iff)
qed

text \<open>The UDP variant: a computed 0 is stored as \<open>0xffff\<close>.\<close>

lemma filled_udp_checksum_verifies:
  assumes k: "even k" "k + 2 \<le> length p" "field_zero p k" and small: "length p \<le> 131068"
    and pos: "nsum16 p \<noteq> 0" and c: "c = (if at_ip_checksum p = 0 then 0xffff else at_ip_checksum p)"
  shows "at_ip_checksum (splice_at p k [hi8 c, lo8 c]) = 0"
proof (cases "at_ip_checksum p = 0")
  case False
  then show ?thesis using filled_checksum_verifies [OF k pos small] c by simp
next
  case True
  let ?q = "splice_at p k [hi8 c, lo8 c]"
  have b: "nsum16 p + 65535 < 2 ^ 32" using nsum16_bound [of p] small by simp
  have uc: "unat c = 65535" using c True by simp
  have q: "nsum16 ?q = nsum16 p + unat c" using k by (intro nsum16_splice) (auto simp: field_zero_def)
  have sq: "unat (sum16 0 ?q) = nsum16 p + 65535" using b by (simp add: unat_sum16 q uc)
  have "65535 dvd nsum16 p"
    using True b by (simp add: checksum_zero_iff fold16_full_iff unat_sum16)
  then have "65535 dvd unat (sum16 0 ?q)" by (simp add: sq)
  moreover have "sum16 0 ?q \<noteq> 0" using sq by auto
  ultimately show ?thesis by (simp add: checksum_zero_iff fold16_full_iff)
qed

lemma ip4_header_sum_pos:
  assumes "ip4_ok ip"
  shows "nsum16 (take (ip4_ihl ip) ip) \<noteq> 0"
proof -
  obtain a b r where ip: "ip = a # b # r" and n: "2 \<le> ip4_ihl ip"
    using assms by (cases ip; cases "tl ip") (auto simp: ip4_ok_def)
  then obtain m where "ip4_ihl ip = Suc (Suc m)" by (metis add_2_eq_Suc le_Suc_ex)
  moreover have "a \<noteq> 0" using assms ip by (auto simp: ip4_ok_def)
  then have "unat a \<noteq> 0" by (simp add: unat_0_iff)
  ultimately show ?thesis by (simp add: ip)
qed

lemma take_ihl_result:
  assumes "ip4_ok ip"
  shows "take (ip4_ihl ip) (with_l4 (with_header ip)) = take (ip4_ihl ip) (with_header ip)"
  using with_l4_frame(2) [of "with_header ip"] with_header_same [OF assms] by simp

lemma splice_take: "i + length xs \<le> n \<Longrightarrow> n \<le> length b \<Longrightarrow> take n (splice_at b i xs) = splice_at (take n b) i xs"
  by (rule nth_equalityI) (auto simp: nth_splice_at)

lemma splice_drop: "n \<le> i \<Longrightarrow> i + length xs \<le> length b \<Longrightarrow> drop n (splice_at b i xs) = splice_at (drop n b) (i - n) xs"
  by (simp add: splice_at_def drop_take)

lemma ip4_pseudo_bound:
  assumes "ip4_ok ip" "length ip \<le> 65535"
  shows "unat (ip4_pseudo ip) \<le> 4 * 65535 + 255 + 65535"
proof (cases "ip ! 9 = 6 \<or> ip ! 9 = 17")
  case True
  define a where "a = take 8 (drop 12 ip)"
  have "length a = 8" using assms by (auto simp: a_def ip4_ok_def)
  then have a: "nsum16 a \<le> 4 * 65535" using nsum16_bound [of a] by simp
  have l: "unat (of_nat (length ip - ip4_ihl ip) :: u32) \<le> 65535"
    using assms by (simp add: unat_of_nat)
  have p: "unat (ucast (ip ! 9) :: u32) \<le> 255"
    using unat_byte_less [of "ip ! 9"] by (simp add: unsigned_ucast_eq take_bit_eq_mod)
  from True have "ip4_pseudo ip = sum16 0 a + ucast (ip ! 9) + of_nat (length ip - ip4_ihl ip)"
    using assms by (simp add: ip4_pseudo_def pseudo_sum_def load_bytes_def a_def ip4_ok_def)
  moreover have "unat (sum16 0 a) \<le> 4 * 65535" using a by (simp add: unat_sum16)
  ultimately show ?thesis using l p
    by (simp add: unat_word_ariths)
next
  case False
  then show ?thesis by (simp add: ip4_pseudo_def pseudo_sum_def)
qed

lemma l4_sum_verifies:
  assumes ok: "ip4_ok ip" and len: "length ip \<le> 65535"
    and k: "ip4_csum_off ip = Some k" "field_zero ip (ip4_ihl ip + k)"
  shows "fold16 (sum16 (ip4_pseudo ip) (drop (ip4_ihl ip) (with_l4 ip))) = 0xffff"
proof -
  define n s l c where "n = ip4_ihl ip" and "s = ip4_pseudo ip" and "l = drop n ip" and "c = l4_checksum ip"
  have kb: "n + k + 2 \<le> length ip" "even k"
    using k ok csum_off_bound by (fastforce simp: ip4_csum_off_def ip4_ok_def n_def)+
  have w: "drop n (with_l4 ip) = splice_at l k [hi8 c, lo8 c]"
    using k kb by (simp add: with_l4_def splice_drop l_def n_def c_def)
  have sum: "nsum16 (splice_at l k [hi8 c, lo8 c]) = nsum16 l + unat c"
    using kb k by (intro nsum16_splice) (auto simp: field_zero_def l_def n_def add.assoc)
  have ll: "length l \<le> 65535" using len by (simp add: l_def)
  have sb: "unat s \<le> 6 * 65535" using ip4_pseudo_bound [OF ok len] by (simp add: s_def)
  have lb: "nsum16 l \<le> 65535 * 32768" using nsum16_bound [of l] ll by simp
  have ul: "unat (sum16 s l) = unat s + nsum16 l" using sb lb by (simp add: unat_sum16)
  have ut: "unat (sum16 s (splice_at l k [hi8 c, lo8 c])) = unat s + nsum16 l + unat c"
    using sb lb unat_u16_less [of c] by (simp add: unat_sum16 sum)
  let ?f = "fold16 (sum16 s l)"
  have u: "unat (ucast (NOT ?f) :: u16) = 65535 - unat ?f" by (rule unat_not16) (rule fold16_less)
  have c: "c = (if ip ! 9 = 17 \<and> (ucast (NOT ?f) :: u16) = 0 then 0xffff else ucast (NOT ?f))"
    by (simp add: c_def l4_checksum_def Let_def s_def l_def n_def)
  have "65535 dvd unat s + nsum16 l + unat c"
  proof (cases "(ucast (NOT ?f) :: u16) = 0")
    case True
    then have "65535 dvd unat s + nsum16 l" using complement_verifies [OF u] ul by simp
    then show ?thesis using c True by (auto split: if_splits)
  next
    case False
    then show ?thesis using complement_verifies [OF u] ul c by simp
  qed
  moreover have "sum16 s (splice_at l k [hi8 c, lo8 c]) \<noteq> 0"
  proof
    assume "sum16 s (splice_at l k [hi8 c, lo8 c]) = 0"
    then have z: "unat s + nsum16 l = 0" "unat c = 0" using ut by simp_all
    then have "?f = 0" using ul fold16_zero_iff by (metis unat_0_iff)
    then show False using c z(2) u by (auto split: if_splits)
  qed
  ultimately have "unat (fold16 (sum16 s (splice_at l k [hi8 c, lo8 c]))) = 65535"
    using ut by (simp add: fold16_full_iff)
  then show ?thesis
    unfolding n_def [symmetric] w s_def [symmetric] by (simp add: word_unat_eq_iff)
qed

section \<open>Properties\<close>

text \<open>
  C26: \<open>at_ip4_fix_checksums\<close> never reads or writes outside the packet, for any bytes of any
  length; it accepts exactly the packets with a complete IPv4 header, keeps the length, and
  leaves a rejected packet as it was.
\<close>

theorem fix_checksums_safe:
  "\<exists>rc out. at_ip4_fix_checksums ip = Some (rc, out) \<and> length out = length ip \<and>
     (if ip4_ok ip then rc = 0 else rc = -1 \<and> out = ip)"
  by (auto simp: fix_checksums_eq with_l4_frame with_header_same with_header_frame)

text \<open>
  When the header checksum field was zero (utun offload), the header of the packet that
  goes to the phone verifies: its Internet checksum comes out as zero.
\<close>

theorem fix_header_verifies:
  assumes "at_ip4_fix_checksums ip = Some (0, out)" "field_zero ip 10"
  shows "at_ip_checksum (take (ip4_ihl ip) out) = 0"
proof -
  from assms(1) have ok: "ip4_ok ip" and out: "out = with_l4 (with_header ip)"
    by (auto simp: fix_checksums_eq split: if_splits)
  have n: "20 \<le> ip4_ihl ip" "ip4_ihl ip \<le> length ip" using ok by (auto simp: ip4_ok_def)
  let ?h = "take (ip4_ihl ip) ip"
  have "take (ip4_ihl ip) out = splice_at ?h 10 [hi8 (at_ip_checksum ?h), lo8 (at_ip_checksum ?h)]"
    unfolding out take_ihl_result [OF ok]
    using n assms(2) by (simp add: with_header_def Let_def splice_take)
  moreover have "at_ip_checksum (splice_at ?h 10 [hi8 (at_ip_checksum ?h), lo8 (at_ip_checksum ?h)]) = 0"
    using n assms(2) ip4_header_sum_pos [OF ok] ip4_ihl_less [of ip]
    by (intro filled_checksum_verifies) (auto simp: field_zero_def)
  ultimately show ?thesis by simp
qed

definition sample_tcp :: buf where
  "sample_tcp = [0x45, 0, 0, 40, 0, 0, 0, 0, 64, 6, 0, 0, 10, 11, 226, 2, 10, 11, 226, 11,
     0x04, 0xd2, 0, 80, 0, 0, 0, 0, 0, 0, 0, 0, 0x50, 0x02, 0, 0, 0, 0, 0, 0]"

lemma sample_tcp_ok:
  "ip4_ok sample_tcp" "ip4_ihl sample_tcp = 20" "ip4_csum_off sample_tcp = Some 16"
  "length sample_tcp = 40" "field_zero sample_tcp 10" "field_zero sample_tcp 36"
  by (simp_all add: sample_tcp_def ip4_ok_def ip4_ihl_def ip4_csum_off_def csum_off_def be16_def
      field_zero_def)

theorem fix_header_verifies_witness:
  "\<exists>out. at_ip4_fix_checksums sample_tcp = Some (0, out) \<and> at_ip_checksum (take 20 out) = 0"
proof -
  obtain out where out: "at_ip4_fix_checksums sample_tcp = Some (0, out)"
    by (simp add: fix_checksums_eq sample_tcp_ok)
  with fix_header_verifies [OF out] show ?thesis by (simp add: sample_tcp_ok)
qed



lemma hi8_lo8_zero_iff: "hi8 c = 0 \<and> lo8 c = 0 \<longleftrightarrow> c = 0"
proof
  assume "hi8 c = 0 \<and> lo8 c = 0"
  then have "be16 0 0 = c" using be16_hi_lo [of c] by simp
  then show "c = 0" by (simp add: be16_def)
qed (simp add: hi8_def lo8_def)

lemma splice_field_zero:
  "k + 2 \<le> length b \<Longrightarrow> field_zero (splice_at b k [hi8 c, lo8 c]) k \<longleftrightarrow> c = 0"
  using hi8_lo8_zero_iff [of c] by (simp add: field_zero_def nth_splice_at)

lemma zero_splice: "k + 2 \<le> length b \<Longrightarrow> field_zero b k \<Longrightarrow> c = 0 \<Longrightarrow> splice_at b k [hi8 c, lo8 c] = b"
  using splice_zeros hi8_lo8_zero_iff [of c] by auto

lemma with_header_idem:
  assumes ok: "ip4_ok ip"
  shows "with_header (with_header ip) = with_header ip"
proof (cases "field_zero ip 10")
  case True
  let ?c = "at_ip_checksum (take (ip4_ihl ip) ip)"
  have n: "20 \<le> length ip" using ok by (simp add: ip4_ok_def)
  have w: "with_header ip = splice_at ip 10 [hi8 ?c, lo8 ?c]" using True by (simp add: with_header_def Let_def)
  show ?thesis
  proof (cases "?c = 0")
    case True
    with \<open>field_zero ip 10\<close> n w have "with_header ip = ip" by (simp add: zero_splice)
    then show ?thesis by simp
  next
    case False
    then have "\<not> field_zero (with_header ip) 10" using n by (simp add: w splice_field_zero)
    then show ?thesis by (simp add: with_header_def [of "with_header ip"])
  qed
next
  case False
  then show ?thesis by (simp add: with_header_def)
qed

lemma with_l4_idem:
  assumes ok: "ip4_ok ip"
  shows "with_l4 (with_l4 ip) = with_l4 ip"
proof (cases "\<exists>k. ip4_csum_off ip = Some k \<and> field_zero ip (ip4_ihl ip + k) \<and> l4_checksum ip \<noteq> 0")
  case False
  then have "with_l4 ip = ip"
    using ok csum_off_bound
    by (fastforce simp: with_l4_def ip4_csum_off_def ip4_ok_def split: option.split intro!: zero_splice)
  then show ?thesis by simp
next
  case True
  then obtain k where k: "ip4_csum_off ip = Some k" "field_zero ip (ip4_ihl ip + k)" "l4_checksum ip \<noteq> 0"
    by blast
  let ?j = "ip4_ihl ip + k" and ?c = "l4_checksum ip"
  have b: "?j + 2 \<le> length ip" "20 \<le> ip4_ihl ip"
    using k(1) ok csum_off_bound by (fastforce simp: ip4_csum_off_def ip4_ok_def)+
  have w: "with_l4 ip = splice_at ip ?j [hi8 ?c, lo8 ?c]" using k by (simp add: with_l4_def)
  have i: "with_l4 ip ! m = ip ! m" if "m < 20" for m
    using that b by (simp add: w nth_splice_at)
  have ihl: "ip4_ihl (with_l4 ip) = ip4_ihl ip" by (simp add: ip4_ihl_def i)
  have "ip4_csum_off (with_l4 ip) = Some k"
    using k(1) with_l4_frame(1) [OF ok] by (simp add: ip4_csum_off_def ihl i)
  moreover have "\<not> field_zero (with_l4 ip) ?j" using b k(3) by (simp add: w splice_field_zero)
  ultimately show ?thesis by (simp add: with_l4_def [of "with_l4 ip"] ihl)
qed

lemma with_header_with_l4:
  assumes ok: "ip4_ok ip" and h: "with_header ip = ip"
  shows "with_header (with_l4 ip) = with_l4 ip"
proof (cases "field_zero ip 10")
  case True
  have n: "20 \<le> ip4_ihl ip" "ip4_ihl ip \<le> length ip" "20 \<le> length ip" using ok by (auto simp: ip4_ok_def)
  have i: "with_l4 ip ! m = ip ! m" if "m < 20" for m
    using with_l4_frame(2) [OF ok n(1)] that by (metis nth_take)
  let ?c = "at_ip_checksum (take (ip4_ihl ip) ip)"
  have "splice_at ip 10 [hi8 ?c, lo8 ?c] = ip" using True h by (simp add: with_header_def Let_def)
  then have c: "?c = 0" using True n splice_field_zero [of 10 ip ?c] by simp
  have ihl: "ip4_ihl (with_l4 ip) = ip4_ihl ip" by (simp add: ip4_ihl_def i)
  have "field_zero (with_l4 ip) 10" using True by (simp add: field_zero_def i)
  then show ?thesis
    using n c with_l4_frame [OF ok]
    by (simp add: with_header_def ihl zero_splice)
next
  case False
  have "20 \<le> ip4_ihl ip" using ok by (simp add: ip4_ok_def)
  then have "with_l4 ip ! m = ip ! m" if "m < 20" for m
    using with_l4_frame(2) [OF ok] that by (metis nth_take)
  then have "\<not> field_zero (with_l4 ip) 10" using False by (simp add: field_zero_def)
  then show ?thesis by (simp add: with_header_def)
qed

text \<open>
  Filling is idempotent: running it on its own result changes nothing, so a packet whose
  checksums are present (or already computed) is passed through byte for byte.
\<close>

theorem fix_checksums_idempotent:
  "at_ip4_fix_checksums ip \<bind> (\<lambda>(rc, out). at_ip4_fix_checksums out) = at_ip4_fix_checksums ip"
proof (cases "ip4_ok ip")
  case ok: True
  let ?h = "with_header ip"
  have okh: "ip4_ok ?h" by (rule with_header_same(2) [OF ok])
  have i: "with_l4 ?h ! m = ?h ! m" if "m < 20" for m
    using with_l4_frame(2) [OF okh, of 20] okh that by (metis ip4_ok_def nth_take)
  have "ip4_ihl (with_l4 ?h) = ip4_ihl ?h" by (simp add: ip4_ihl_def i)
  then have "ip4_ok (with_l4 ?h)" using okh with_l4_frame(1) [OF okh] by (simp add: ip4_ok_def i)
  moreover have "with_header (with_l4 ?h) = with_l4 ?h"
    by (rule with_header_with_l4 [OF okh with_header_idem [OF ok]])
  ultimately show ?thesis using ok by (simp add: fix_checksums_eq with_l4_idem [OF okh])
next
  case False
  then show ?thesis by (simp add: fix_checksums_eq)
qed

text \<open>
  The fragment test ignores the more-fragments bit: a first UDP fragment (offset 0, more
  fragments to come) with a zero checksum is not skipped, and gets a checksum computed over
  the bytes of this fragment only, with the fragment's length in the pseudo header.
\<close>

theorem first_fragment_is_filled:
  assumes "ip4_ok ip" "be16 (ip ! 6) (ip ! 7) = 0x2000" "ip ! 9 = 17"
    and "8 \<le> length ip - ip4_ihl ip" "field_zero ip (ip4_ihl ip + 6)"
    and "at_ip4_fix_checksums ip = Some (0, out)"
  shows "\<not> field_zero out (ip4_ihl ip + 6)"
proof -
  note ok = assms(1)
  have out: "out = with_l4 (with_header ip)" using assms(6) ok by (simp add: fix_checksums_eq)
  have "ip4_csum_off ip = Some 6" using assms(2,3,4) by (simp add: ip4_csum_off_def csum_off_def)
  then have "out = splice_at (with_header ip) (ip4_ihl ip + 6) [hi8 (l4_checksum ip), lo8 (l4_checksum ip)]"
    using assms(5) by (simp add: out with_l4_with_header [OF ok])
  moreover have "l4_checksum ip \<noteq> 0" using assms(3) by (simp add: l4_checksum_def Let_def)
  ultimately show ?thesis
    using assms(4) ok with_header_frame(1) [OF ok] by (simp add: splice_field_zero ip4_ok_def)
qed

definition sample_fragment :: buf where
  "sample_fragment = [0x45, 0, 0, 28, 0, 1, 0x20, 0, 64, 17, 1, 1, 10, 0, 0, 2, 10, 0, 0, 1,
     0, 53, 0, 53, 0, 100, 0, 0]"

theorem first_fragment_is_filled_witness:
  "\<exists>out. at_ip4_fix_checksums sample_fragment = Some (0, out) \<and> \<not> field_zero out 26"
proof -
  have f: "ip4_ok sample_fragment" "be16 (sample_fragment ! 6) (sample_fragment ! 7) = 0x2000"
    "sample_fragment ! 9 = 17" "ip4_ihl sample_fragment = 20" "length sample_fragment = 28"
    "field_zero sample_fragment 26"
    by (simp_all add: sample_fragment_def ip4_ok_def ip4_ihl_def be16_def field_zero_def)
  then obtain out where out: "at_ip4_fix_checksums sample_fragment = Some (0, out)"
    by (simp add: fix_checksums_eq)
  have "\<not> field_zero out (ip4_ihl sample_fragment + 6)"
    by (rule first_fragment_is_filled [OF f(1-3) _ _ out]) (simp_all add: f)
  with out f show ?thesis by simp
qed

end
