(* ===== verification/Common.thy ===== *)
theory Common
  imports Prelude
begin

text \<open>
  The remaining helpers of \<open>engine/src/common.c\<close>: MAC printing and copying, JSON string
  escaping into a bounded buffer, and the gateway-MAC learning filter. A C string is the list
  of its characters before the terminating NUL; \<open>cstr\<close> reads one out of a character buffer.
  Pointers that every caller passes non-NULL are plain lists; a NULL source string is \<open>None\<close>.
\<close>

unbundle bit_operations_syntax

abbreviation NUL :: char where
  "NUL \<equiv> CHR 0x00"

definition cstr :: "string \<Rightarrow> string" where
  "cstr b = takeWhile (\<lambda>c. c \<noteq> NUL) b"

lemma cstr_append_NUL [simp]: "NUL \<notin> set s \<Longrightarrow> cstr (s @ NUL # r) = s"
proof -
  assume "NUL \<notin> set s"
  then have "takeWhile (\<lambda>c. c \<noteq> NUL) (s @ NUL # r) = s @ takeWhile (\<lambda>c. c \<noteq> NUL) (NUL # r)"
    by (intro takeWhile_append2) auto
  then show ?thesis by (simp add: cstr_def)
qed

section \<open>Hexadecimal digits\<close>

definition hexd :: "nat \<Rightarrow> char" where
  "hexd n = ''0123456789abcdef'' ! n"

definition hex2 :: "nat \<Rightarrow> string" where
  "hex2 n = [hexd (n div 16), hexd (n mod 16)]"

definition unhexd :: "char \<Rightarrow> nat option" where
  "unhexd c =
     (let n = of_char c :: nat in
      if 48 \<le> n \<and> n \<le> 57 then Some (n - 48)
      else if 97 \<le> n \<and> n \<le> 102 then Some (n - 87) else None)"

lemma less_16_cases:
  "(n::nat) < 16 \<Longrightarrow> n \<in> {0, 1, 2, 3, 4, 5, 6, 7, 8, 9, 10, 11, 12, 13, 14, 15}"
  unfolding insert_iff empty_iff by presburger

lemma unhexd_hexd: "n < 16 \<Longrightarrow> unhexd (hexd n) = Some n"
  by (drule less_16_cases) (auto simp: hexd_def unhexd_def Let_def)

lemma hexd_inject: "m < 16 \<Longrightarrow> n < 16 \<Longrightarrow> hexd m = hexd n \<longleftrightarrow> m = n"
  by (metis unhexd_hexd option.inject)

lemma hex2_inject: "m < 256 \<Longrightarrow> n < 256 \<Longrightarrow> hex2 m = hex2 n \<longleftrightarrow> m = n"
proof -
  assume "m < 256" "n < 256"
  then have "m div 16 < 16" "n div 16 < 16" "m mod 16 < 16" "n mod 16 < 16" by auto
  then show ?thesis
    by (simp add: hex2_def hexd_inject) (metis div_mult_mod_eq)
qed

section \<open>MAC addresses\<close>

definition mac_text :: "buf \<Rightarrow> string" where
  "mac_text mac = hex2 (unat (mac ! 0)) @ '':'' @ hex2 (unat (mac ! 1)) @ '':'' @
     hex2 (unat (mac ! 2)) @ '':'' @ hex2 (unat (mac ! 3)) @ '':'' @
     hex2 (unat (mac ! 4)) @ '':'' @ hex2 (unat (mac ! 5))"

definition at_mac_format :: "buf \<Rightarrow> string \<Rightarrow> string option" where
  "at_mac_format mac out =
     (if length out < 18 then Some out else store_bytes out 0 (mac_text mac @ [NUL]))"

definition at_mac_store :: "buf \<Rightarrow> buf \<Rightarrow> buf option" where
  "at_mac_store dst src = do { m \<leftarrow> load_bytes src 0 6; store_bytes dst 0 m }"

definition at_mac_snapshot_pair :: "buf \<Rightarrow> buf \<Rightarrow> buf \<Rightarrow> buf \<Rightarrow> (buf \<times> buf) option" where
  "at_mac_snapshot_pair a b out_a out_b = do {
     x \<leftarrow> load_bytes a 0 6; out_a \<leftarrow> store_bytes out_a 0 x;
     y \<leftarrow> load_bytes b 0 6; out_b \<leftarrow> store_bytes out_b 0 y;
     Some (out_a, out_b) }"

lemma length_mac_text [simp]: "length (mac_text m) = 17"
  by (simp add: mac_text_def hex2_def)

lemma mac_text_inject:
  assumes "length m = 6" "length m' = 6" "mac_text m = mac_text m'"
  shows "m = m'"
proof (rule nth_equalityI)
  fix i assume "i < length m"
  then have "i \<in> {0, 1, 2, 3, 4, 5}" using assms(1) by auto
  moreover have "hex2 (unat (m ! i)) = hex2 (unat (m' ! i))" if "i \<in> {0, 1, 2, 3, 4, 5}"
    using assms(3) that by (auto simp: mac_text_def hex2_def)
  ultimately show "m ! i = m' ! i"
    using hex2_inject [OF unat_byte_less unat_byte_less] by (metis word_unat_eq_iff)
qed (simp add: assms)

section \<open>Gateway MAC learning\<close>

text \<open>
  The result is \<open>None\<close> for 0 (nothing learned, \<open>out\<close> untouched) and \<open>Some mac\<close> for 1.
\<close>

definition at_eth_learn_gw_mac :: "buf \<Rightarrow> buf \<Rightarrow> u32 \<Rightarrow> buf option option" where
  "at_eth_learn_gw_mac frame host_mac gw_ip =
     (if gw_ip = 0 \<or> length frame < 14 then Some None else do {
        src_mac \<leftarrow> load_bytes frame 6 6;
        (if src_mac = host_mac then Some None else do {
           b12 \<leftarrow> load8 frame 12; b13 \<leftarrow> load8 frame 13;
           (let et = be16 b12 b13 in
            if et = 0x0806 then
              (if length frame < 42 then Some None else do {
                 b20 \<leftarrow> load8 frame 20; b21 \<leftarrow> load8 frame 21;
                 spa \<leftarrow> load32 frame 28;
                 (if be16 b20 b21 \<noteq> 2 \<or> spa \<noteq> gw_ip then Some None
                  else do { m \<leftarrow> load_bytes frame 22 6; Some (Some m) }) })
            else if et = 0x0800 then
              (if length frame < 14 + 20 then Some None else do {
                 b14 \<leftarrow> load8 frame 14;
                 (if drop_bit 4 b14 \<noteq> 4 then Some None else do {
                    src \<leftarrow> load32 frame (14 + 12);
                    (if src \<noteq> gw_ip then Some None
                     else do { m \<leftarrow> load_bytes frame 6 6; Some (Some m) }) }) })
            else Some None) }) })"

definition arp_reply_from :: "buf \<Rightarrow> u32 \<Rightarrow> bool" where
  "arp_reply_from f ip \<longleftrightarrow> 42 \<le> length f \<and> be16 (f ! 12) (f ! 13) = 0x0806 \<and>
     be16 (f ! 20) (f ! 21) = 2 \<and> word_at f 28 = ip"

definition ipv4_from :: "buf \<Rightarrow> u32 \<Rightarrow> bool" where
  "ipv4_from f ip \<longleftrightarrow> 34 \<le> length f \<and> be16 (f ! 12) (f ! 13) = 0x0800 \<and>
     drop_bit 4 (f ! 14) = 4 \<and> word_at f 26 = ip"

text \<open>
  Gateway learning reads only inside the frame, and learns exactly from an ARP reply of the
  gateway (its sender hardware address) or an IPv4 packet whose source is the gateway (its
  Ethernet source), never from a frame the host sent itself nor before a gateway is known.
\<close>

theorem learn_gw_mac_spec:
  "at_eth_learn_gw_mac f host gw =
     Some (if gw = 0 \<or> take 6 (drop 6 f) = host then None
           else if arp_reply_from f gw then Some (take 6 (drop 22 f))
           else if ipv4_from f gw then Some (take 6 (drop 6 f))
           else None)"
  by (auto simp: at_eth_learn_gw_mac_def buf_simps arp_reply_from_def ipv4_from_def Let_def)

section \<open>JSON escaping\<close>

definition json_rep :: "char \<Rightarrow> string option" where
  "json_rep c =
     (if c = CHR 0x22 then Some [CHR 0x5C, CHR 0x22]
      else if c = CHR 0x5C then Some [CHR 0x5C, CHR 0x5C]
      else if c = CHR 0x0A then Some [CHR 0x5C, CHR ''n'']
      else if c = CHR 0x0D then Some [CHR 0x5C, CHR ''r'']
      else if c = CHR 0x09 then Some [CHR 0x5C, CHR ''t'']
      else if (of_char c :: nat) < 0x20
        then Some ([CHR 0x5C, CHR ''u'', CHR ''0'', CHR ''0''] @ hex2 (of_char c))
      else None)"

fun json_loop :: "string \<Rightarrow> nat \<Rightarrow> string \<Rightarrow> (int \<times> string) option" where
  "json_loop [] p dst = do { dst \<leftarrow> store_bytes dst p [NUL]; Some (0, dst) }"
| "json_loop (c # cs) p dst =
     (if c = NUL then do { dst \<leftarrow> store_bytes dst p [NUL]; Some (0, dst) } else
      case json_rep c of
        Some rep \<Rightarrow>
          (let n = length rep in
           if p + n + 1 \<ge> length dst then do { dst \<leftarrow> store_bytes dst p [NUL]; Some (-1, dst) }
           else do { dst \<leftarrow> store_bytes dst p rep; json_loop cs (p + n) dst })
      | None \<Rightarrow>
          (if p + 2 \<ge> length dst then do { dst \<leftarrow> store_bytes dst p [NUL]; Some (-1, dst) }
           else do { dst \<leftarrow> store_bytes dst p [c]; json_loop cs (p + 1) dst }))"

definition at_json_escape :: "string option \<Rightarrow> string \<Rightarrow> (int \<times> string) option" where
  "at_json_escape src dst =
     (if length dst = 0 then Some (-1, dst)
      else json_loop (case src of None \<Rightarrow> '''' | Some s \<Rightarrow> s) 0 dst)"

text \<open>The reference: one escaped character, and a JSON reader for the body of a string literal.\<close>

definition json_enc :: "char \<Rightarrow> string" where
  "json_enc c = (case json_rep c of Some r \<Rightarrow> r | None \<Rightarrow> [c])"

fun json_scan :: "string \<Rightarrow> (string \<times> string) option" where
  "json_scan [] = None"
| "json_scan (c # r) =
     (if c = CHR 0x22 then Some ([], r)
      else if c = CHR 0x5C then
        (case r of
           e # r1 \<Rightarrow>
             (if e = CHR 0x22 \<or> e = CHR 0x5C \<or> e = CHR ''/'' then map_option (apfst (Cons e)) (json_scan r1)
              else if e = CHR ''n'' then map_option (apfst (Cons (CHR 0x0A))) (json_scan r1)
              else if e = CHR ''r'' then map_option (apfst (Cons (CHR 0x0D))) (json_scan r1)
              else if e = CHR ''t'' then map_option (apfst (Cons (CHR 0x09))) (json_scan r1)
              else if e = CHR ''b'' then map_option (apfst (Cons (CHR 0x08))) (json_scan r1)
              else if e = CHR ''f'' then map_option (apfst (Cons (CHR 0x0C))) (json_scan r1)
              else if e = CHR ''u'' then
                (case r1 of
                   h3 # h2 # h1 # h0 # r2 \<Rightarrow>
                     (if h3 = CHR ''0'' \<and> h2 = CHR ''0'' then
                        do { a \<leftarrow> unhexd h1; b \<leftarrow> unhexd h0; (s, t) \<leftarrow> json_scan r2;
                             Some (char_of (16 * a + b) # s, t) }
                      else None)
                 | _ \<Rightarrow> None)
              else None)
         | [] \<Rightarrow> None)
      else if (of_char c :: nat) < 0x20 then None
      else map_option (apfst (Cons c)) (json_scan r))"

lemma json_enc_cases:
  obtains (rep) r where "json_rep c = Some r" "json_enc c = r"
  | (plain) "json_rep c = None" "json_enc c = [c]" "32 \<le> (of_char c :: nat)" "c \<noteq> CHR 0x22" "c \<noteq> CHR 0x5C"
  by (cases "json_rep c") (auto simp: json_enc_def json_rep_def not_less split: if_splits)

lemma json_scan_enc: "json_scan (json_enc c @ r) = map_option (apfst (Cons c)) (json_scan r)"
proof -
  let ?n = "of_char c :: nat"
  consider "c \<in> {CHR 0x22, CHR 0x5C, CHR 0x0A, CHR 0x0D, CHR 0x09}"
    | "c \<notin> {CHR 0x22, CHR 0x5C, CHR 0x0A, CHR 0x0D, CHR 0x09}" "?n < 32"
    | "c \<notin> {CHR 0x22, CHR 0x5C}" "\<not> ?n < 32" by auto
  then show ?thesis
  proof cases
    case 1
    then show ?thesis by (auto simp: json_enc_def json_rep_def)
  next
    case 2
    then have "json_enc c = [CHR 0x5C, CHR ''u'', CHR ''0'', CHR ''0''] @ hex2 ?n"
      by (simp add: json_enc_def json_rep_def)
    moreover have "unhexd (hexd (?n div 16)) = Some (?n div 16)" "unhexd (hexd (?n mod 16)) = Some (?n mod 16)"
      using 2 by (simp_all add: unhexd_hexd)
    moreover have "char_of (16 * (?n div 16) + ?n mod 16) = c" by simp
    ultimately show ?thesis by (cases "json_scan r") (auto simp: hex2_def)
  next
    case 3
    then have "json_enc c = [c]" by (auto simp: json_enc_def json_rep_def)
    with 3 show ?thesis by simp
  qed
qed

lemma json_scan_encs:
  "json_scan (concat (map json_enc s) @ CHR 0x22 # r) = Some (s, r)"
  by (induction s) (simp_all add: json_scan_enc)

lemma hexd_not_NUL: "n < 16 \<Longrightarrow> hexd n \<noteq> NUL \<and> NUL \<noteq> hexd n"
  by (drule less_16_cases) (auto simp: hexd_def)

lemma json_enc_not_NUL: "c \<noteq> NUL \<Longrightarrow> NUL \<notin> set (json_enc c)"
  by (auto simp: json_enc_def json_rep_def hex2_def hexd_not_NUL)

lemma json_encs_not_NUL: "NUL \<notin> set s \<Longrightarrow> NUL \<notin> set (concat (map json_enc s))"
  by (induction s) (auto simp: json_enc_not_NUL)

lemma json_enc_nonempty: "0 < length (json_enc c)"
  by (auto simp: json_enc_def json_rep_def hex2_def)

lemma json_loop_Cons:
  "json_loop (c # cs) p dst =
     (if c = NUL then do { dst \<leftarrow> store_bytes dst p [NUL]; Some (0, dst) }
      else if p + length (json_enc c) + 1 \<ge> length dst
      then do { dst \<leftarrow> store_bytes dst p [NUL]; Some (-1, dst) }
      else store_bytes dst p (json_enc c) \<bind> json_loop cs (p + length (json_enc c)))"
  by (cases c rule: json_enc_cases) (auto simp: Let_def)

text \<open>
  The loop invariant: what has been written so far is the escaped text of the characters read,
  and one byte is always left for the terminator.
\<close>

lemma json_loop_spec:
  assumes "length pre < length dst" "take (length pre) dst = pre"
  shows "\<exists>m rc rest. json_loop cs (length pre) dst =
      Some (rc, pre @ concat (map json_enc (take m (cstr cs))) @ NUL # rest) \<and>
    length (pre @ concat (map json_enc (take m (cstr cs))) @ NUL # rest) = length dst \<and>
    rc = (if cstr cs = [] \<or> length pre + length (concat (map json_enc (cstr cs))) + 1 < length dst
          then 0 else -1) \<and>
    (if rc = 0 then m = length (cstr cs) else m < length (cstr cs))"
  using assms
proof (induction cs arbitrary: pre dst)
  case Nil
  then show ?case
    by (auto simp: store_bytes_def splice_at_def cstr_def)
next
  case (Cons c cs)
  let ?e = "json_enc c"
  have stop: "store_bytes dst (length pre) [NUL] = Some (pre @ NUL # drop (length pre + 1) dst)"
    using Cons.prems by (simp add: store_bytes_def splice_at_def)
  consider "c = NUL" | "c \<noteq> NUL" "length pre + length ?e + 1 \<ge> length dst"
    | "c \<noteq> NUL" "length pre + length ?e + 1 < length dst" by linarith
  then show ?case
  proof cases
    case 1
    then show ?thesis using stop Cons.prems
      by (auto simp: cstr_def)
  next
    case 2
    then show ?thesis using stop Cons.prems
      by (intro exI [of _ 0] exI [of _ "-1"] exI [of _ "drop (length pre + 1) dst"])
        (auto simp: json_loop_Cons cstr_def simp del: json_loop.simps)
  next
    case 3
    let ?d = "splice_at dst (length pre) ?e"
    have st: "store_bytes dst (length pre) ?e = Some ?d" using 3 by (simp add: store_bytes_def)
    have "length (pre @ ?e) < length ?d" "take (length (pre @ ?e)) ?d = pre @ ?e"
      using 3 Cons.prems by (simp_all add: splice_at_def)
    from Cons.IH [OF this] obtain m rc rest where ih:
      "json_loop cs (length (pre @ ?e)) ?d =
         Some (rc, (pre @ ?e) @ concat (map json_enc (take m (cstr cs))) @ NUL # rest)"
      "length ((pre @ ?e) @ concat (map json_enc (take m (cstr cs))) @ NUL # rest) = length ?d"
      "rc = (if cstr cs = [] \<or> length (pre @ ?e) + length (concat (map json_enc (cstr cs))) + 1 < length ?d
          then 0 else -1)"
      "if rc = 0 then m = length (cstr cs) else m < length (cstr cs)" by blast
    have cs: "cstr (c # cs) = c # cstr cs" using 3 by (simp add: cstr_def)
    show ?thesis
      using ih 3 st by (intro exI [of _ "Suc m"] exI [of _ rc] exI [of _ rest])
        (auto simp: json_loop_Cons cs simp del: json_loop.simps split: if_splits)
  qed
qed

lemma json_escape_spec:
  assumes "dst \<noteq> []" "s = (case src of None \<Rightarrow> '''' | Some s \<Rightarrow> cstr s)"
  obtains m rc d where "at_json_escape src dst = Some (rc, d)" "length d = length dst"
    "cstr d = concat (map json_enc (take m s))"
    "rc = (if s = [] \<or> length (concat (map json_enc s)) + 1 < length dst then 0 else -1)"
    "if rc = 0 then m = length s else m < length s"
proof -
  define cs where "cs = (case src of None \<Rightarrow> '''' | Some s \<Rightarrow> s)"
  have s: "cstr cs = s" using assms(2) by (cases src) (auto simp: cs_def cstr_def)
  from assms(1) have "length ([] :: string) < length dst" by simp
  from json_loop_spec [OF this, of cs, unfolded s] obtain m rc rest where l:
    "json_loop cs 0 dst = Some (rc, concat (map json_enc (take m s)) @ NUL # rest)"
    "length (concat (map json_enc (take m s)) @ NUL # rest) = length dst"
    "rc = (if s = [] \<or> length (concat (map json_enc s)) + 1 < length dst then 0 else -1)"
    "if rc = 0 then m = length s else m < length s" by auto
  have "NUL \<notin> set (take m s)" using s by (auto simp: cstr_def dest: set_takeWhileD in_set_takeD)
  then have "NUL \<notin> set (concat (map json_enc (take m s)))" by (rule json_encs_not_NUL)
  then have c: "cstr (concat (map json_enc (take m s)) @ NUL # rest) = concat (map json_enc (take m s))"
    by (rule cstr_append_NUL)
  have "at_json_escape src dst = json_loop cs 0 dst"
    using assms(1) by (simp add: at_json_escape_def cs_def)
  from that [OF trans [OF this l(1)] l(2) c l(3,4)] show ?thesis .
qed

text \<open>
  C28: \<open>at_json_escape\<close> stays inside \<open>dst\<close> for every source string and every size, always leaves a
  terminated string, and that string, placed between quotes, is read back by a JSON reader as
  a prefix of the source, ending at the emitter's own closing quote: no byte of a device name
  or an error text can break out of its JSON string. When it returns 0, the whole source is
  read back.
\<close>

theorem json_escape_roundtrip:
  assumes "dst \<noteq> []"
  shows "\<exists>rc d m. at_json_escape (Some s) dst = Some (rc, d) \<and> length d = length dst \<and>
    json_scan (cstr d @ CHR 0x22 # rest) = Some (take m (cstr s), rest) \<and>
    (if rc = 0 then m = length (cstr s) else rc = -1 \<and> m < length (cstr s))"
  using assms
  by (rule json_escape_spec [of dst "cstr s" "Some s"]) (auto simp: json_scan_encs split: if_splits)

theorem json_escape_roundtrip_witness:
  "\<exists>rc d m. at_json_escape (Some ''a\"b'') (replicate 8 (CHR ''?'')) = Some (rc, d) \<and>
     json_scan (cstr d @ [CHR 0x22, CHR ''}'']) = Some (take m (cstr ''a\"b''), ''}'')"
  using json_escape_roundtrip [of "replicate 8 (CHR ''?'')" "''a\"b''" "''}''"] by auto

text \<open>
  The exact condition for success, and the slack in it: the routine reports truncation
  although the escaped text and its terminator would fill \<open>dst\<close> exactly, so a buffer must be one
  byte larger than the contract "0 if the whole string fit" asks for.
\<close>

theorem json_escape_needs_slack:
  assumes "at_json_escape (Some s) dst = Some (rc, d)" "cstr s \<noteq> []"
    and "length dst = length (concat (map json_enc (cstr s))) + 1"
  shows "rc = -1"
proof -
  have "dst \<noteq> []" using assms(3) by auto
  then show ?thesis
    by (rule json_escape_spec [of dst "cstr s" "Some s"]) (use assms in \<open>auto split: if_splits\<close>)
qed

theorem json_escape_needs_slack_witness:
  "at_json_escape (Some ''a'') [CHR ''?'', CHR ''?''] = Some (-1, [NUL, CHR ''?''])
   \<and> length [CHR ''?'', CHR ''?''] = length (concat (map json_enc (cstr ''a''))) + 1"
proof -
  have e: "at_json_escape (Some ''a'') [CHR ''?'', CHR ''?''] = Some (-1, [NUL, CHR ''?''])"
    by (simp add: at_json_escape_def json_rep_def store_bytes_def)
  have l: "length [CHR ''?'', CHR ''?''] = length (concat (map json_enc (cstr ''a''))) + 1"
    by (simp add: json_enc_def json_rep_def cstr_def)
  have "(-1::int) = -1" by (rule json_escape_needs_slack [OF e _ l]) (simp add: cstr_def)
  with e l show ?thesis by simp
qed

end
