(* ===== verification/Interfaces.thy ===== *)
theory Interfaces
  imports Prelude
begin

text \<open>
  The contracts the components of the engine rely on, as locales. Each is interpreted on the
  model's own definitions in the theory of the component that provides it.
\<close>

section \<open>Packets on a byte stream\<close>

text \<open>
  A framing: \<open>wrap\<close> makes the bytes of one message, \<open>unwrap\<close> reads a whole transfer, and \<open>view\<close>
  is what the receiver sees of a message. The provider shows that one wrapped message at the
  front of a transfer is read as itself; the client gets the batch laws.
\<close>

locale packet_stream =
  fixes wrap :: "'a \<Rightarrow> 'w list"
    and unwrap :: "'w list \<Rightarrow> 'b list option"
    and view :: "'a \<Rightarrow> 'b"
    and ok :: "'a \<Rightarrow> bool"
  assumes unwrap_Nil: "unwrap [] = Some []"
    and unwrap_wrap: "ok a \<Longrightarrow> unwrap (wrap a @ rest) = map_option (Cons (view a)) (unwrap rest)"
begin

lemma batch_rest:
  "list_all ok as \<Longrightarrow> unwrap (concat (map wrap as) @ rest) = map_option (append (map view as)) (unwrap rest)"
  by (induction as) (cases "unwrap rest"; simp add: unwrap_wrap)+

lemma batch: "list_all ok as \<Longrightarrow> unwrap (concat (map wrap as)) = Some (map view as)"
  using batch_rest [of as "[]"] by (simp add: unwrap_Nil)

lemma unambiguous:
  "list_all ok as \<Longrightarrow> list_all ok bs \<Longrightarrow> concat (map wrap as) = concat (map wrap bs) \<Longrightarrow>
   map view as = map view bs"
  using batch [of as] batch [of bs] by simp

end

section \<open>A bounded first-in first-out queue\<close>

text \<open>
  What the transmit path relies on: below the capacity \<open>put\<close> appends one message, \<open>get\<close> removes
  the oldest, and both keep the representation invariant.
\<close>

locale bounded_fifo =
  fixes inv :: "'s \<Rightarrow> bool"
    and contents :: "'s \<Rightarrow> 'm list"
    and cap :: nat
    and fits :: "'m \<Rightarrow> bool"
    and put :: "'m \<Rightarrow> 's \<Rightarrow> 's"
    and get :: "'s \<Rightarrow> 's"
  assumes bounded: "inv s \<Longrightarrow> length (contents s) \<le> cap"
    and put: "inv s \<Longrightarrow> fits m \<Longrightarrow> length (contents s) < cap \<Longrightarrow>
      inv (put m s) \<and> contents (put m s) = contents s @ [m]"
    and get: "inv s \<Longrightarrow> contents s \<noteq> [] \<Longrightarrow> inv (get s) \<and> contents (get s) = tl (contents s)"
begin

lemma puts:
  "inv s \<Longrightarrow> list_all fits ms \<Longrightarrow> length (contents s) + length ms \<le> cap \<Longrightarrow>
   inv (fold put ms s) \<and> contents (fold put ms s) = contents s @ ms"
  by (induction ms arbitrary: s) (simp_all add: put)

lemma gets:
  "inv s \<Longrightarrow> k \<le> length (contents s) \<Longrightarrow>
   inv ((get ^^ k) s) \<and> contents ((get ^^ k) s) = drop k (contents s)"
proof (induction k)
  case (Suc k)
  then have IH: "inv ((get ^^ k) s)" "contents ((get ^^ k) s) = drop k (contents s)" by simp_all
  have "drop k (contents s) \<noteq> []" using Suc.prems(2) by simp
  then show ?case using get [OF IH(1)] IH(2) by (simp add: drop_Suc tl_drop)
qed simp

lemma head_kept:
  "inv s \<Longrightarrow> fits m \<Longrightarrow> length (contents s) < cap \<Longrightarrow> contents s \<noteq> [] \<Longrightarrow>
   hd (contents (put m s)) = hd (contents s)"
  by (simp add: put)

end

section \<open>A client that obtains addresses\<close>

text \<open>
  What the engine relies on when it feeds frames to the client and polls it for frames to send:
  both return, whatever the frame and the clock, keep the client's invariant, and a poll writes a
  frame of at most the size of the buffer it was given.
\<close>

locale lease_client =
  fixes inv :: "'s \<Rightarrow> bool"
    and poll :: "'t \<Rightarrow> 'v \<Rightarrow> 's \<Rightarrow> 'b list \<Rightarrow> (nat \<times> 's \<times> 'b list) option"
    and feed :: "'t \<Rightarrow> 's \<Rightarrow> 'b list \<Rightarrow> (int \<times> 's) option"
  assumes poll: "inv s \<Longrightarrow> \<exists>n s' b'. poll t v s b = Some (n, s', b') \<and> inv s' \<and> n \<le> length b' \<and> length b' = length b"
    and feed: "inv s \<Longrightarrow> \<exists>r s'. feed t s f = Some (r, s') \<and> inv s'"
begin

lemma pollE:
  assumes "inv s"
  obtains n s' b' where "poll t v s b = Some (n, s', b')" "inv s'" "n \<le> length b'" "length b' = length b"
  using poll [OF assms] by blast

lemma feedE:
  assumes "inv s"
  obtains r s' where "feed t s f = Some (r, s')" "inv s'"
  using feed [OF assms] by blast

end

end
