(* ===== verification/Rndis.thy ===== *)
theory Rndis
  imports Interfaces
begin

text \<open>
  The RNDIS framing of \<open>engine/src/rndis.c\<close>: message builders, completion parsers, the
  Ethernet wrapper and the bulk-IN walker. The callback of the walker is modelled by the list
  of frames it is called with, in order; a builder returns the size and the buffer; a parser
  returns the code's return value and what it stored through its out-pointers. Everything that
  arrives from the device is untrusted, so no parser has a precondition.
\<close>

unbundle bit_operations_syntax

section \<open>Constants\<close>

abbreviation (input) RNDIS_MSG_PACKET :: u32 where "RNDIS_MSG_PACKET \<equiv> 1"
abbreviation (input) RNDIS_MSG_INITIALIZE :: u32 where "RNDIS_MSG_INITIALIZE \<equiv> 2"
abbreviation (input) RNDIS_MSG_HALT :: u32 where "RNDIS_MSG_HALT \<equiv> 3"
abbreviation (input) RNDIS_MSG_QUERY :: u32 where "RNDIS_MSG_QUERY \<equiv> 4"
abbreviation (input) RNDIS_MSG_SET :: u32 where "RNDIS_MSG_SET \<equiv> 5"
abbreviation (input) RNDIS_MSG_INDICATE_STATUS :: u32 where "RNDIS_MSG_INDICATE_STATUS \<equiv> 7"
abbreviation (input) RNDIS_MSG_KEEPALIVE :: u32 where "RNDIS_MSG_KEEPALIVE \<equiv> 8"
abbreviation (input) RNDIS_MSG_INITIALIZE_CMPLT :: u32 where "RNDIS_MSG_INITIALIZE_CMPLT \<equiv> 0x80000002"
abbreviation (input) RNDIS_MSG_QUERY_CMPLT :: u32 where "RNDIS_MSG_QUERY_CMPLT \<equiv> 0x80000004"
abbreviation (input) RNDIS_MSG_SET_CMPLT :: u32 where "RNDIS_MSG_SET_CMPLT \<equiv> 0x80000005"
abbreviation (input) RNDIS_MSG_KEEPALIVE_CMPLT :: u32 where "RNDIS_MSG_KEEPALIVE_CMPLT \<equiv> 0x80000008"
abbreviation (input) RNDIS_STATUS_SUCCESS :: u32 where "RNDIS_STATUS_SUCCESS \<equiv> 0"
abbreviation (input) RNDIS_PACKET_HDR_LEN :: nat where "RNDIS_PACKET_HDR_LEN \<equiv> 44"
abbreviation (input) RNDIS_OFFSET_BASE :: nat where "RNDIS_OFFSET_BASE \<equiv> 8"
abbreviation (input) AT_ETH_MIN :: nat where "AT_ETH_MIN \<equiv> 60"
abbreviation (input) AT_ETH_MAX :: nat where "AT_ETH_MAX \<equiv> 1518"

definition at_wr32le :: "buf \<Rightarrow> nat \<Rightarrow> u32 \<Rightarrow> buf option" where
  "at_wr32le b p v = store_bytes b p (bytes32 v)"

section \<open>Builders\<close>

definition rndis_build_initialize :: "buf \<Rightarrow> u32 \<Rightarrow> u32 \<Rightarrow> (nat \<times> buf) option" where
  "rndis_build_initialize b request_id max_xfer =
     (if length b < 24 then Some (0, b) else do {
        b \<leftarrow> store_bytes b 0 (replicate 24 0);
        b \<leftarrow> at_wr32le b 0 RNDIS_MSG_INITIALIZE;
        b \<leftarrow> at_wr32le b 4 24;
        b \<leftarrow> at_wr32le b 8 request_id;
        b \<leftarrow> at_wr32le b 12 1;
        b \<leftarrow> at_wr32le b 16 0;
        b \<leftarrow> at_wr32le b 20 max_xfer;
        Some (24, b) })"

definition rndis_build_halt :: "buf \<Rightarrow> u32 \<Rightarrow> (nat \<times> buf) option" where
  "rndis_build_halt b request_id =
     (if length b < 12 then Some (0, b) else do {
        b \<leftarrow> store_bytes b 0 (replicate 12 0);
        b \<leftarrow> at_wr32le b 0 RNDIS_MSG_HALT;
        b \<leftarrow> at_wr32le b 4 12;
        b \<leftarrow> at_wr32le b 8 request_id;
        Some (12, b) })"

definition rndis_build_keepalive :: "buf \<Rightarrow> u32 \<Rightarrow> (nat \<times> buf) option" where
  "rndis_build_keepalive b request_id =
     (if length b < 16 then Some (0, b) else do {
        b \<leftarrow> store_bytes b 0 (replicate 16 0);
        b \<leftarrow> at_wr32le b 0 RNDIS_MSG_KEEPALIVE;
        b \<leftarrow> at_wr32le b 4 16;
        b \<leftarrow> at_wr32le b 8 request_id;
        Some (16, b) })"

definition rndis_build_keepalive_cmplt :: "buf \<Rightarrow> u32 \<Rightarrow> (nat \<times> buf) option" where
  "rndis_build_keepalive_cmplt b request_id =
     (if length b < 16 then Some (0, b) else do {
        b \<leftarrow> store_bytes b 0 (replicate 16 0);
        b \<leftarrow> at_wr32le b 0 RNDIS_MSG_KEEPALIVE_CMPLT;
        b \<leftarrow> at_wr32le b 4 16;
        b \<leftarrow> at_wr32le b 8 request_id;
        b \<leftarrow> at_wr32le b 12 RNDIS_STATUS_SUCCESS;
        Some (16, b) })"

text \<open>
  \<open>size_t total = 28 + in_len\<close> is computed in 32 bits (\<open>int\<close> plus \<open>uint32_t\<close>) before it is
  widened, so it wraps. The input pointer of a query may be NULL.
\<close>

definition rndis_build_query ::
  "buf \<Rightarrow> u32 \<Rightarrow> u32 \<Rightarrow> buf option \<Rightarrow> u32 \<Rightarrow> (nat \<times> buf) option" where
  "rndis_build_query b request_id oid inp in_len =
     (let total = unat (28 + in_len) in
      if length b < total then Some (0, b) else do {
        b \<leftarrow> store_bytes b 0 (replicate total 0);
        b \<leftarrow> at_wr32le b 0 RNDIS_MSG_QUERY;
        b \<leftarrow> at_wr32le b 4 (of_nat total);
        b \<leftarrow> at_wr32le b 8 request_id;
        b \<leftarrow> at_wr32le b 12 oid;
        b \<leftarrow> at_wr32le b 16 in_len;
        b \<leftarrow> at_wr32le b 20 (if in_len \<noteq> 0 then 20 else 0);
        b \<leftarrow> at_wr32le b 24 0;
        b \<leftarrow> (case inp of
               Some x \<Rightarrow> (if in_len \<noteq> 0
                  then do { d \<leftarrow> load_bytes x 0 (unat in_len); store_bytes b 28 d } else Some b)
             | None \<Rightarrow> Some b);
        Some (total, b) })"

definition rndis_build_set ::
  "buf \<Rightarrow> u32 \<Rightarrow> u32 \<Rightarrow> buf \<Rightarrow> u32 \<Rightarrow> (nat \<times> buf) option" where
  "rndis_build_set b request_id oid val value_len =
     (let total = unat (28 + value_len) in
      if length b < total then Some (0, b) else do {
        b \<leftarrow> store_bytes b 0 (replicate total 0);
        b \<leftarrow> at_wr32le b 0 RNDIS_MSG_SET;
        b \<leftarrow> at_wr32le b 4 (of_nat total);
        b \<leftarrow> at_wr32le b 8 request_id;
        b \<leftarrow> at_wr32le b 12 oid;
        b \<leftarrow> at_wr32le b 16 value_len;
        b \<leftarrow> at_wr32le b 20 20;
        b \<leftarrow> at_wr32le b 24 0;
        d \<leftarrow> load_bytes val 0 (unat value_len);
        b \<leftarrow> store_bytes b 28 d;
        Some (total, b) })"

text \<open>\<open>PacketAlignmentFactor\<close> is a shift; the source clamps it to 2..8 (4 to 256 bytes).\<close>

definition align_pow2 :: "u64 \<Rightarrow> u32 \<Rightarrow> u64" where
  "align_pow2 n shift =
     (let shift = (if shift < 2 then 2 else shift);
          shift = (if shift > 8 then 8 else shift);
          a = push_bit (unat shift) 1
      in (n + a - 1) AND NOT (a - 1))"

definition rndis_wrap_ethernet_aligned :: "buf \<Rightarrow> buf \<Rightarrow> u32 \<Rightarrow> (nat \<times> buf) option" where
  "rndis_wrap_ethernet_aligned out eth align_shift =
     (if length eth = 0 then Some (0, out) else
      let payload = (if length eth < AT_ETH_MIN then AT_ETH_MIN else length eth);
          total = unat (align_pow2 (of_nat (RNDIS_PACKET_HDR_LEN + payload)) align_shift) in
      if length out < total then Some (0, out) else do {
        out \<leftarrow> store_bytes out 0 (replicate total 0);
        out \<leftarrow> at_wr32le out 0 RNDIS_MSG_PACKET;
        out \<leftarrow> at_wr32le out 4 (of_nat total);
        out \<leftarrow> at_wr32le out 8 36;
        out \<leftarrow> at_wr32le out 12 (of_nat payload);
        out \<leftarrow> store_bytes out RNDIS_PACKET_HDR_LEN eth;
        Some (total, out) })"

definition rndis_wrap_ethernet :: "buf \<Rightarrow> buf \<Rightarrow> (nat \<times> buf) option" where
  "rndis_wrap_ethernet out eth = rndis_wrap_ethernet_aligned out eth 2"

section \<open>Parsers of control completions\<close>

record rndis_init_result =
  max_transfer_size :: u32
  max_packets_per_xfer :: u32
  packet_alignment :: u32
  device_flags :: u32
  medium :: u32

text \<open>The return value and, when the header is the awaited one, the status the code stores.\<close>

definition check_cmplt_header :: "buf \<Rightarrow> u32 \<Rightarrow> u32 \<Rightarrow> (int \<times> u32 option) option" where
  "check_cmplt_header b expect_type expect_id =
     (if length b < 16 then Some (-1, None) else do {
        type \<leftarrow> load32 b 0; msglen \<leftarrow> load32 b 4; rid \<leftarrow> load32 b 8; status \<leftarrow> load32 b 12;
        Some (if type \<noteq> expect_type then (-2, None)
              else if unat msglen > length b then (-3, None)
              else if rid \<noteq> expect_id then (-4, None)
              else if status \<noteq> RNDIS_STATUS_SUCCESS then (-5, Some status)
              else (0, Some status)) })"

definition rndis_parse_initialize_cmplt ::
  "buf \<Rightarrow> u32 \<Rightarrow> rndis_init_result \<Rightarrow> (int \<times> rndis_init_result) option" where
  "rndis_parse_initialize_cmplt b expect_id out = do {
     (rc, _) \<leftarrow> check_cmplt_header b RNDIS_MSG_INITIALIZE_CMPLT expect_id;
     (if rc \<noteq> 0 then Some (rc, out)
      else if length b < 52 then Some (-6, out)
      else do {
        flags \<leftarrow> load32 b 24; med \<leftarrow> load32 b 28; pkts \<leftarrow> load32 b 32;
        xfer \<leftarrow> load32 b 36; al \<leftarrow> load32 b 40;
        Some (0, \<lparr>max_transfer_size = xfer, max_packets_per_xfer = pkts,
                  packet_alignment = al, device_flags = flags, medium = med\<rparr>) }) }"

definition rndis_parse_set_cmplt :: "buf \<Rightarrow> u32 \<Rightarrow> int option" where
  "rndis_parse_set_cmplt b expect_id = map_option fst (check_cmplt_header b RNDIS_MSG_SET_CMPLT expect_id)"

text \<open>\<open>*info\<close> points into the buffer: it is modelled by its offset and length.\<close>

definition rndis_parse_query_cmplt :: "buf \<Rightarrow> u32 \<Rightarrow> (int \<times> (nat \<times> nat) option) option" where
  "rndis_parse_query_cmplt b expect_id = do {
     (rc, _) \<leftarrow> check_cmplt_header b RNDIS_MSG_QUERY_CMPLT expect_id;
     (if rc \<noteq> 0 then Some (rc, None)
      else if length b < 24 then Some (-6, None)
      else do {
        ilen \<leftarrow> load32 b 16; ioff \<leftarrow> load32 b 20;
        (let start = RNDIS_OFFSET_BASE + unat ioff in
         if start + unat ilen > length b then Some (-7, None)
         else Some (0, Some (start, unat ilen))) }) }"

definition rndis_parse_status :: "buf \<Rightarrow> (int \<times> u32 option) option" where
  "rndis_parse_status b =
     (if length b < 16 then Some (-1, None) else do {
        t \<leftarrow> load32 b 0;
        (if t \<noteq> RNDIS_MSG_INDICATE_STATUS then Some (-2, None)
         else do { st \<leftarrow> load32 b 12; Some (0, Some st) }) })"

section \<open>The bulk-IN walker\<close>

text \<open>Frame length of the Ethernet frame at \<open>i\<close>, from its own headers (0 when unknown).\<close>

definition eth_flen :: "buf \<Rightarrow> nat \<Rightarrow> nat option" where
  "eth_flen p i = do {
     e0 \<leftarrow> load8 p (i + 12); e1 \<leftarrow> load8 p (i + 13);
     (let et = be16 e0 e1 in
      if et = 0x0800 \<and> i + 14 + 20 \<le> length p then do {
        b \<leftarrow> load8 p (i + 14); l0 \<leftarrow> load8 p (i + 16); l1 \<leftarrow> load8 p (i + 17);
        (let ihl = unat (b AND 0x0f) * 4; iplen = unat (be16 l0 l1) in
         Some (if ihl \<ge> 20 \<and> iplen \<ge> ihl then 14 + iplen else 0)) }
      else if et = 0x0806 then Some 42
      else if et = 0x86DD \<and> i + 14 + 40 \<le> length p then do {
        l0 \<leftarrow> load8 p (i + 18); l1 \<leftarrow> load8 p (i + 19);
        Some (14 + 40 + unat (be16 l0 l1)) }
      else Some 0) }"

function emit_loop :: "buf \<Rightarrow> nat \<Rightarrow> nat \<Rightarrow> buf list \<Rightarrow> (nat \<times> buf list) option" where
  "emit_loop p i frames calls =
     (if i + 14 \<le> length p then
        do { flen \<leftarrow> eth_flen p i;
             (if flen < 14 \<or> i + flen > length p then
                do { f \<leftarrow> load_bytes p i (length p - i); Some (frames + 1, calls @ [f]) }
              else
                do { f \<leftarrow> load_bytes p i flen;
                     emit_loop p (i + flen) (frames + 1) (calls @ [f]) }) }
      else Some (frames, calls))"
  by pat_completeness auto
termination
  by (relation "measure (\<lambda>(p, i, _, _). length p - i)") auto

declare emit_loop.simps [simp del]

definition emit_eth_payload :: "buf \<Rightarrow> (nat \<times> buf list) option" where
  "emit_eth_payload p =
     (if length p < 14 then Some (0, [])
      else if length p \<le> AT_ETH_MAX then Some (1, [p])
      else emit_loop p 0 0 [])"

text \<open>\<open>looks_like_rndis_packet\<close>: \<open>Some (Some (data_off, data_len))\<close> for 1.\<close>

definition looks_like_rndis_packet :: "buf \<Rightarrow> nat \<Rightarrow> (u32 \<times> u32) option option" where
  "looks_like_rndis_packet b s =
     (if s + RNDIS_PACKET_HDR_LEN > length b then Some None else do {
        t \<leftarrow> load32 b s;
        (if t \<noteq> RNDIS_MSG_PACKET then Some None else do {
           data_off \<leftarrow> load32 b (s + 8);
           data_len \<leftarrow> load32 b (s + 12);
           Some (if data_off \<noteq> 36 then None
                 else if data_len < 14 \<or> data_len > 4096 then None
                 else if s + RNDIS_OFFSET_BASE + unat data_off + unat data_len > length b then None
                 else Some (data_off, data_len)) }) })"

function find_packet :: "buf \<Rightarrow> nat \<Rightarrow> (nat \<times> u32 \<times> u32) option option" where
  "find_packet b s =
     (if s + RNDIS_PACKET_HDR_LEN \<le> length b then
        do { r \<leftarrow> looks_like_rndis_packet b s;
             (case r of Some (data_off, data_len) \<Rightarrow> Some (Some (s, data_off, data_len))
              | None \<Rightarrow> find_packet b (s + 1)) }
      else Some None)"
  by pat_completeness auto
termination
  by (relation "measure (\<lambda>(b, s). length b - s)") auto

declare find_packet.simps [simp del]

function unwrap_loop :: "buf \<Rightarrow> nat \<Rightarrow> nat \<Rightarrow> buf list \<Rightarrow> (nat \<times> buf list) option" where
  "unwrap_loop b off frames calls =
     (if off + RNDIS_PACKET_HDR_LEN \<le> length b then
        do { r \<leftarrow> find_packet b off;
             (case r of None \<Rightarrow> Some (frames, calls)
              | Some (found, data_off, data_len) \<Rightarrow>
                  (let payload_at = found + RNDIS_OFFSET_BASE + unat data_off;
                       next1 = payload_at + unat data_len in
                   do { p \<leftarrow> load_bytes b payload_at (unat data_len);
                        (n, fs) \<leftarrow> emit_eth_payload p;
                        (if next1 \<le> off then Some (frames + n, calls @ fs)
                         else unwrap_loop b next1 (frames + n) (calls @ fs)) })) }
      else Some (frames, calls))"
  by pat_completeness auto
termination
  by (relation "measure (\<lambda>(b, off, _, _). length b - off)") auto

declare unwrap_loop.simps [simp del]

definition rndis_unwrap_bulk_aligned :: "buf \<Rightarrow> u32 \<Rightarrow> (nat \<times> buf list) option" where
  "rndis_unwrap_bulk_aligned b align_shift = unwrap_loop b 0 0 []"

definition rndis_unwrap_bulk :: "buf \<Rightarrow> (nat \<times> buf list) option" where
  "rndis_unwrap_bulk b = rndis_unwrap_bulk_aligned b 2"

section \<open>Reference walker\<close>

text \<open>
  What the walker computes, as plain list recursion: \<open>packet_len\<close> recognises a PACKET header at
  the front of a buffer, \<open>walk\<close> drops one byte until there is one, and \<open>split_frames\<close> cuts an
  oversized payload along the lengths its own Ethernet headers give.
\<close>

definition packet_len :: "buf \<Rightarrow> nat option" where
  "packet_len b =
     (if 44 \<le> length b \<and> word_at b 0 = RNDIS_MSG_PACKET \<and> word_at b 8 = 36 \<and>
         14 \<le> unat (word_at b 12) \<and> unat (word_at b 12) \<le> 4096 \<and>
         44 + unat (word_at b 12) \<le> length b
      then Some (unat (word_at b 12)) else None)"

definition frame_len :: "buf \<Rightarrow> nat" where
  "frame_len p =
     (let et = be16 (p ! 12) (p ! 13) in
      if et = 0x0800 \<and> 34 \<le> length p then
        (let ihl = 4 * unat (p ! 14 AND 0x0f); ip = unat (be16 (p ! 16) (p ! 17)) in
         if 20 \<le> ihl \<and> ihl \<le> ip then 14 + ip else 0)
      else if et = 0x0806 then 42
      else if et = 0x86DD \<and> 54 \<le> length p then 54 + unat (be16 (p ! 18) (p ! 19))
      else 0)"

function split_frames :: "buf \<Rightarrow> buf list" where
  "split_frames p =
     (if length p < 14 then []
      else let n = frame_len p in
        if n < 14 \<or> length p < n then [p] else take n p # split_frames (drop n p))"
  by pat_completeness auto
termination
  by (relation "measure length") auto

declare split_frames.simps [simp del]

definition payload_frames :: "buf \<Rightarrow> buf list" where
  "payload_frames p =
     (if length p < 14 then [] else if length p \<le> AT_ETH_MAX then [p] else split_frames p)"

function walk :: "buf \<Rightarrow> buf list" where
  "walk b =
     (if length b < RNDIS_PACKET_HDR_LEN then []
      else case packet_len b of
        Some n \<Rightarrow> payload_frames (take n (drop 44 b)) @ walk (drop (44 + n) b)
      | None \<Rightarrow> walk (tl b))"
  by pat_completeness auto
termination
  by (relation "measure length") auto

declare walk.simps [simp del]

lemma packet_len_Some:
  "packet_len b = Some n \<Longrightarrow> 14 \<le> n \<and> n \<le> 4096 \<and> 44 + n \<le> length b"
  by (auto simp: packet_len_def split: if_splits)

lemma eth_flen_eq:
  "i + 14 \<le> length p \<Longrightarrow> eth_flen p i = Some (frame_len (drop i p))"
  by (auto simp: eth_flen_def frame_len_def buf_simps Let_def nth_drop algebra_simps)

lemma split_frames_short: "length p < 14 \<Longrightarrow> split_frames p = []"
  by (subst split_frames.simps) simp

lemma split_frames_rest:
  "14 \<le> length p \<Longrightarrow> frame_len p < 14 \<or> length p < frame_len p \<Longrightarrow> split_frames p = [p]"
  by (subst split_frames.simps) (auto simp: Let_def)

lemma split_frames_step:
  "14 \<le> frame_len p \<Longrightarrow> frame_len p \<le> length p \<Longrightarrow>
   split_frames p = take (frame_len p) p # split_frames (drop (frame_len p) p)"
  by (subst split_frames.simps) (simp add: Let_def)

lemma emit_loop_eq:
  "i \<le> length p \<Longrightarrow>
   emit_loop p i frames calls = Some (frames + length (split_frames (drop i p)), calls @ split_frames (drop i p))"
proof (induction p i frames calls rule: emit_loop.induct)
  case (1 p i frames calls)
  let ?n = "frame_len (drop i p)"
  consider (short) "length p < i + 14" | (rest) "i + 14 \<le> length p" "?n < 14 \<or> length p < i + ?n"
    | (step) "i + 14 \<le> length p" "14 \<le> ?n" "i + ?n \<le> length p" by linarith
  then show ?case
  proof cases
    case short
    then show ?thesis by (subst emit_loop.simps) (simp add: split_frames_short)
  next
    case rest
    then have "split_frames (drop i p) = [drop i p]" by (intro split_frames_rest) auto
    with rest show ?thesis by (subst emit_loop.simps) (auto simp: load_bytes_def eth_flen_eq)
  next
    case step
    then have "split_frames (drop i p) = take ?n (drop i p) # split_frames (drop (i + ?n) p)"
      using split_frames_step [of "drop i p"] by (simp add: add.commute)
    moreover have "\<not> (?n < 14 \<or> i + ?n > length p)" using step by auto
    from "1.IH" [OF step(1) eth_flen_eq [OF step(1)] this load_bytes_Some [OF step(3)] step(3)]
    have "emit_loop p (i + ?n) (frames + 1) (calls @ [take ?n (drop i p)]) = Some
      (frames + 1 + length (split_frames (drop (i + ?n) p)),
       (calls @ [take ?n (drop i p)]) @ split_frames (drop (i + ?n) p))" .
    ultimately show ?thesis using step
      by (subst emit_loop.simps) (simp add: load_bytes_def eth_flen_eq)
  qed
qed

lemma emit_eth_payload_eq:
  "emit_eth_payload p = Some (length (payload_frames p), payload_frames p)"
  by (simp add: emit_eth_payload_def payload_frames_def emit_loop_eq)

lemma word_at_drop: "s \<le> length b \<Longrightarrow> word_at (drop s b) i = word_at b (s + i)"
  by (simp add: nth_drop add.assoc)

lemma looks_like_eq:
  "looks_like_rndis_packet b s = Some (map_option (\<lambda>n. (36, of_nat n)) (packet_len (drop s b)))"
proof (cases "s + 44 \<le> length b")
  case True
  then have s: "s \<le> length b" and l: "44 \<le> length (drop s b)" by auto
  have "load32 b s = Some (word_at b s)" "load32 b (s + 8) = Some (word_at b (s + 8))"
    "load32 b (s + 12) = Some (word_at b (s + 12))"
    by (rule load32_Some, use True in simp)+
  moreover have "(14::u32) \<le> w \<longleftrightarrow> 14 \<le> unat w" "w \<le> (4096::u32) \<longleftrightarrow> unat w \<le> 4096" for w
    by (simp_all add: word_le_nat_alt)
  ultimately show ?thesis
    unfolding looks_like_rndis_packet_def packet_len_def word_at_drop [OF s]
    using True l by (auto simp: not_less [symmetric])
qed (auto simp: looks_like_rndis_packet_def packet_len_def)

lemma walk_short: "length b < 44 \<Longrightarrow> walk b = []"
  by (subst walk.simps) simp

lemma walk_packet:
  "packet_len b = Some n \<Longrightarrow>
   walk b = payload_frames (take n (drop 44 b)) @ walk (drop (44 + n) b)"
  by (subst walk.simps) (auto dest: packet_len_Some)

lemma walk_skip: "packet_len b = None \<Longrightarrow> walk b = walk (tl b)"
  by (cases "length b < 44"; subst walk.simps) (simp_all add: walk_short)

lemma find_packet_eq:
  "\<exists>r. find_packet b s = Some r \<and>
     (case r of None \<Rightarrow> walk (drop s b) = []
      | Some (k, data_off, data_len) \<Rightarrow> s \<le> k \<and> data_off = 36 \<and>
          packet_len (drop k b) = Some (unat data_len) \<and> walk (drop s b) = walk (drop k b))"
proof (induction b s rule: find_packet.induct)
  case (1 b s)
  consider (fin) "length b < s + 44" | (hit) n where "s + 44 \<le> length b" "packet_len (drop s b) = Some n"
    | (miss) "s + 44 \<le> length b" "packet_len (drop s b) = None" by fastforce
  then show ?case
  proof cases
    case fin
    then show ?thesis by (subst find_packet.simps) (simp add: walk_short)
  next
    case hit
    moreover have "unat (of_nat n :: u32) = n"
      using packet_len_Some [OF hit(2)] by (simp add: unat_of_nat take_bit_eq_mod)
    ultimately show ?thesis by (subst find_packet.simps) (simp add: looks_like_eq)
  next
    case miss
    have "walk (drop s b) = walk (drop (s + 1) b)"
      using walk_skip [OF miss(2)] by (simp add: drop_Suc tl_drop)
    moreover have "find_packet b s = find_packet b (s + 1)"
      by (subst find_packet.simps) (simp add: looks_like_eq miss)
    moreover have "looks_like_rndis_packet b s = Some None" by (simp add: looks_like_eq miss)
    note ih = "1.IH" [OF miss(1) this refl]
    moreover from ih obtain r where "find_packet b (s + 1) = Some r" by blast
    ultimately show ?thesis by (intro exI [of _ r]) (auto split: option.splits)
  qed
qed

lemma unwrap_loop_eq:
  "unwrap_loop b off frames calls =
     Some (frames + length (walk (drop off b)), calls @ walk (drop off b))"
proof (induction b off frames calls rule: unwrap_loop.induct)
  case (1 b off frames calls)
  show ?case
  proof (cases "off + 44 \<le> length b")
    case False
    then show ?thesis by (subst unwrap_loop.simps) (simp add: walk_short)
  next
    case True
    obtain r where r: "find_packet b off = Some r"
      and cases_r: "case r of None \<Rightarrow> walk (drop off b) = []
      | Some (k, data_off, data_len) \<Rightarrow> off \<le> k \<and> data_off = 36 \<and>
          packet_len (drop k b) = Some (unat data_len) \<and> walk (drop off b) = walk (drop k b)"
      using find_packet_eq by blast
    show ?thesis
    proof (cases r)
      case None
      then show ?thesis using True r cases_r by (subst unwrap_loop.simps) simp
    next
      case (Some x)
      then obtain k l where x: "r = Some (k, 36, l)" "off \<le> k" "packet_len (drop k b) = Some (unat l)"
        "walk (drop off b) = walk (drop k b)" using cases_r by (cases x) auto
      let ?p = "take (unat l) (drop (44 + k) b)"
      have "44 + k + unat l \<le> length b"
        using packet_len_Some [OF x(3)] unfolding length_drop by arith
      then have ld: "load_bytes b (44 + k) (unat l) = Some ?p" by (rule load_bytes_Some)
      have step: "unwrap_loop b off frames calls =
          unwrap_loop b (44 + k + unat l) (frames + length (payload_frames ?p)) (calls @ payload_frames ?p)"
        using True r x(1,2) ld by (subst unwrap_loop.simps) (simp add: Let_def emit_eth_payload_eq)
      have "unwrap_loop b (44 + k + unat l) (frames + length (payload_frames ?p)) (calls @ payload_frames ?p)
        = Some (frames + length (payload_frames ?p) + length (walk (drop (44 + k + unat l) b)),
            (calls @ payload_frames ?p) @ walk (drop (44 + k + unat l) b))"
        by (rule "1.IH" [OF True r x(1) refl refl]) (use x(2) ld in \<open>simp_all add: emit_eth_payload_eq\<close>)
      with step show ?thesis
        by (simp add: x(4) walk_packet [OF x(3)] add.commute add.left_commute)
    qed
  qed
qed

section \<open>What the walker delivers\<close>

lemma split_frames_cover:
  "\<exists>k. concat (split_frames p) = take k p \<and> k \<le> length p \<and> length p < k + 14"
proof (induction p rule: split_frames.induct)
  case (1 p)
  let ?n = "frame_len p"
  consider (short) "length p < 14" | (rest) "14 \<le> length p" "?n < 14 \<or> length p < ?n"
    | (step) "14 \<le> length p" "14 \<le> ?n" "?n \<le> length p" by linarith
  then show ?case
  proof cases
    case short
    then show ?thesis by (intro exI [of _ 0]) (simp add: split_frames_short)
  next
    case rest
    then show ?thesis by (intro exI [of _ "length p"]) (simp add: split_frames_rest)
  next
    case step
    then obtain k where "concat (split_frames (drop ?n p)) = take k (drop ?n p)"
      "k \<le> length p - ?n" "length p - ?n < k + 14" using "1.IH" [OF _ refl] by auto
    then show ?thesis using step
      by (intro exI [of _ "?n + k"] conjI) (simp add: split_frames_step take_add, arith+)
  qed
qed

lemma payload_frames_cover:
  "\<exists>k. concat (payload_frames p) = take k p \<and> k \<le> length p \<and> length p < k + 14"
  using split_frames_cover [of p] unfolding payload_frames_def
  by (cases "length p < 14"; cases "length p \<le> 1518") (auto intro: exI [of _ 0] exI [of _ "length p"])

lemma split_frames_each:
  "list_all (\<lambda>f. 14 \<le> length f \<and> length f \<le> length p \<and> sublist f p) (split_frames p)"
proof (induction p rule: split_frames.induct)
  case (1 p)
  let ?n = "frame_len p"
  consider (short) "length p < 14" | (rest) "14 \<le> length p" "?n < 14 \<or> length p < ?n"
    | (step) "14 \<le> length p" "14 \<le> ?n" "?n \<le> length p" by linarith
  then show ?case
  proof cases
    case step
    then have "list_all (\<lambda>f. 14 \<le> length f \<and> length f \<le> length (drop ?n p) \<and> sublist f (drop ?n p))
      (split_frames (drop ?n p))" using "1.IH" [OF _ refl] by auto
    then have "list_all (\<lambda>f. 14 \<le> length f \<and> length f \<le> length p \<and> sublist f p)
      (split_frames (drop ?n p))"
      by (rule list.pred_mono_strong) (auto intro: sublist_order.order.trans)
    then show ?thesis using step by (simp add: split_frames_step)
  qed (simp_all add: split_frames_short split_frames_rest)
qed

lemma payload_frames_each:
  "list_all (\<lambda>f. 14 \<le> length f \<and> length f \<le> length p \<and> sublist f p) (payload_frames p)"
  using split_frames_each by (simp add: payload_frames_def)

lemma walk_induct [case_names short packet skip]:
  assumes "\<And>b. length b < 44 \<Longrightarrow> P b"
    and "\<And>b n. packet_len b = Some n \<Longrightarrow> P (drop (44 + n) b) \<Longrightarrow> P b"
    and "\<And>b. 44 \<le> length b \<Longrightarrow> packet_len b = None \<Longrightarrow> P (tl b) \<Longrightarrow> P b"
  shows "P b"
proof (induction b rule: walk.induct)
  case (1 b)
  then show ?case using assms by (cases "length b < 44"; cases "packet_len b") auto
qed

lemma walk_each:
  "list_all (\<lambda>f. 14 \<le> length f \<and> length f \<le> 4096 \<and> sublist f b) (walk b)"
proof (induction b rule: walk_induct)
  case (short b)
  then show ?case by (simp add: walk_short)
next
  case (packet b n)
  let ?p = "take n (drop 44 b)"
  have "sublist ?p b" by (meson sublist_drop sublist_order.order.trans sublist_take)
  moreover have "length ?p \<le> 4096" using packet_len_Some [OF packet(1)] by auto
  ultimately have "list_all (\<lambda>f. 14 \<le> length f \<and> length f \<le> 4096 \<and> sublist f b) (payload_frames ?p)"
    using payload_frames_each [of ?p] by (elim list.pred_mono_strong) (auto intro: sublist_order.order.trans)
  moreover have "list_all (\<lambda>f. 14 \<le> length f \<and> length f \<le> 4096 \<and> sublist f b) (walk (drop (44 + n) b))"
    using packet(2) by (rule list.pred_mono_strong) (auto intro: sublist_order.order.trans)
  ultimately show ?case by (simp add: walk_packet [OF packet(1)])
next
  case (skip b)
  then have "list_all (\<lambda>f. 14 \<le> length f \<and> length f \<le> 4096 \<and> sublist f b) (walk (tl b))"
    by (elim list.pred_mono_strong) (auto intro: sublist_order.order.trans)
  then show ?case by (simp add: walk_skip [OF skip(2)])
qed

lemma walk_subseq: "subseq (concat (walk b)) b"
proof (induction b rule: walk_induct)
  case (short b)
  then show ?case by (simp add: walk_short)
next
  case (packet b n)
  obtain k where "concat (payload_frames (take n (drop 44 b))) = take k (take n (drop 44 b))"
    using payload_frames_cover by blast
  then have "subseq (concat (payload_frames (take n (drop 44 b)))) (take n (drop 44 b))"
    by (metis prefix_imp_subseq take_is_prefix)
  then have "subseq (concat (payload_frames (take n (drop 44 b)))) (take (44 + n) b)"
    unfolding take_add by (rule list_emb_append2)
  from this packet(2) have "subseq (concat (payload_frames (take n (drop 44 b))) @
      concat (walk (drop (44 + n) b))) (take (44 + n) b @ drop (44 + n) b)"
    by (rule list_emb_append_mono)
  then show ?case by (simp add: walk_packet [OF packet(1)])
next
  case (skip b)
  then have "subseq (concat (walk b)) (tl b)" by (simp add: walk_skip)
  then show ?case by (cases b) auto
qed

text \<open>
  C24: on every byte string a device may send, the bulk-IN walker terminates, never reads outside
  the buffer, ignores the alignment hint, and does exactly what the list recursion \<open>walk\<close>
  describes: it calls back once per frame, in order, and returns the number of calls.
\<close>

theorem unwrap_bulk_is_walk:
  "rndis_unwrap_bulk_aligned b align_shift = Some (length (walk b), walk b)"
  by (simp add: rndis_unwrap_bulk_aligned_def unwrap_loop_eq)

lemma rndis_unwrap_bulk_eq: "rndis_unwrap_bulk b = Some (length (walk b), walk b)"
  by (simp add: rndis_unwrap_bulk_def rndis_unwrap_bulk_aligned_def unwrap_loop_eq)

text \<open>
  Whatever the device sends, every frame handed to the engine has between 14 and 4096 bytes
  (so the headers the callback reads exist and the frame fits a transmit slot), is a contiguous
  piece of the transfer, and no byte of the transfer is delivered twice or out of order.
\<close>

theorem unwrap_bulk_frames:
  "case rndis_unwrap_bulk b of
     None \<Rightarrow> False
   | Some (n, fs) \<Rightarrow> n = length fs \<and> subseq (concat fs) b \<and>
       list_all (\<lambda>f. 14 \<le> length f \<and> length f \<le> 4096 \<and> sublist f b) fs"
  by (simp add: rndis_unwrap_bulk_eq walk_each walk_subseq)

text \<open>
  Splitting one payload loses at most its last 13 bytes: the frames delivered for it are, one
  after the other, a prefix of the payload that leaves less than an Ethernet header. The split
  never gives up in the middle, whatever lengths the inner headers claim.
\<close>

theorem emit_payload_covers:
  "case emit_eth_payload p of
     None \<Rightarrow> False
   | Some (n, fs) \<Rightarrow> n = length fs \<and> prefix (concat fs) p \<and> length p < length (concat fs) + 14"
proof -
  obtain k where "concat (payload_frames p) = take k p" "k \<le> length p" "length p < k + 14"
    using payload_frames_cover by blast
  then show ?thesis by (simp add: emit_eth_payload_eq take_is_prefix)
qed

section \<open>Wrapping\<close>

text \<open>
  The aligned size is the least multiple of the alignment that is at least \<open>n\<close>; it is stated on
  the naturals, for sizes that do not reach the top of the 64-bit range.
\<close>

definition align_bytes :: "u32 \<Rightarrow> nat" where
  "align_bytes shift = 2 ^ (if shift < 2 then 2 else if 8 < shift then 8 else unat shift)"

definition round_up :: "nat \<Rightarrow> nat \<Rightarrow> nat" where
  "round_up n a = (n + a - 1) div a * a"

lemma align_bytes_range: "4 \<le> align_bytes s \<and> align_bytes s \<le> 256"
proof -
  have "align_bytes s = 2 ^ e \<Longrightarrow> 2 \<le> e \<Longrightarrow> e \<le> 8 \<Longrightarrow> ?thesis" for e
    using power_increasing [of 2 e "2::nat"] power_increasing [of e 8 "2::nat"] by simp
  then show ?thesis
    by (auto simp: align_bytes_def word_less_nat_alt not_less)
qed

lemma and_not_mask: "(w :: u64) AND NOT (mask e) = push_bit e (drop_bit e w)"
  by (rule bit_word_eqI) (auto simp: bit_simps)

lemma unat_align_pow2:
  assumes "n + 255 < 2 ^ 64"
  shows "unat (align_pow2 (of_nat n) shift) = round_up n (align_bytes shift)"
proof -
  define e where "e = (if shift < 2 then 2 else if 8 < shift then 8 else unat shift)"
  have e: "2 \<le> e" "e \<le> 8" by (auto simp: e_def word_less_nat_alt not_less)
  have a: "align_bytes shift = 2 ^ e" by (simp add: align_bytes_def e_def)
  have le: "(2::nat) ^ e \<le> 256" using power_increasing [OF e(2), of "2::nat"] by simp
  have m: "push_bit e (1::u64) - 1 = mask e" by (simp add: mask_eq_exp_minus_1 push_bit_eq_mult)
  have "align_pow2 (of_nat n) shift = (of_nat n + push_bit e 1 - 1) AND NOT (push_bit e 1 - 1)"
    by (auto simp: align_pow2_def e_def Let_def)
  also have "\<dots> = push_bit e (drop_bit e (of_nat n + mask e))"
    unfolding and_not_mask [symmetric] m [symmetric] by (simp add: algebra_simps)
  also have "of_nat n + mask e = (of_nat (n + (2 ^ e - 1)) :: u64)"
    unfolding of_nat_add by (simp add: mask_eq_exp_minus_1 of_nat_diff)
  also have "n + (2 ^ e - 1) = n + 2 ^ e - 1" by simp
  finally have al: "align_pow2 (of_nat n) shift = push_bit e (drop_bit e (of_nat (n + 2 ^ e - 1)))" .
  define x where "x = n + 2 ^ e - 1"
  have "x < 2 ^ 64" using assms le by (simp add: x_def)
  moreover have "x div 2 ^ e * 2 ^ e \<le> x" by simp
  ultimately have "take_bit 64 x = x" "take_bit 64 (x div 2 ^ e * 2 ^ e) = x div 2 ^ e * 2 ^ e"
    by (simp_all only: take_bit_nat_eq_self_iff)
  moreover have "unat (push_bit e (drop_bit e (of_nat x :: u64))) =
      take_bit 64 (push_bit e (drop_bit e (take_bit 64 x)))"
    by (simp add: unsigned_push_bit_eq unsigned_drop_bit_eq unsigned_of_nat)
  ultimately have "unat (push_bit e (drop_bit e (of_nat x :: u64))) = x div 2 ^ e * 2 ^ e"
    by (simp only: drop_bit_eq_div push_bit_eq_mult)
  then show ?thesis
    unfolding al a round_up_def x_def [symmetric] .
qed

lemma round_up_props:
  assumes "0 < a"
  shows "n \<le> round_up n a" "round_up n a < n + a" "a dvd round_up n a"
proof -
  have "(n + a - 1) div a * a + (n + a - 1) mod a = n + a - 1" by (rule div_mult_mod_eq)
  moreover have "(n + a - 1) mod a < a" using assms by simp
  ultimately show "n \<le> round_up n a" "round_up n a < n + a"
    using assms unfolding round_up_def by linarith+
qed (simp add: round_up_def)

lemma round_up_least:
  assumes "a dvd m" "n \<le> m" "0 < a"
  shows "round_up n a \<le> m"
proof -
  obtain q where m: "m = a * q" using assms(1) by (elim dvdE)
  have "n + a - 1 < a * q + a" using assms(2,3) m by linarith
  then have "n + a - 1 < (q + 1) * a" by (simp add: mult.commute)
  then have "(n + a - 1) div a < q + 1" using assms(3) by (simp only: div_less_iff_less_mult)
  then have "(n + a - 1) div a * a \<le> q * a" by (intro mult_le_mono1) simp
  then show ?thesis by (simp add: m round_up_def mult.commute)
qed

text \<open>
  \<open>align_pow2\<close> is correct for every alignment factor a device may report, from 0 to
  \<open>2^32 - 1\<close>: the clamp keeps the shift between 2 and 8, and the bit trick gives the least multiple
  of \<open>2^shift\<close> that is at least \<open>n\<close>.
\<close>

theorem align_pow2_least_multiple:
  assumes "n + 255 < 2 ^ 64" "n \<le> m" "align_bytes shift dvd m"
  shows "n \<le> unat (align_pow2 (of_nat n) shift) \<and> unat (align_pow2 (of_nat n) shift) \<le> m \<and>
    align_bytes shift dvd unat (align_pow2 (of_nat n) shift)"
proof -
  have "0 < align_bytes shift" using align_bytes_range [of shift] by linarith
  then show ?thesis using assms round_up_props round_up_least by (simp add: unat_align_pow2)
qed

theorem align_pow2_least_multiple_witness:
  "104 \<le> unat (align_pow2 (of_nat 104) 200) \<and> unat (align_pow2 (of_nat 104) 200) \<le> 256 \<and>
    align_bytes 200 dvd unat (align_pow2 (of_nat 104) 200)"
  by (rule align_pow2_least_multiple) (simp_all add: align_bytes_def)

section \<open>Messages as little-endian words\<close>

definition words :: "u32 list \<Rightarrow> buf" where
  "words ws = concat (map bytes32 ws)"

lemma words_append [simp]: "words (xs @ ys) = words xs @ words ys"
  by (simp add: words_def)

lemma words_Cons: "words (w # ws) = bytes32 w @ words ws"
  by (simp add: words_def)

lemma length_words [simp]: "length (words ws) = 4 * length ws"
  by (induction ws) (simp_all add: words_def)

lemma bytes32_0: "bytes32 0 = replicate 4 0"
  by (simp add: bytes32_def numeral_eq_Suc)

lemma zeros_words: "replicate (4 * n) 0 = words (replicate n 0)"
  by (induction n) (simp_all add: bytes32_0 replicate_add words_def)

lemma at_wr32le_words:
  assumes "k < length ws"
  shows "at_wr32le (words ws @ rest) (4 * k) v = Some (words (ws[k := v]) @ rest)"
proof -
  have s: "words ws @ rest = words (take k ws) @ bytes32 (ws ! k) @ (words (drop (Suc k) ws) @ rest)"
    by (subst id_take_nth_drop [OF assms]) (simp add: words_Cons)
  have l: "length (words (take k ws)) = 4 * k" using assms by simp
  show ?thesis unfolding s at_wr32le_def
    by (subst store_bytes_append [OF l]) (simp_all add: upd_conv_take_nth_drop [OF assms] words_Cons)
qed

lemmas at_wr32le_word =
  at_wr32le_words [where k = 0, simplified] at_wr32le_words [where k = 1, simplified]
  at_wr32le_words [where k = 2, simplified] at_wr32le_words [where k = 3, simplified]
  at_wr32le_words [where k = 4, simplified] at_wr32le_words [where k = 5, simplified]
  at_wr32le_words [where k = 6, simplified]

lemma store_zeros_words:
  "4 * n \<le> length b \<Longrightarrow> store_bytes b 0 (replicate (4 * n) 0) = Some (words (replicate n 0) @ drop (4 * n) b)"
  by (simp add: store_bytes_def zeros_words)

lemmas store_zeros =
  store_zeros_words [where n = 3, simplified] store_zeros_words [where n = 4, simplified]
  store_zeros_words [where n = 6, simplified] store_zeros_words [where n = 7, simplified]

text \<open>
  The control messages the engine sends have exactly the layout of the protocol, word by
  word, touch nothing behind it, and are not built at all when the buffer is too small.
\<close>

theorem control_message_layout:
  "rndis_build_initialize b rid xfer =
     (if length b < 24 then Some (0, b)
      else Some (24, words [2, 24, rid, 1, 0, xfer] @ drop 24 b)) \<and>
   rndis_build_halt b rid =
     (if length b < 12 then Some (0, b) else Some (12, words [3, 12, rid] @ drop 12 b)) \<and>
   rndis_build_keepalive b rid =
     (if length b < 16 then Some (0, b) else Some (16, words [8, 16, rid, 0] @ drop 16 b)) \<and>
   rndis_build_keepalive_cmplt b rid =
     (if length b < 16 then Some (0, b)
      else Some (16, words [0x80000008, 16, rid, 0] @ drop 16 b))"
proof -
  have r: "replicate 3 (0::u32) = [0, 0, 0]" "replicate 4 (0::u32) = [0, 0, 0, 0]"
    "replicate 6 (0::u32) = [0, 0, 0, 0, 0, 0]" by (simp_all add: numeral_eq_Suc)
  show ?thesis
    unfolding rndis_build_initialize_def rndis_build_halt_def rndis_build_keepalive_def
      rndis_build_keepalive_cmplt_def
    by (auto simp: store_zeros r at_wr32le_word not_less)
qed

text \<open>A buffer of at least \<open>4 * n\<close> zeroed bytes, seen as words followed by the payload area.\<close>

lemma store_zeros_split:
  "4 * n \<le> m \<Longrightarrow> m \<le> length b \<Longrightarrow>
   store_bytes b 0 (replicate m 0) =
     Some (words (replicate n 0) @ replicate (m - 4 * n) 0 @ drop m b)"
  by (simp add: store_bytes_def zeros_words [symmetric] flip: append_assoc replicate_add)

lemma store_payload:
  "length (words ws) = i \<Longrightarrow> length d \<le> m \<Longrightarrow>
   store_bytes (words ws @ replicate m 0 @ rest) i d = Some (words ws @ d @ replicate (m - length d) 0 @ rest)"
  using store_bytes_append [of "words ws" i "replicate (length d) 0" d "replicate (m - length d) 0 @ rest"]
  by (simp flip: append_assoc replicate_add)

lemma replicate_7: "replicate 7 (0::u32) = [0, 0, 0, 0, 0, 0, 0]"
  by (simp add: numeral_eq_Suc)

lemma unat_28_plus:
  "unat (len :: u32) < 2 ^ 32 - 28 \<Longrightarrow> unat (28 + len) = 28 + unat len"
  by (simp add: unat_word_ariths)

lemma word_of_nat_28_plus:
  "(of_nat (28 + unat (len :: u32)) :: u32) = 28 + len"
  by simp

text \<open>
  A SET (and a QUERY with data) carries its value right behind the seven header words, with
  the length and the offset from byte 8 that the protocol asks for, whenever the value is short
  enough for the 32-bit size computation.
\<close>

theorem set_query_layout:
  assumes "length val = unat len" "unat len < 2 ^ 32 - 28" "28 + unat len \<le> length b"
  shows "rndis_build_set b rid oid val len =
      Some (28 + unat len, words [5, 28 + len, rid, oid, len, 20, 0] @ val @ drop (28 + unat len) b) \<and>
    rndis_build_query b rid oid (Some val) len =
      Some (28 + unat len,
        words [4, 28 + len, rid, oid, len, if len \<noteq> 0 then 20 else 0, 0] @ val @ drop (28 + unat len) b)"
proof -
  have t: "unat (28 + len) = 28 + unat len" by (rule unat_28_plus [OF assms(2)])
  have z: "store_bytes b 0 (replicate (28 + unat len) 0) =
    Some (words (replicate 7 0) @ replicate (unat len) 0 @ drop (28 + unat len) b)"
    using store_zeros_split [of 7 "28 + unat len" b] assms(3) by simp
  have ld: "load_bytes val 0 (unat len) = Some val" by (simp add: load_bytes_def assms(1))
  have st: "length ws = 7 \<Longrightarrow> store_bytes (words ws @ replicate (unat len) 0 @ r) 28 val =
      Some (words ws @ val @ r)" for ws r
    using store_payload [of ws 28 val "unat len" r] assms(1) by simp
  have e: "len = 0 \<Longrightarrow> val = []" using assms(1) by simp
  show ?thesis
    unfolding rndis_build_set_def rndis_build_query_def Let_def t word_of_nat_28_plus
    using assms(3) e by (auto simp: z replicate_7 at_wr32le_word ld st)
qed

theorem set_query_layout_witness:
  "rndis_build_set (replicate 64 0xAA) 3 0x0001010E (bytes32 0x2D) 4 =
     Some (32, words [5, 32, 3, 0x0001010E, 4, 20, 0] @ bytes32 0x2D @ replicate 32 0xAA)"
  using set_query_layout [of "bytes32 0x2D" 4 "replicate 64 0xAA" 3 "0x0001010E"]
  by (simp add: take_bit_eq_mod)

text \<open>
  The size computation of a SET wraps in 32 bits before it is widened. For a value of
  \<open>2^32 - 28\<close> bytes or more the check against the buffer compares the wrapped size, so the
  routine goes on and writes outside the buffer instead of returning 0. (No caller of the engine
  passes such a length.)
\<close>

theorem build_set_size_wraps:
  assumes "2 ^ 32 - 28 \<le> unat len" "length b < 28 + unat len" "unat (28 + len) \<le> length b"
  shows "rndis_build_set b rid oid val len = None"
proof -
  have fin: "store_bytes b' 28 d = None" if "length b' = length b" "length d = unat len" for b' d
    using that assms(2) by (simp add: store_bytes_def)
  have len32: "at_wr32le c i v = Some c' \<Longrightarrow> length c' = length c" for c i v c'
    by (auto simp: at_wr32le_def store_bytes_eq_Some_iff)
  have lenz: "store_bytes b 0 xs = Some c \<Longrightarrow> length c = length b" for xs c
    by (auto simp: store_bytes_eq_Some_iff)
  have d: "load_bytes val 0 (unat len) = Some d \<Longrightarrow> length d = unat len" for d
    by (auto simp: load_bytes_eq_Some_iff)
  show ?thesis
  proof (rule ccontr)
    assume "rndis_build_set b rid oid val len \<noteq> None"
    then show False
      unfolding rndis_build_set_def Let_def
      using assms(3) by (auto simp: bind_eq_Some_conv fin dest!: len32 lenz d)
  qed
qed

theorem build_set_size_wraps_witness:
  "rndis_build_set (replicate 1024 0) 1 0x0001010E (replicate 4294967268 0) 4294967268 = None"
  by (rule build_set_size_wraps) (simp_all add: take_bit_eq_mod)

section \<open>One wrapped frame\<close>

definition pad_eth :: "buf \<Rightarrow> buf" where
  "pad_eth eth = eth @ replicate (AT_ETH_MIN - length eth) 0"

definition packet_size :: "buf \<Rightarrow> u32 \<Rightarrow> nat" where
  "packet_size eth shift = round_up (44 + length (pad_eth eth)) (align_bytes shift)"

definition packet :: "buf \<Rightarrow> u32 \<Rightarrow> buf" where
  "packet eth shift =
     words [RNDIS_MSG_PACKET, of_nat (packet_size eth shift), 36, of_nat (length (pad_eth eth)), 0, 0, 0, 0, 0, 0, 0] @
     pad_eth eth @ replicate (packet_size eth shift - (44 + length (pad_eth eth))) 0"

lemma length_pad_eth: "length (pad_eth eth) = (if length eth < 60 then 60 else length eth)"
  by (simp add: pad_eth_def)

lemma packet_size_bounds:
  "44 + length (pad_eth eth) \<le> packet_size eth s" "packet_size eth s < 44 + length (pad_eth eth) + 256"
proof -
  have "0 < align_bytes s" "align_bytes s \<le> 256" using align_bytes_range [of s] by linarith+
  then show "44 + length (pad_eth eth) \<le> packet_size eth s"
    "packet_size eth s < 44 + length (pad_eth eth) + 256"
    using round_up_props [of "align_bytes s" "44 + length (pad_eth eth)"] by (simp_all add: packet_size_def)
qed

lemma length_packet [simp]: "length (packet eth s) = packet_size eth s"
  using packet_size_bounds(1) [of eth s] by (simp add: packet_def)

lemma wrap_layout:
  assumes "length eth < 2 ^ 32"
  shows "rndis_wrap_ethernet_aligned out eth shift =
     (if eth = [] \<or> length out < packet_size eth shift then Some (0, out)
      else Some (packet_size eth shift, packet eth shift @ drop (packet_size eth shift) out))"
proof (cases "eth = [] \<or> length out < packet_size eth shift")
  case True
  moreover have "unat (align_pow2 (of_nat (44 + length (pad_eth eth))) shift) = packet_size eth shift"
    unfolding packet_size_def by (rule unat_align_pow2) (use assms in \<open>simp add: length_pad_eth\<close>)
  ultimately show ?thesis
    by (auto simp: rndis_wrap_ethernet_aligned_def length_pad_eth Let_def)
next
  case False
  let ?m = "packet_size eth shift"
  have m: "unat (align_pow2 (of_nat (44 + length (pad_eth eth))) shift) = ?m"
    unfolding packet_size_def by (rule unat_align_pow2) (use assms in \<open>simp add: length_pad_eth\<close>)
  have bound: "44 + length (pad_eth eth) \<le> ?m" by (rule packet_size_bounds)
  have z: "store_bytes out 0 (replicate ?m 0) =
      Some (words (replicate 11 0) @ replicate (?m - 44) 0 @ drop ?m out)"
    using store_zeros_split [of 11 ?m out] bound False by simp
  have r: "replicate 11 (0::u32) = [0, 0, 0, 0, 0, 0, 0, 0, 0, 0, 0]" by (simp add: numeral_eq_Suc)
  have le: "length eth \<le> ?m - 44" using bound by (simp add: length_pad_eth split: if_splits)
  have "replicate (?m - 44 - length eth) (0::byte) =
      replicate (60 - length eth) 0 @ replicate (?m - (44 + length (pad_eth eth))) 0"
    unfolding replicate_add [symmetric] using bound by (simp add: length_pad_eth split: if_splits)
  then have st: "length ws = 11 \<Longrightarrow> store_bytes (words ws @ replicate (?m - 44) 0 @ rest) 44 eth =
      Some (words ws @ pad_eth eth @ replicate (?m - (44 + length (pad_eth eth))) 0 @ rest)" for ws rest
    using store_payload [of ws 44 eth "?m - 44" rest] le by (simp add: pad_eth_def)
  have p: "(if length eth < 60 then 60 else length eth) = length (pad_eth eth)"
    by (simp add: length_pad_eth)
  show ?thesis
    unfolding rndis_wrap_ethernet_aligned_def Let_def p m
    using False by (simp add: z r at_wr32le_word st packet_def)
qed

text \<open>
  The TX wrapper either reports failure and leaves the slot alone, or writes exactly one
  PACKET message: header, the frame padded with zeros to the Ethernet minimum, zeros up to the
  alignment the device asked for, and nothing behind that.
\<close>

theorem wrap_ethernet_layout:
  assumes "length eth < 2 ^ 32"
  shows "rndis_wrap_ethernet_aligned out eth shift =
     (if eth = [] \<or> length out < packet_size eth shift then Some (0, out)
      else Some (packet_size eth shift, packet eth shift @ drop (packet_size eth shift) out))"
  using assms by (rule wrap_layout)

theorem wrap_ethernet_layout_witness:
  "rndis_wrap_ethernet_aligned (replicate 4096 0xAA) (replicate 64 7) 4 =
     Some (112, words [1, 112, 36, 64, 0, 0, 0, 0, 0, 0, 0] @ replicate 64 7 @ replicate 4 0 @ replicate 3984 0xAA)"
proof -
  have s: "packet_size (replicate 64 7) 4 = 112"
    by (simp add: packet_size_def pad_eth_def align_bytes_def round_up_def)
  have p: "packet (replicate 64 7) 4 = words [1, 112, 36, 64, 0, 0, 0, 0, 0, 0, 0] @ replicate 64 7 @ replicate 4 0"
    by (simp add: packet_def s pad_eth_def)
  show ?thesis
    using wrap_ethernet_layout [of "replicate 64 7" "replicate 4096 0xAA" 4] by (simp add: s p)
qed

section \<open>Batches\<close>

text \<open>What the engine puts on the bus for one frame: the used part of its transmit slot.\<close>

definition wire :: "buf \<Rightarrow> u32 \<Rightarrow> buf \<Rightarrow> buf" where
  "wire slot shift eth =
     (case rndis_wrap_ethernet_aligned slot eth shift of Some (n, out) \<Rightarrow> take n out | None \<Rightarrow> [])"

definition bulk_frames :: "buf \<Rightarrow> buf list option" where
  "bulk_frames b = map_option snd (rndis_unwrap_bulk b)"

definition eth_ok :: "buf \<Rightarrow> buf \<Rightarrow> bool" where
  "eth_ok slot eth \<longleftrightarrow> eth \<noteq> [] \<and> length eth \<le> 1518 \<and> 2048 \<le> length slot"

lemma wire_eq:
  assumes "eth_ok slot eth" shows "wire slot shift eth = packet eth shift"
proof -
  have "packet_size eth shift \<le> length slot"
    using packet_size_bounds(2) [of eth shift] assms by (simp add: eth_ok_def length_pad_eth split: if_splits)
  then have "rndis_wrap_ethernet_aligned slot eth shift =
      Some (packet_size eth shift, packet eth shift @ drop (packet_size eth shift) slot)"
    using assms wrap_layout by (simp add: eth_ok_def)
  then show ?thesis by (simp add: wire_def)
qed

lemma word_at_words:
  "word_at (words (w # ws) @ r) 0 = w" "word_at (words (v # w # u # ws) @ r) 8 = u"
  "word_at (words (v # w # u # t # ws) @ r) 12 = t"
  by (simp_all add: words_Cons bytes32_def word32_bytes)

lemma packet_len_packet:
  assumes "eth \<noteq> []" "length eth \<le> 4096"
  shows "packet_len (packet eth s @ rest) = Some (length (pad_eth eth))"
proof -
  have l: "14 \<le> length (pad_eth eth)" "length (pad_eth eth) \<le> 4096" using assms by (simp_all add: length_pad_eth)
  then have "unat (of_nat (length (pad_eth eth)) :: u32) = length (pad_eth eth)"
    by (simp add: unat_of_nat take_bit_eq_mod)
  moreover have "44 + length (pad_eth eth) \<le> length (packet eth s @ rest)"
    using packet_size_bounds(1) [of eth s] by simp
  ultimately show ?thesis using l
    by (simp only: packet_len_def packet_def append_assoc word_at_words) simp
qed

lemma walk_zeros: "walk (replicate k 0 @ rest) = walk rest"
proof (induction k)
  case (Suc k)
  have "word32 0 x y z \<noteq> 1" for x y z
  proof
    assume "word32 0 x y z = 1"
    then have "(ucast (word32 0 x y z) :: byte) = ucast (1 :: u32)" by (rule arg_cong)
    then show False by simp
  qed
  then have "packet_len (replicate (Suc k) 0 @ rest) = None" by (simp add: packet_len_def)
  with Suc show ?case by (simp add: walk_skip)
qed simp

lemma walk_wrapped:
  assumes "eth \<noteq> []" "length eth \<le> 1518"
  shows "walk (packet eth s @ rest) = pad_eth eth # walk rest"
proof -
  let ?n = "length (pad_eth eth)"
  have n: "14 \<le> ?n" "?n \<le> 1518" using assms by (simp_all add: length_pad_eth)
  let ?z = "replicate (packet_size eth s - (44 + ?n)) (0::byte)"
  have d: "drop 44 (packet eth s @ rest) = pad_eth eth @ ?z @ rest"
    by (simp add: packet_def)
  have "drop (44 + ?n) (packet eth s @ rest) = drop ?n (drop 44 (packet eth s @ rest))"
    by (simp only: drop_drop add.commute)
  then have d': "drop (44 + ?n) (packet eth s @ rest) = ?z @ rest" by (simp only: d) simp
  have "packet_len (packet eth s @ rest) = Some ?n"
    by (rule packet_len_packet) (use assms in auto)
  from walk_packet [OF this] show ?thesis
    unfolding d d' walk_zeros using n by (simp add: payload_frames_def)
qed

interpretation rndis: packet_stream "wire slot shift" bulk_frames pad_eth "eth_ok slot"
proof
  show "bulk_frames [] = Some []" by (simp add: bulk_frames_def rndis_unwrap_bulk_eq walk_short)
next
  fix a rest assume "eth_ok slot a"
  then show "bulk_frames (wire slot shift a @ rest) = map_option (Cons (pad_eth a)) (bulk_frames rest)"
    by (simp add: wire_eq bulk_frames_def rndis_unwrap_bulk_eq)
      (simp add: eth_ok_def walk_wrapped)
qed

text \<open>
  C25: any number of frames of 1 to 1518 bytes, wrapped with any alignment factor into transmit
  slots with any old contents, sent back to back in one transfer and followed by the wrapped
  frames of another transfer, are unwrapped to exactly these frames, in order, each padded with zeros to
  60 bytes. The resynchronising scan never invents or skips a packet between them.
\<close>

theorem rndis_batch_roundtrip:
  assumes "list_all (eth_ok slot) fs"
  shows "bulk_frames (concat (map (wire slot shift) fs) @ rest) =
    map_option (append (map pad_eth fs)) (bulk_frames rest)"
  using assms by (rule rndis.batch_rest)

theorem rndis_batch_roundtrip_witness:
  "bulk_frames (concat (map (wire (replicate 4096 0xFF) 4) [replicate 70 1, [1, 0, 0, 0]]) @ []) =
     Some [replicate 70 1, [1, 0, 0, 0] @ replicate 56 0]"
  by (subst rndis_batch_roundtrip)
    (simp_all add: eth_ok_def bulk_frames_def rndis_unwrap_bulk_eq walk_short pad_eth_def)

section \<open>Completions\<close>

definition cmplt_ok :: "buf \<Rightarrow> u32 \<Rightarrow> u32 \<Rightarrow> bool" where
  "cmplt_ok b type rid \<longleftrightarrow> 16 \<le> length b \<and> word_at b 0 = type \<and> unat (word_at b 4) \<le> length b \<and>
     word_at b 8 = rid \<and> word_at b 12 = RNDIS_STATUS_SUCCESS"

lemma check_cmplt_header_spec:
  "\<exists>rc st. check_cmplt_header b type rid = Some (rc, st) \<and> rc \<le> 0 \<and> (rc = 0 \<longleftrightarrow> cmplt_ok b type rid)"
  by (auto simp: check_cmplt_header_def cmplt_ok_def buf_simps)

text \<open>
  A control response, whatever its bytes, is parsed inside its own length and is accepted only
  if it is the successful completion of the request that is outstanding (type, request id and
  status). An accepted INITIALIZE gives the fields at their offsets and a rejected one leaves the
  session as it was; the information buffer of a QUERY lies inside the response although its
  offset and length are chosen by the device.
\<close>

theorem completions_matched:
  "(case rndis_parse_initialize_cmplt b rid old of None \<Rightarrow> False
    | Some (rc, r) \<Rightarrow>
        if rc = 0 then cmplt_ok b RNDIS_MSG_INITIALIZE_CMPLT rid \<and> 52 \<le> length b \<and>
          r = \<lparr>max_transfer_size = word_at b 36, max_packets_per_xfer = word_at b 32,
               packet_alignment = word_at b 40, device_flags = word_at b 24, medium = word_at b 28\<rparr>
        else rc < 0 \<and> r = old) \<and>
   (case rndis_parse_query_cmplt b rid of None \<Rightarrow> False
    | Some (rc, info) \<Rightarrow>
        (case info of None \<Rightarrow> rc < 0
         | Some (start, n) \<Rightarrow> rc = 0 \<and> cmplt_ok b RNDIS_MSG_QUERY_CMPLT rid \<and> 24 \<le> length b \<and>
             start = 8 + unat (word_at b 20) \<and> n = unat (word_at b 16) \<and> start + n \<le> length b)) \<and>
   (case rndis_parse_set_cmplt b rid of None \<Rightarrow> False
    | Some rc \<Rightarrow> rc \<le> 0 \<and> (rc = 0) = cmplt_ok b RNDIS_MSG_SET_CMPLT rid)"
proof (intro conjI)
  obtain rc st where h: "check_cmplt_header b RNDIS_MSG_INITIALIZE_CMPLT rid = Some (rc, st)" "rc \<le> 0"
    "rc = 0 \<longleftrightarrow> cmplt_ok b RNDIS_MSG_INITIALIZE_CMPLT rid" using check_cmplt_header_spec by blast
  show "case rndis_parse_initialize_cmplt b rid old of None \<Rightarrow> False
    | Some (rc, r) \<Rightarrow>
        if rc = 0 then cmplt_ok b RNDIS_MSG_INITIALIZE_CMPLT rid \<and> 52 \<le> length b \<and>
          r = \<lparr>max_transfer_size = word_at b 36, max_packets_per_xfer = word_at b 32,
               packet_alignment = word_at b 40, device_flags = word_at b 24, medium = word_at b 28\<rparr>
        else rc < 0 \<and> r = old"
    using h by (auto simp: rndis_parse_initialize_cmplt_def buf_simps)
next
  obtain rc st where h: "check_cmplt_header b RNDIS_MSG_QUERY_CMPLT rid = Some (rc, st)" "rc \<le> 0"
    "rc = 0 \<longleftrightarrow> cmplt_ok b RNDIS_MSG_QUERY_CMPLT rid" using check_cmplt_header_spec by blast
  show "case rndis_parse_query_cmplt b rid of None \<Rightarrow> False
    | Some (rc, info) \<Rightarrow>
        (case info of None \<Rightarrow> rc < 0
         | Some (start, n) \<Rightarrow> rc = 0 \<and> cmplt_ok b RNDIS_MSG_QUERY_CMPLT rid \<and> 24 \<le> length b \<and>
             start = 8 + unat (word_at b 20) \<and> n = unat (word_at b 16) \<and> start + n \<le> length b)"
    using h by (auto simp: rndis_parse_query_cmplt_def buf_simps Let_def)
next
  obtain rc st where h: "check_cmplt_header b RNDIS_MSG_SET_CMPLT rid = Some (rc, st)" "rc \<le> 0"
    "rc = 0 \<longleftrightarrow> cmplt_ok b RNDIS_MSG_SET_CMPLT rid" using check_cmplt_header_spec by blast
  then show "case rndis_parse_set_cmplt b rid of None \<Rightarrow> False
    | Some rc \<Rightarrow> rc \<le> 0 \<and> (rc = 0) = cmplt_ok b RNDIS_MSG_SET_CMPLT rid"
    by (simp add: rndis_parse_set_cmplt_def)
qed

end
