(* ===== verification/Inet.thy ===== *)
theory Inet
  imports Common
begin

text \<open>
  IPv4 addresses as the engine handles them: a \<open>uint32_t\<close> holding the four octets in network
  (memory) order, their dotted text, and the lease record \<open>at_net_info_t\<close> of
  \<open>engine/include/net_config.h\<close>. \<open>inet_ntop\<close> and \<open>inet_pton\<close> are modelled for \<open>AF_INET\<close> as
  POSIX and the BSD libc of the target document them: decimal octets from 0 to 255, without
  leading zeros. A \<open>char\<close> array of the record is represented by the C string it holds.
\<close>

unbundle bit_operations_syntax

record at_net_info =
  ni_ip :: string
  ni_netmask :: string
  ni_gateway :: string
  ni_dns :: string
  ni_ready :: int

section \<open>Decimal octets\<close>

definition digit :: "nat \<Rightarrow> char" where
  "digit n = char_of (48 + n)"

definition isdigit :: "char \<Rightarrow> bool" where
  "isdigit c \<longleftrightarrow> 48 \<le> (of_char c :: nat) \<and> (of_char c :: nat) \<le> 57"

definition dec8 :: "nat \<Rightarrow> string" where
  "dec8 n = (if n < 10 then [digit n]
     else if n < 100 then [digit (n div 10), digit (n mod 10)]
     else [digit (n div 100), digit (n div 10 mod 10), digit (n mod 10)])"

definition inet_ntop4 :: "u32 \<Rightarrow> string" where
  "inet_ntop4 a = (case bytes32 a of
     [b0, b1, b2, b3] \<Rightarrow> dec8 (unat b0) @ ''.'' @ dec8 (unat b1) @ ''.'' @
        dec8 (unat b2) @ ''.'' @ dec8 (unat b3) | _ \<Rightarrow> '''')"

text \<open>
  The BSD \<open>inet_pton4\<close>: \<open>octets\<close> is the number of octets started, \<open>saw\<close> whether the current one
  has a digit, \<open>acc\<close> the finished octets (latest first) and \<open>cur\<close> the current value.
\<close>

fun pton_loop :: "string \<Rightarrow> nat \<Rightarrow> bool \<Rightarrow> nat list \<Rightarrow> nat \<Rightarrow> nat list option" where
  "pton_loop [] octets saw acc cur = (if octets < 4 then None else Some (rev (cur # acc)))"
| "pton_loop (c # cs) octets saw acc cur =
     (if isdigit c then
        (let new = cur * 10 + (of_char c - 48) in
         if saw \<and> cur = 0 then None
         else if new > 255 then None
         else if \<not> saw then (if octets + 1 > 4 then None else pton_loop cs (octets + 1) True acc new)
         else pton_loop cs octets saw acc new)
      else if c = CHR ''.'' \<and> saw then
        (if octets = 4 then None else pton_loop cs octets False (cur # acc) 0)
      else None)"

definition inet_pton4 :: "string \<Rightarrow> nat list option" where
  "inet_pton4 s = pton_loop s 0 False [] 0"

lemma of_char_digit: "n < 10 \<Longrightarrow> of_char (digit n) = 48 + n"
  by (simp add: digit_def)

lemma isdigit_digit: "n < 10 \<Longrightarrow> isdigit (digit n)"
  by (simp add: isdigit_def of_char_digit)

text \<open>Reading one printed octet, from the state in which an octet may start.\<close>

lemma pton_dec8:
  assumes "n < 256" "octets < 4"
  shows "pton_loop (dec8 n @ cs) octets False acc 0 = pton_loop cs (octets + 1) True acc n"
proof -
  consider "n < 10" | "10 \<le> n" "n < 100" | "100 \<le> n" "n < 256" using assms(1) by linarith
  then show ?thesis
  proof cases
    case 1
    then show ?thesis using assms by (simp add: dec8_def isdigit_digit of_char_digit Let_def)
  next
    case 2
    obtain a b where ab: "n div 10 = a" "n mod 10 = b" "0 < a" "a < 10" "b < 10" "a * 10 + b = n"
    proof (rule that [OF refl refl])
      show "0 < n div 10" "n div 10 < 10" "n mod 10 < 10" using 2 by auto
      show "n div 10 * 10 + n mod 10 = n" by simp
    qed
    then have "dec8 n = [digit a, digit b]" using 2 by (simp add: dec8_def)
    then show ?thesis using assms ab by (simp add: isdigit_digit of_char_digit Let_def)
  next
    case 3
    obtain a b c where abc: "n div 100 = a" "n div 10 mod 10 = b" "n mod 10 = c" "0 < a" "a < 10"
      "b < 10" "c < 10" "(a * 10 + b) * 10 + c = n" "a * 10 + b \<le> 25"
    proof (rule that [OF refl refl refl])
      have e: "n div 100 = n div 10 div 10" by (simp flip: div_mult2_eq)
      show "0 < n div 100" "n div 100 < 10" "n div 10 mod 10 < 10" "n mod 10 < 10" using 3 by auto
      show "(n div 100 * 10 + n div 10 mod 10) * 10 + n mod 10 = n" unfolding e by presburger
      show "n div 100 * 10 + n div 10 mod 10 \<le> 25" unfolding e using 3 by presburger
    qed
    then have "dec8 n = [digit a, digit b, digit c]" using 3 by (simp add: dec8_def)
    then show ?thesis using assms abc by (simp add: isdigit_digit of_char_digit Let_def)
  qed
qed

lemma pton_dot: "octets < 4 \<Longrightarrow> pton_loop (CHR ''.'' # cs) octets True acc cur = pton_loop cs octets False (cur # acc) 0"
  by (simp add: isdigit_def)

lemma pton_ntop: "inet_pton4 (inet_ntop4 a) = Some (map unat (bytes32 a))"
  unfolding inet_pton4_def inet_ntop4_def bytes32_def
  using pton_dec8 [of "unat (ucast (drop_bit 24 a) :: byte)" 3 "[]"]
  by (simp add: pton_dec8 pton_dot unat_byte_less numeral_3_eq_3 del: pton_loop.simps(2))

lemma digits_dec8: "n < 256 \<Longrightarrow> list_all isdigit (dec8 n) \<and> dec8 n \<noteq> [] \<and> length (dec8 n) \<le> 3"
  by (simp add: dec8_def isdigit_digit less_mult_imp_div_less)

lemma ntop_length: "length (inet_ntop4 a) \<le> 15 \<and> inet_ntop4 a \<noteq> []"
proof -
  have "length (dec8 (unat (b :: byte))) \<le> 3 \<and> dec8 (unat b) \<noteq> []" for b
    using digits_dec8 [OF unat_byte_less] by simp
  note l = this
  show ?thesis
    using l [of "ucast a"] l [of "ucast (drop_bit 8 a)"] l [of "ucast (drop_bit 16 a)"]
      l [of "ucast (drop_bit 24 a)"]
    by (simp add: inet_ntop4_def bytes32_def)
qed

lemma ntop_chars: "list_all (\<lambda>c. c = CHR ''.'' \<or> isdigit c) (inet_ntop4 a)"
proof -
  have "list_all (\<lambda>c. c = CHR ''.'' \<or> isdigit c) (dec8 (unat (b :: byte)))" for b
    using digits_dec8 [OF unat_byte_less, of b] by (auto simp: list_all_iff)
  then show ?thesis by (simp add: inet_ntop4_def bytes32_def)
qed

lemma bytes32_inject: "bytes32 a = bytes32 b \<Longrightarrow> a = b"
  unfolding bytes32_def list.inject by (metis word32_bytes)

lemma inet_ntop4_inject: "inet_ntop4 a = inet_ntop4 b \<Longrightarrow> a = b"
proof -
  assume "inet_ntop4 a = inet_ntop4 b"
  then have "map unat (bytes32 a) = map unat (bytes32 b)"
    using pton_ntop [of a] pton_ntop [of b] by simp
  then have "bytes32 a = bytes32 b"
    by (rule map_injective) (simp add: inj_def word_unat_eq_iff)
  then show ?thesis by (rule bytes32_inject)
qed

end
