(* ===== verification/Dhcp.thy ===== *)
theory Dhcp
  imports Checksum Inet Interfaces
begin

text \<open>
  The DHCP client of \<open>engine/src/dhcp_client.c\<close>: its state, the frames it sends and its reaction
  to the frames of the phone. The clock is a parameter: \<open>now\<close> is the value of \<open>now_ms ()\<close> and
  \<open>tv\<close> the value \<open>gettimeofday\<close> stores in \<open>last_tx\<close>. Log calls are dropped.
\<close>

unbundle bit_operations_syntax

section \<open>State\<close>

datatype dhcp_state = ST_INIT | ST_SELECTING | ST_REQUESTING | ST_BOUND | ST_RENEWING | ST_REBINDING

record timeval =
  tv_sec :: int
  tv_usec :: int

record at_dhcp =
  d_mac :: buf
  d_xid :: u32
  d_state :: dhcp_state
  d_yiaddr :: u32
  d_server :: u32
  d_netmask :: u32
  d_router :: u32
  d_dns0 :: u32
  d_dns1 :: u32
  d_dns_n :: int
  d_lease_secs :: u32
  d_t1_secs :: u32
  d_t2_secs :: u32
  d_bound_ms :: u64
  d_last_tx :: timeval
  d_backoff_ms :: int

abbreviation (input) DHCP_COOKIE :: u32 where "DHCP_COOKIE \<equiv> 0x63825363"
abbreviation (input) DHCP_LEASE_INFINITE :: u32 where "DHCP_LEASE_INFINITE \<equiv> 0xFFFFFFFF"
abbreviation (input) DHCP_DEFAULT_LEASE :: u32 where "DHCP_DEFAULT_LEASE \<equiv> 3600"
abbreviation (input) DHCP_FIXED :: nat where "DHCP_FIXED \<equiv> 240"
abbreviation (input) DHCP_DISCOVER :: byte where "DHCP_DISCOVER \<equiv> 1"
abbreviation (input) DHCP_OFFER :: byte where "DHCP_OFFER \<equiv> 2"
abbreviation (input) DHCP_REQUEST :: byte where "DHCP_REQUEST \<equiv> 3"
abbreviation (input) DHCP_ACK :: byte where "DHCP_ACK \<equiv> 5"
abbreviation (input) DHCP_NAK :: byte where "DHCP_NAK \<equiv> 6"

definition tv_zero :: timeval where
  "tv_zero = \<lparr>tv_sec = 0, tv_usec = 0\<rparr>"

definition tv_ms :: "timeval \<Rightarrow> u64" where
  "tv_ms tv = of_int (tv_sec tv) * 1000 + of_int (tv_usec tv) div 1000"

definition lease_active :: "at_dhcp \<Rightarrow> bool" where
  "lease_active d \<longleftrightarrow> d_state d = ST_BOUND \<or> d_state d = ST_RENEWING \<or> d_state d = ST_REBINDING"

definition reset_select :: "at_dhcp \<Rightarrow> at_dhcp" where
  "reset_select d = d\<lparr>d_state := ST_INIT, d_yiaddr := 0, d_server := 0, d_lease_secs := 0,
     d_t1_secs := 0, d_t2_secs := 0, d_bound_ms := 0, d_backoff_ms := 500, d_last_tx := tv_zero\<rparr>"

definition apply_lease_timers :: "u64 \<Rightarrow> at_dhcp \<Rightarrow> at_dhcp" where
  "apply_lease_timers now d =
     (let lease = (if d_lease_secs d = 0 then DHCP_DEFAULT_LEASE else d_lease_secs d) in
      if lease = DHCP_LEASE_INFINITE
      then d\<lparr>d_bound_ms := now, d_lease_secs := lease, d_t1_secs := 0, d_t2_secs := 0\<rparr>
      else
        let t1 = (if d_t1_secs d = 0 \<or> d_t1_secs d \<ge> lease then lease div 2 else d_t1_secs d);
            t2 = (if d_t2_secs d = 0 \<or> d_t2_secs d \<le> t1 \<or> d_t2_secs d \<ge> lease
                  then lease - lease div 8 else d_t2_secs d);
            t1 = (if t1 = 0 then 1 else t1);
            t2 = (if t2 \<le> t1 then t1 + 1 else t2)
        in d\<lparr>d_bound_ms := now, d_lease_secs := lease, d_t1_secs := t1, d_t2_secs := t2\<rparr>)"

text \<open>\<open>calloc\<close> may fail (\<open>mem = False\<close>); process id and time make the transaction id.\<close>

definition at_dhcp_create :: "bool \<Rightarrow> u32 \<Rightarrow> u32 \<Rightarrow> buf option \<Rightarrow> at_dhcp option" where
  "at_dhcp_create mem pid time mac =
     (if \<not> mem then None else
      Some \<lparr>d_mac = (case mac of Some m \<Rightarrow> take 6 m | None \<Rightarrow> replicate 6 0),
            d_xid = push_bit 16 pid XOR time XOR 0xA5A5,
            d_state = ST_INIT, d_yiaddr = 0, d_server = 0, d_netmask = htonl 0xffffff00,
            d_router = 0, d_dns0 = 0, d_dns1 = 0, d_dns_n = 0, d_lease_secs = 0, d_t1_secs = 0,
            d_t2_secs = 0, d_bound_ms = 0, d_last_tx = tv_zero, d_backoff_ms = 500\<rparr>)"

definition at_dhcp_bound :: "at_dhcp \<Rightarrow> bool" where
  "at_dhcp_bound d = lease_active d"

definition net_info_zero :: at_net_info where
  "net_info_zero = \<lparr>ni_ip = '''', ni_netmask = '''', ni_gateway = '''', ni_dns = '''', ni_ready = 0\<rparr>"

text \<open>The \<open>dns\<close> array has 128 bytes; the second server is appended only if it fits.\<close>

definition at_dhcp_lease :: "at_dhcp \<Rightarrow> at_net_info" where
  "at_dhcp_lease d =
     (if \<not> lease_active d then net_info_zero else
      let out = net_info_zero\<lparr>ni_ip := inet_ntop4 (d_yiaddr d), ni_netmask := inet_ntop4 (d_netmask d)\<rparr>;
          out = (if d_router d \<noteq> 0 then out\<lparr>ni_gateway := inet_ntop4 (d_router d)\<rparr> else out);
          out = (if d_dns_n d \<ge> 1 then
                   let out = out\<lparr>ni_dns := inet_ntop4 (d_dns0 d)\<rparr> in
                   if d_dns_n d \<ge> 2 then
                     let second = inet_ntop4 (d_dns1 d); used = length (ni_dns out) in
                     if used + 1 + length second < 128
                     then out\<lparr>ni_dns := ni_dns out @ '' '' @ second\<rparr> else out
                   else out
                 else out)
      in out\<lparr>ni_ready := 1\<rparr>)"

definition at_dhcp_debug_age_ms :: "u64 \<Rightarrow> u64 \<Rightarrow> at_dhcp \<Rightarrow> at_dhcp" where
  "at_dhcp_debug_age_ms now age_ms d =
     d\<lparr>d_bound_ms := (if now > age_ms then now - age_ms else 0), d_last_tx := tv_zero\<rparr>"

section \<open>Sending\<close>

definition append_opt :: "buf \<Rightarrow> nat \<Rightarrow> nat \<Rightarrow> byte \<Rightarrow> buf \<Rightarrow> byte \<Rightarrow> (nat \<times> buf) option" where
  "append_opt opt off cap t v n =
     (if off + 2 + unat n \<ge> cap then Some (off, opt) else do {
        opt \<leftarrow> store_bytes opt off [t];
        opt \<leftarrow> store_bytes opt (off + 1) [n];
        opt \<leftarrow> (if n \<noteq> 0 then do { x \<leftarrow> load_bytes v 0 (unat n); store_bytes opt (off + 2) x }
                else Some opt);
        Some (off + 2 + unat n, opt) })"

definition build_bootp :: "at_dhcp \<Rightarrow> byte \<Rightarrow> buf \<Rightarrow> (nat \<times> buf) option" where
  "build_bootp d msg_type bootp =
     (let cap = length bootp in
      if cap < 300 then Some (0, bootp) else do {
        bootp \<leftarrow> store_bytes bootp 0 (replicate cap 0);
        bootp \<leftarrow> store_bytes bootp 0 [1, 1, 6];
        bootp \<leftarrow> store_bytes bootp 4 (bytes32 (d_xid d));
        (let renewing = (d_state d = ST_RENEWING); rebinding = (d_state d = ST_REBINDING) in do {
          bootp \<leftarrow> (if renewing \<or> rebinding then store_bytes bootp 12 (bytes32 (d_yiaddr d)) else Some bootp);
          bootp \<leftarrow> (if \<not> renewing then store_bytes bootp 10 [0x80] else Some bootp);
          m \<leftarrow> load_bytes (d_mac d) 0 6;
          bootp \<leftarrow> store_bytes bootp 28 m;
          bootp \<leftarrow> store_bytes bootp 236 (bytes32 (htonl DHCP_COOKIE));
          (let oc = cap - DHCP_FIXED in do {
            opt \<leftarrow> load_bytes bootp DHCP_FIXED oc;
            (off, opt) \<leftarrow> append_opt opt 0 oc 53 [msg_type] 1;
            (off, opt) \<leftarrow> append_opt opt off oc 55 [0x01, 0x03, 0x06, 0x1c, 0x33, 0x3a, 0x3b] 7;
            (off, opt) \<leftarrow>
              (if msg_type = DHCP_REQUEST \<and> d_yiaddr d \<noteq> 0 \<and> \<not> renewing \<and> \<not> rebinding then do {
                 (off, opt) \<leftarrow> append_opt opt off oc 50 (bytes32 (d_yiaddr d)) 4;
                 (if d_server d \<noteq> 0 then append_opt opt off oc 54 (bytes32 (d_server d)) 4
                  else Some (off, opt)) }
               else Some (off, opt));
            (off, opt) \<leftarrow>
              (if off < oc then do { opt \<leftarrow> store_bytes opt off [255]; Some (off + 1, opt) }
               else Some (off, opt));
            bootp \<leftarrow> store_bytes bootp DHCP_FIXED opt;
            (let bootp_len = DHCP_FIXED + off in
             Some (if bootp_len < 300 then 300 else bootp_len, bootp)) }) }) })"

text \<open>
  \<open>eth + 14\<close> is the IP header, \<open>eth + 34\<close> the UDP header. The local \<open>pseudo\<close> array has 1044 bytes.
\<close>

definition udp_pseudo_checksum :: "buf \<Rightarrow> nat \<Rightarrow> u16 option" where
  "udp_pseudo_checksum eth udp_len = do {
     p \<leftarrow> store_bytes (replicate 1044 0) 0 (replicate 1044 0);
     a \<leftarrow> load_bytes eth 26 4; p \<leftarrow> store_bytes p 0 a;
     b \<leftarrow> load_bytes eth 30 4; p \<leftarrow> store_bytes p 4 b;
     p \<leftarrow> store_bytes p 9 [17];
     p \<leftarrow> store_bytes p 10 [hi8 (of_nat udp_len), lo8 (of_nat udp_len)];
     u \<leftarrow> load_bytes eth 34 udp_len; p \<leftarrow> store_bytes p 12 u;
     x \<leftarrow> load_bytes p 0 (12 + udp_len);
     Some (at_ip_checksum x) }"

definition encapsulate_udp_ip_eth ::
  "buf \<Rightarrow> u32 \<Rightarrow> u32 \<Rightarrow> buf \<Rightarrow> nat \<Rightarrow> buf \<Rightarrow> (nat \<times> buf) option" where
  "encapsulate_udp_ip_eth mac src_ip dst_ip bootp bootp_len eth =
     (let udp_len = 8 + bootp_len; ip_len = 20 + udp_len; total = 14 + ip_len in
      if length eth < total then Some (0, eth) else do {
        eth \<leftarrow> store_bytes eth 0 (replicate 6 0xff);
        m \<leftarrow> load_bytes mac 0 6;
        eth \<leftarrow> store_bytes eth 6 m;
        eth \<leftarrow> store_bytes eth 12 [0x08, 0x00];
        eth \<leftarrow> store_bytes eth 14 (replicate 20 0);
        eth \<leftarrow> store_bytes eth 14 [0x45];
        eth \<leftarrow> store_bytes eth 16 [hi8 (of_nat ip_len), lo8 (of_nat ip_len)];
        eth \<leftarrow> store_bytes eth 22 [64];
        eth \<leftarrow> store_bytes eth 23 [17];
        eth \<leftarrow> store_bytes eth 26 (bytes32 src_ip);
        eth \<leftarrow> store_bytes eth 30 (bytes32 dst_ip);
        h \<leftarrow> load_bytes eth 14 20;
        (let csum = at_ip_checksum h in do {
          eth \<leftarrow> store_bytes eth 24 [hi8 csum, lo8 csum];
          eth \<leftarrow> store_bytes eth 34 [hi8 68, lo8 68, hi8 67, lo8 67,
             hi8 (of_nat udp_len), lo8 (of_nat udp_len), 0, 0];
          p \<leftarrow> load_bytes bootp 0 bootp_len;
          eth \<leftarrow> store_bytes eth 42 p;
          (if 8 + bootp_len \<le> 1024 then do {
             u \<leftarrow> udp_pseudo_checksum eth udp_len;
             (let u = (if u = 0 then 0xffff else u) in do {
               eth \<leftarrow> store_bytes eth 40 [hi8 u, lo8 u];
               Some (total, eth) }) }
           else Some (total, eth)) }) })"

definition advance_renew_state :: "u64 \<Rightarrow> at_dhcp \<Rightarrow> at_dhcp" where
  "advance_renew_state now d =
     (if \<not> lease_active d then d
      else if d_lease_secs d = DHCP_LEASE_INFINITE then d
      else
        let age = (if now \<ge> d_bound_ms d then now - d_bound_ms d else 0);
            lease_ms = (ucast (d_lease_secs d) :: u64) * 1000;
            t1_ms = (ucast (d_t1_secs d) :: u64) * 1000;
            t2_ms = (ucast (d_t2_secs d) :: u64) * 1000 in
        if lease_ms \<noteq> 0 \<and> age \<ge> lease_ms then reset_select d
        else if d_state d \<noteq> ST_REBINDING \<and> t2_ms \<noteq> 0 \<and> age \<ge> t2_ms
        then d\<lparr>d_state := ST_REBINDING, d_backoff_ms := 1000, d_last_tx := tv_zero\<rparr>
        else if d_state d = ST_BOUND \<and> t1_ms \<noteq> 0 \<and> age \<ge> t1_ms
        then d\<lparr>d_state := ST_RENEWING, d_backoff_ms := 1000, d_last_tx := tv_zero\<rparr>
        else d)"

definition at_dhcp_want_tx ::
  "u64 \<Rightarrow> timeval \<Rightarrow> at_dhcp \<Rightarrow> buf \<Rightarrow> (nat \<times> at_dhcp \<times> buf) option" where
  "at_dhcp_want_tx now tv d eth =
     (let d = advance_renew_state now d in
      if d_state d = ST_BOUND then Some (0, d, eth)
      else if d_lease_secs d = DHCP_LEASE_INFINITE \<and> lease_active d then Some (0, d, eth)
      else if (tv_sec (d_last_tx d) \<noteq> 0 \<or> tv_usec (d_last_tx d) \<noteq> 0) \<and>
              now < tv_ms (d_last_tx d) + of_int (d_backoff_ms d)
      then Some (0, d, eth)
      else
        let msg = (if d_state d = ST_REQUESTING \<or> d_state d = ST_RENEWING \<or> d_state d = ST_REBINDING
                   then DHCP_REQUEST else DHCP_DISCOVER) in do {
          (blen, bootp) \<leftarrow> build_bootp d msg (replicate 548 0);
          (if blen = 0 then Some (0, d, eth) else
             let src = (if d_state d = ST_RENEWING \<or> d_state d = ST_REBINDING then d_yiaddr d else 0);
                 dst = (if d_state d = ST_RENEWING \<and> d_server d \<noteq> 0 then d_server d else 0xffffffff) in do {
               (n, eth) \<leftarrow> encapsulate_udp_ip_eth (d_mac d) src dst bootp blen eth;
               (if n = 0 then Some (0, d, eth) else
                  let d = d\<lparr>d_last_tx := tv\<rparr>;
                      d = (if d_state d = ST_INIT then d\<lparr>d_state := ST_SELECTING\<rparr> else d);
                      d = d\<lparr>d_backoff_ms := (if d_backoff_ms d < 4000 then d_backoff_ms d * 2 else 8000)\<rparr>
                  in Some (n, d, eth)) }) })"

section \<open>Receiving\<close>

definition rd_opt_u32 :: "buf \<Rightarrow> nat \<Rightarrow> u32 option" where
  "rd_opt_u32 opt i = map_option ntohl (load32 opt i)"

text \<open>One option with type \<open>t\<close> and \<open>n\<close> value bytes at \<open>opt + i\<close>: the chain of the loop body.\<close>

definition parse_option ::
  "at_dhcp \<Rightarrow> byte \<Rightarrow> buf \<Rightarrow> nat \<Rightarrow> byte \<Rightarrow> byte \<Rightarrow> (at_dhcp \<times> byte) option" where
  "parse_option d msg opt i t n =
     (if t = 53 \<and> n \<ge> 1 then do { m \<leftarrow> load8 opt i; Some (d, m) }
      else if t = 54 \<and> n \<ge> 4 then do { v \<leftarrow> load32 opt i; Some (d\<lparr>d_server := v\<rparr>, msg) }
      else if t = 1 \<and> n \<ge> 4 then do { v \<leftarrow> load32 opt i; Some (d\<lparr>d_netmask := v\<rparr>, msg) }
      else if t = 3 \<and> n \<ge> 4 then do { v \<leftarrow> load32 opt i; Some (d\<lparr>d_router := v\<rparr>, msg) }
      else if t = 51 \<and> n \<ge> 4 then do { v \<leftarrow> rd_opt_u32 opt i; Some (d\<lparr>d_lease_secs := v\<rparr>, msg) }
      else if t = 58 \<and> n \<ge> 4 then do { v \<leftarrow> rd_opt_u32 opt i; Some (d\<lparr>d_t1_secs := v\<rparr>, msg) }
      else if t = 59 \<and> n \<ge> 4 then do { v \<leftarrow> rd_opt_u32 opt i; Some (d\<lparr>d_t2_secs := v\<rparr>, msg) }
      else if t = 6 \<and> n \<ge> 4 then do {
        v \<leftarrow> load32 opt i;
        (let d = d\<lparr>d_dns0 := v, d_dns_n := 1\<rparr> in
         if n \<ge> 8 then do { v2 \<leftarrow> load32 opt (i + 4); Some (d\<lparr>d_dns1 := v2, d_dns_n := 2\<rparr>, msg) }
         else Some (d, msg)) }
      else Some (d, msg))"

function parse_options_loop ::
  "buf \<Rightarrow> nat \<Rightarrow> at_dhcp \<Rightarrow> byte \<Rightarrow> (at_dhcp \<times> byte) option" where
  "parse_options_loop opt i d msg =
     (if i < length opt then
        do { t \<leftarrow> load8 opt i;
             (if t = 0 then parse_options_loop opt (i + 1) d msg
              else if t = 255 then Some (d, msg)
              else if i + 1 \<ge> length opt then Some (d, msg)
              else do { n \<leftarrow> load8 opt (i + 1);
                (if i + 2 + unat n > length opt then Some (d, msg)
                 else do { (d', msg') \<leftarrow> parse_option d msg opt (i + 2) t n;
                           parse_options_loop opt (i + 2 + unat n) d' msg' }) }) }
      else Some (d, msg))"
  by pat_completeness auto
termination
  by (relation "measure (\<lambda>(opt, i, _, _). length opt - i)") auto

declare parse_options_loop.simps [simp del]

definition parse_options :: "at_dhcp \<Rightarrow> buf \<Rightarrow> (at_dhcp \<times> byte) option" where
  "parse_options d opt = parse_options_loop opt 0 d 0"

definition on_offer :: "at_dhcp \<Rightarrow> u32 \<Rightarrow> int \<times> at_dhcp" where
  "on_offer d new_yi =
     (if lease_active d then (0, d)
      else (0, d\<lparr>d_yiaddr := new_yi, d_state := ST_REQUESTING, d_backoff_ms := 200, d_last_tx := tv_zero\<rparr>))"

definition on_ack :: "u64 \<Rightarrow> at_dhcp \<Rightarrow> u32 \<Rightarrow> int \<times> at_dhcp" where
  "on_ack now d new_yi =
     (let was_active = lease_active d; old_ip = d_yiaddr d;
          d = d\<lparr>d_yiaddr := new_yi\<rparr>;
          d = (if d_dns_n d = 0 \<and> d_router d \<noteq> 0 then d\<lparr>d_dns0 := d_router d, d_dns_n := 1\<rparr> else d);
          d = (if d_router d = 0 \<and> d_server d \<noteq> 0 then d\<lparr>d_router := d_server d\<rparr> else d);
          d = apply_lease_timers now d;
          d = d\<lparr>d_state := ST_BOUND, d_backoff_ms := 500, d_last_tx := tv_zero\<rparr>
      in if \<not> was_active then (1, d)
         else (if old_ip \<noteq> d_yiaddr d then 1 else 0, d))"

definition on_nak :: "at_dhcp \<Rightarrow> int \<times> at_dhcp" where
  "on_nak d =
     (let had = lease_active d \<or> d_state d = ST_REQUESTING
      in (if had then -1 else 0, reset_select d))"

definition at_dhcp_on_frame :: "u64 \<Rightarrow> at_dhcp \<Rightarrow> buf \<Rightarrow> (int \<times> at_dhcp) option" where
  "at_dhcp_on_frame now d eth =
     (if length eth < 14 + 20 + 8 + DHCP_FIXED then Some (0, d) else do {
        e12 \<leftarrow> load8 eth 12; e13 \<leftarrow> load8 eth 13;
        (if e12 \<noteq> 0x08 \<or> e13 \<noteq> 0x00 then Some (0, d) else do {
           ip0 \<leftarrow> load8 eth 14;
           (if drop_bit 4 ip0 \<noteq> 4 then Some (0, d) else
              let ihl = unat (ip0 AND 0x0f) * 4 in
              if ihl < 20 \<or> 14 + ihl + 8 + DHCP_FIXED > length eth then Some (0, d) else do {
                proto \<leftarrow> load8 eth 23;
                (if proto \<noteq> 17 then Some (0, d) else
                   let udp = 14 + ihl in do {
                     p2 \<leftarrow> load8 eth (udp + 2); p3 \<leftarrow> load8 eth (udp + 3);
                     (if be16 p2 p3 \<noteq> 68 then Some (0, d) else
                        let bootp = udp + 8; blen = length eth - bootp in
                        if blen < DHCP_FIXED then Some (0, d) else do {
                          op \<leftarrow> load8 eth bootp;
                          (if op \<noteq> 2 then Some (0, d) else do {
                             xid \<leftarrow> load32 eth (bootp + 4);
                             (if xid \<noteq> d_xid d then Some (0, d) else do {
                                cookie \<leftarrow> load32 eth (bootp + 236);
                                (if ntohl cookie \<noteq> DHCP_COOKIE then Some (0, d) else do {
                                   opt \<leftarrow> load_bytes eth (bootp + DHCP_FIXED) (blen - DHCP_FIXED);
                                   (d, msg) \<leftarrow> parse_options d opt;
                                   new_yi \<leftarrow> load32 eth (bootp + 16);
                                   Some (if msg = DHCP_OFFER \<and> new_yi \<noteq> 0 then on_offer d new_yi
                                         else if msg = DHCP_ACK \<and> new_yi \<noteq> 0 then on_ack now d new_yi
                                         else if msg = DHCP_NAK then on_nak d
                                         else (0, d)) }) }) }) }) }) }) }) })"

section \<open>Reading options\<close>

text \<open>
  Whatever the option bytes are, the loop ends, stays in the buffer and can change nothing but the
  server, the netmask, the router, the name servers and the three times.
\<close>

definition same_core :: "at_dhcp \<Rightarrow> at_dhcp \<Rightarrow> bool" where
  "same_core d d' \<longleftrightarrow> d_mac d' = d_mac d \<and> d_xid d' = d_xid d \<and> d_state d' = d_state d \<and>
     d_yiaddr d' = d_yiaddr d \<and> d_bound_ms d' = d_bound_ms d \<and> d_last_tx d' = d_last_tx d \<and>
     d_backoff_ms d' = d_backoff_ms d \<and>
     (d_dns_n d' = d_dns_n d \<or> d_dns_n d' = 1 \<or> d_dns_n d' = 2)"

lemma same_core_refl [simp]: "same_core d d"
  by (simp add: same_core_def)

lemma same_core_trans: "same_core d d' \<Longrightarrow> same_core d' d'' \<Longrightarrow> same_core d d''"
  by (auto simp: same_core_def)

lemma same_core_active: "same_core d d' \<Longrightarrow> lease_active d' = lease_active d"
  by (simp add: same_core_def lease_active_def)

lemma load32_None_iff: "load32 b i = None \<longleftrightarrow> length b < i + 4"
  by (auto simp: load32_def load8_def)

lemma parse_option_spec:
  assumes "i + unat n \<le> length opt"
  shows "\<exists>d' m. parse_option d msg opt i t n = Some (d', m) \<and> same_core d d'"
proof -
  have n1: "n \<ge> 1 \<Longrightarrow> load8 opt i = Some (opt ! i)"
    using assms by (simp add: load8_def word_le_nat_alt)
  have n4: "n \<ge> 4 \<Longrightarrow> \<exists>v. load32 opt i = Some v"
    using assms load32_None_iff [of opt i] by (cases "load32 opt i") (auto simp: word_le_nat_alt)
  have n8: "n \<ge> 8 \<Longrightarrow> \<exists>v. load32 opt (i + 4) = Some v"
    using assms load32_None_iff [of opt "i + 4"]
    by (cases "load32 opt (i + 4)") (auto simp: word_le_nat_alt)
  have "n \<ge> 8 \<Longrightarrow> n \<ge> 4" by (simp add: word_le_nat_alt)
  with n1 n4 n8 show ?thesis
    unfolding parse_option_def rd_opt_u32_def Let_def
    by (cases "4 \<le> n"; cases "8 \<le> n") (auto simp: same_core_def)
qed

lemma parse_options_loop_spec:
  "\<exists>d' m. parse_options_loop opt i d msg = Some (d', m) \<and> same_core d d'"
proof (induction opt i d msg rule: parse_options_loop.induct)
  case (1 opt i d msg)
  show ?case
  proof (cases "i < length opt \<and> opt ! i \<noteq> 255 \<and>
      (opt ! i = 0 \<or> i + 1 < length opt \<and> i + 2 + unat (opt ! (i + 1)) \<le> length opt)")
    case False
    then show ?thesis
      by (subst parse_options_loop.simps) (auto simp: load8_def)
  next
    case True
    then have t: "load8 opt i = Some (opt ! i)" by (simp add: load8_def)
    show ?thesis
    proof (cases "opt ! i = 0")
      case z: True
      then show ?thesis using "1.IH"(1) [OF _ t z] True t
        by (subst parse_options_loop.simps) simp
    next
      case nz: False
      then have n: "load8 opt (i + 1) = Some (opt ! (i + 1))"
        and fits: "i + 2 + unat (opt ! (i + 1)) \<le> length opt" using True by (auto simp: load8_def)
      obtain d1 m1 where p: "parse_option d msg opt (i + 2) (opt ! i) (opt ! (i + 1)) = Some (d1, m1)"
        "same_core d d1" using parse_option_spec [OF fits] by blast
      have "\<exists>d' m. parse_options_loop opt (i + 2 + unat (opt ! (i + 1))) d1 m1 = Some (d', m) \<and> same_core d1 d'"
        by (rule "1.IH"(2) [OF _ t nz _ _ n _ p(1) refl]) (use True nz fits in auto)
      then show ?thesis using True t n nz fits p
        by (subst parse_options_loop.simps) (auto intro: same_core_trans)
    qed
  qed
qed

lemma parse_options_spec:
  obtains d' m where "parse_options d opt = Some (d', m)" "same_core d d'"
  using parse_options_loop_spec unfolding parse_options_def by blast

section \<open>Which frames are replies to this client\<close>

definition bootp_at :: "buf \<Rightarrow> nat" where
  "bootp_at eth = 14 + unat (eth ! 14 AND 0x0f) * 4 + 8"

definition reply_for :: "u32 \<Rightarrow> buf \<Rightarrow> bool" where
  "reply_for xid eth \<longleftrightarrow> 282 \<le> length eth \<and> eth ! 12 = 0x08 \<and> eth ! 13 = 0x00 \<and>
     drop_bit 4 (eth ! 14) = 4 \<and> 42 \<le> bootp_at eth \<and> bootp_at eth + DHCP_FIXED \<le> length eth \<and>
     eth ! 23 = 17 \<and> be16 (eth ! (bootp_at eth - 6)) (eth ! (bootp_at eth - 5)) = 68 \<and>
     eth ! bootp_at eth = 2 \<and> word_at eth (bootp_at eth + 4) = xid \<and>
     ntohl (word_at eth (bootp_at eth + 236)) = DHCP_COOKIE"

definition reply_options :: "buf \<Rightarrow> buf" where
  "reply_options eth = drop (bootp_at eth + DHCP_FIXED) eth"

definition reply_yiaddr :: "buf \<Rightarrow> u32" where
  "reply_yiaddr eth = word_at eth (bootp_at eth + 16)"

definition dispatch :: "u64 \<Rightarrow> at_dhcp \<Rightarrow> byte \<Rightarrow> u32 \<Rightarrow> int \<times> at_dhcp" where
  "dispatch now d msg new_yi =
     (if msg = DHCP_OFFER \<and> new_yi \<noteq> 0 then on_offer d new_yi
      else if msg = DHCP_ACK \<and> new_yi \<noteq> 0 then on_ack now d new_yi
      else if msg = DHCP_NAK then on_nak d
      else (0, d))"

lemma on_frame_eq:
  "at_dhcp_on_frame now d eth =
     (if reply_for (d_xid d) eth
      then map_option (\<lambda>(d1, msg). dispatch now d1 msg (reply_yiaddr eth)) (parse_options d (reply_options eth))
      else Some (0, d))"
proof (cases "282 \<le> length eth \<and> 42 \<le> bootp_at eth \<and> bootp_at eth + DHCP_FIXED \<le> length eth")
  case False
  then show ?thesis
    by (auto simp: at_dhcp_on_frame_def reply_for_def bootp_at_def load8_def Let_def)
next
  case True
  define u where "u = 14 + unat (eth ! 14 AND 0x0f) * 4"
  have b: "bootp_at eth = u + 8" by (simp add: bootp_at_def u_def)
  have ld: "load8 eth i = Some (eth ! i)" if "i < 34" for i using that True by (simp add: load8_def)
  have lu: "load8 eth (u + 2) = Some (eth ! (u + 2))" "load8 eth (u + 3) = Some (eth ! (u + 3))"
    "load8 eth (u + 8) = Some (eth ! (u + 8))" using True b by (simp_all add: load8_def)
  have lw: "load32 eth (u + 8 + 4) = Some (word_at eth (u + 8 + 4))"
    "load32 eth (u + 8 + 236) = Some (word_at eth (u + 8 + 236))"
    "load32 eth (u + 8 + 16) = Some (word_at eth (u + 8 + 16))"
    by (rule load32_Some, use True b in simp)+
  have lo: "load_bytes eth (u + 8 + 240) (length eth - (u + 8) - 240) = Some (reply_options eth)"
    using True b by (simp add: load_bytes_def reply_options_def)
  have off: "bootp_at eth - 6 = u + 2" "bootp_at eth - 5 = u + 3" by (simp_all add: b)
  obtain d1 m where "parse_options d (reply_options eth) = Some (d1, m)"
    using parse_options_spec by blast
  moreover have e: "14 + unat (eth ! 14 AND 0x0f) * 4 = u" "\<not> unat (eth ! 14 AND 0x0f) * 4 < 20"
    using True b by (simp_all add: u_def bootp_at_def)
  moreover have "282 \<le> length eth" "42 \<le> u + 8" "u + 248 \<le> length eth"
    "\<not> length eth < 262 + unat (eth ! 14 AND 0x0f) * 4" "\<not> length eth - (8 + u) < 240"
    using True b e by (simp_all, arith)
  moreover have cm: "u + numeral k = numeral k + u" for k by (rule add.commute)
  ultimately show ?thesis
    unfolding at_dhcp_on_frame_def reply_for_def dispatch_def reply_yiaddr_def off b
    by (simp add: Let_def ld e lu [simplified cm, simplified] lw [simplified cm, simplified]
        lo [simplified cm, simplified] cm)
qed

section \<open>The contract of the reply handler\<close>

lemma apply_lease_timers_core [simp]:
  "d_mac (apply_lease_timers now d) = d_mac d" "d_xid (apply_lease_timers now d) = d_xid d"
  "d_state (apply_lease_timers now d) = d_state d" "d_yiaddr (apply_lease_timers now d) = d_yiaddr d"
  "d_server (apply_lease_timers now d) = d_server d" "d_netmask (apply_lease_timers now d) = d_netmask d"
  "d_router (apply_lease_timers now d) = d_router d" "d_dns_n (apply_lease_timers now d) = d_dns_n d"
  "d_dns0 (apply_lease_timers now d) = d_dns0 d" "d_dns1 (apply_lease_timers now d) = d_dns1 d"
  "d_bound_ms (apply_lease_timers now d) = now" "d_last_tx (apply_lease_timers now d) = d_last_tx d"
  "d_backoff_ms (apply_lease_timers now d) = d_backoff_ms d"
  by (simp_all add: apply_lease_timers_def Let_def)

definition reply_result_ok :: "at_dhcp \<Rightarrow> int \<Rightarrow> at_dhcp \<Rightarrow> bool" where
  "reply_result_ok d r d' \<longleftrightarrow>
     (if r = 1 then lease_active d' \<and> (\<not> lease_active d \<or> d_yiaddr d' \<noteq> d_yiaddr d)
      else if r = -1 then (lease_active d \<or> d_state d = ST_REQUESTING) \<and> d_state d' = ST_INIT
      else r = 0 \<and> lease_active d' = lease_active d \<and> (\<not> lease_active d \<or> d_yiaddr d' = d_yiaddr d))"

lemma dispatch_result:
  assumes "same_core d d1"
  shows "reply_result_ok d (fst (dispatch now d1 msg yi)) (snd (dispatch now d1 msg yi))"
  using assms same_core_active [OF assms]
  by (auto simp: dispatch_def on_offer_def on_ack_def on_nak_def reply_result_ok_def same_core_def
      Let_def lease_active_def reset_select_def)

text \<open>
  The reply handler is memory safe on every frame the phone may send, and its return value
  tells the truth: 1 exactly when the client holds a lease it did not hold before or with another
  address, -1 when a lease or a request was refused and the client is back in INIT, and 0 when
  neither whether it is bound nor the bound address changed. The engine keys its whole network
  configuration on this value.
\<close>

theorem on_frame_contract:
  "case at_dhcp_on_frame now d eth of None \<Rightarrow> False | Some (r, d') \<Rightarrow> reply_result_ok d r d'"
proof -
  obtain d1 m where p: "parse_options d (reply_options eth) = Some (d1, m)" "same_core d d1"
    by (rule parse_options_spec)
  obtain r d' where r: "dispatch now d1 m (reply_yiaddr eth) = (r, d')" by fastforce
  have "reply_result_ok d r d'" "reply_result_ok d 0 d"
    using dispatch_result [OF p(2), of now m "reply_yiaddr eth"] by (simp_all add: r reply_result_ok_def)
  then show ?thesis by (simp add: on_frame_eq p(1) r)
qed

section \<open>Lease times\<close>

lemma unat_word_of_nat32 [simp]: "n < 2 ^ 32 \<Longrightarrow> unat (of_nat n :: u32) = n"
  by (simp add: unat_of_nat take_bit_eq_mod)

text \<open>The times in seconds as naturals: the arithmetic of the code never wraps.\<close>

definition timers_of :: "at_dhcp \<Rightarrow> nat \<times> nat \<times> nat" where
  "timers_of d = (unat (d_lease_secs d), unat (d_t1_secs d), unat (d_t2_secs d))"

lemma apply_lease_timers_nat:
  assumes "d_lease_secs d \<noteq> DHCP_LEASE_INFINITE"
  defines "l \<equiv> (if d_lease_secs d = 0 then 3600 else unat (d_lease_secs d))"
  defines "a \<equiv> (if unat (d_t1_secs d) = 0 \<or> l \<le> unat (d_t1_secs d) then l div 2 else unat (d_t1_secs d))"
  defines "b \<equiv> (if unat (d_t2_secs d) = 0 \<or> unat (d_t2_secs d) \<le> a \<or> l \<le> unat (d_t2_secs d)
                 then l - l div 8 else unat (d_t2_secs d))"
  defines "a' \<equiv> (if a = 0 then 1 else a)"
  shows "timers_of (apply_lease_timers now d) = (l, a', if b \<le> a' then a' + 1 else b)"
proof -
  define L where "L = (if d_lease_secs d = 0 then 3600 else d_lease_secs d)"
  define A where "A = (if d_t1_secs d = 0 \<or> d_t1_secs d \<ge> L then L div 2 else d_t1_secs d)"
  define B where "B = (if d_t2_secs d = 0 \<or> d_t2_secs d \<le> A \<or> d_t2_secs d \<ge> L then L - L div 8 else d_t2_secs d)"
  define A' where "A' = (if A = 0 then 1 else A)"
  have lne: "L \<noteq> DHCP_LEASE_INFINITE" using assms(1) by (simp add: L_def)
  have l: "unat L = l" by (simp add: l_def L_def take_bit_eq_mod)
  have a: "unat A = a" unfolding a_def A_def by (simp add: word_le_nat_alt l unat_div unat_eq_zero)
  have "unat (L - L div 8) = unat L - unat (L div 8)"
    by (rule unat_sub) (simp add: word_le_nat_alt unat_div)
  then have s: "unat (L - L div 8) = l - l div 8" by (simp only: unat_div l) (simp add: take_bit_eq_mod)
  have b: "unat B = b" unfolding b_def B_def using s by (simp add: word_le_nat_alt l a unat_eq_zero)
  have a': "unat A' = a'" unfolding a'_def A'_def using a by (cases "A = 0") (auto simp: unat_gt_0)
  have "l < 2 ^ 32 - 1"
  proof -
    have "unat L \<noteq> unat (0xFFFFFFFF :: u32)" using lne by (simp only: word_unat_eq_iff not_False_eq_True)
    then show ?thesis using unat_u32_less [of L] l by (simp add: take_bit_eq_mod)
  qed
  moreover have "0 < l" by (simp add: l_def unat_gt_0)
  moreover have "a = l div 2 \<or> a < l" unfolding a_def by (cases "unat (d_t1_secs d) = 0 \<or> l \<le> unat (d_t1_secs d)") auto
  moreover have "l div 2 \<le> l" by simp
  ultimately have "a < 2 ^ 32 - 1" by linarith
  then have "a' < 2 ^ 32 - 1" unfolding a'_def by (cases "a = 0") simp_all
  then have s1: "unat (A' + 1) = a' + 1" using a' by (subst unat_add_lem [THEN iffD1]) (simp_all add: a')
  have "apply_lease_timers now d = d\<lparr>d_bound_ms := now, d_lease_secs := L, d_t1_secs := A',
      d_t2_secs := (if B \<le> A' then A' + 1 else B)\<rparr>"
    unfolding apply_lease_timers_def Let_def L_def [symmetric] A_def [symmetric] B_def [symmetric]
      A'_def [symmetric] using lne by simp
  then show ?thesis
    unfolding timers_of_def using l a' b s1 by (simp add: word_le_nat_alt)
qed

lemma timers_arith:
  assumes "0 < (l::nat)"
    and "a = (if x = 0 \<or> l \<le> x then l div 2 else x)"
    and "b = (if y = 0 \<or> y \<le> a \<or> l \<le> y then l - l div 8 else y)"
    and "a' = (if a = 0 then 1 else a)" and "b' = (if b \<le> a' then a' + 1 else b)"
  shows "0 < a' \<and> a' < b' \<and> (if l = 1 then b' = 2 else b' \<le> l) \<and>
    (if x = 0 \<and> y = 0 \<and> l \<noteq> 1 then a' = l div 2 \<and> b' = l - l div 8 else True)"
proof (cases "l = 1")
  case True
  then have l: "l \<le> x \<longleftrightarrow> x \<noteq> 0" "l \<le> y \<longleftrightarrow> y \<noteq> 0" by auto
  have a: "a = 0" using assms(2) unfolding l unfolding True by simp
  have b: "b = 1" using assms(3) unfolding l unfolding True by (cases "y = 0") simp_all
  have "a' = 1" using assms(4) a by simp
  moreover from this have "b' = 2" using assms(5) b by simp
  ultimately show ?thesis using True by simp
next
  case False
  have "a = l div 2 \<or> 0 < x \<and> x < l \<and> a = x" using assms(2) by (cases "x = 0 \<or> l \<le> x") auto
  then have al: "0 < a" "a < l" using assms(1) False by auto
  then have a': "a' = a" using assms(4) by simp
  have "b = l - l div 8 \<or> b < l" using assms(3) by (cases "y = 0 \<or> y \<le> a \<or> l \<le> y") auto
  then have "b \<le> l" by auto
  then have "b' \<le> l" "a < b'" using assms(5) al a' by (cases "b \<le> a'"; simp)+
  moreover have "a' = l div 2 \<and> b' = l - l div 8" if "x = 0" "y = 0"
  proof -
    have "a = l div 2" using that(1) assms(2) by simp
    moreover have "b = l - l div 8" using that(2) assms(3) by simp
    moreover have "l div 2 < l - l div 8"
    proof -
      have "2 * (l div 2) \<le> l" "8 * (l div 8) \<le> l" by simp_all
      with assms(1) show ?thesis by linarith
    qed
    ultimately show ?thesis using assms(5) a' by simp
  qed
  ultimately show ?thesis using al a' False by simp
qed

text \<open>
  The times set on every ACK are usable whatever the server sent in options 51, 58 and 59: a
  missing lease becomes 3600 s, an infinite one disables renewal, and otherwise
  \<open>0 < T1 < T2\<close> with \<open>T2\<close> within the lease (only a lease of one second gets \<open>T2 = 2\<close>, after
  its expiry). Without options 58 and 59 they are the RFC defaults of 50% and 87.5%. None of the
  32-bit operations wraps.
\<close>

theorem lease_timers_ordered:
  "let d' = apply_lease_timers now d;
       lease = unat (d_lease_secs d'); t1 = unat (d_t1_secs d'); t2 = unat (d_t2_secs d') in
   d_bound_ms d' = now \<and>
   (if d_lease_secs d = 0xFFFFFFFF then lease = 2 ^ 32 - 1 \<and> t1 = 0 \<and> t2 = 0
    else lease = (if d_lease_secs d = 0 then 3600 else unat (d_lease_secs d)) \<and>
      0 < t1 \<and> t1 < t2 \<and> (if lease = 1 then t2 = 2 else t2 \<le> lease) \<and>
      (if d_t1_secs d = 0 \<and> d_t2_secs d = 0 \<and> lease \<noteq> 1
       then t1 = lease div 2 \<and> t2 = lease - lease div 8 else True))"
proof (cases "d_lease_secs d = 0xFFFFFFFF")
  case True
  then show ?thesis by (simp add: apply_lease_timers_def take_bit_eq_mod)
next
  case False
  define l where "l = (if d_lease_secs d = 0 then 3600 else unat (d_lease_secs d))"
  have l: "0 < l" by (simp add: l_def unat_gt_0)
  define x y where "x = unat (d_t1_secs d)" and "y = unat (d_t2_secs d)"
  define a b where "a = (if x = 0 \<or> l \<le> x then l div 2 else x)"
    and "b = (if y = 0 \<or> y \<le> a \<or> l \<le> y then l - l div 8 else y)"
  define a' b' where "a' = (if a = 0 then 1 else a)" and "b' = (if b \<le> a' then a' + 1 else b)"
  have "timers_of (apply_lease_timers now d) = (l, a', b')"
    using apply_lease_timers_nat [OF False, of now]
    unfolding l_def [symmetric] x_def [symmetric] y_def [symmetric] a_def [symmetric] b_def [symmetric]
      a'_def [symmetric] b'_def [symmetric] .
  then have t: "unat (d_lease_secs (apply_lease_timers now d)) = l"
    "unat (d_t1_secs (apply_lease_timers now d)) = a'" "unat (d_t2_secs (apply_lease_timers now d)) = b'"
    by (simp_all add: timers_of_def)
  have z: "d_t1_secs d = 0 \<longleftrightarrow> x = 0" "d_t2_secs d = 0 \<longleftrightarrow> y = 0"
    by (simp_all add: x_def y_def unat_eq_zero)
  show ?thesis
    unfolding Let_def t z l_def [symmetric]
    using False timers_arith [OF l a_def b_def a'_def b'_def] by simp
qed

section \<open>The frames that are sent\<close>

definition request_options :: "at_dhcp \<Rightarrow> byte \<Rightarrow> buf" where
  "request_options d msg =
     [53, 1, msg, 55, 7, 0x01, 0x03, 0x06, 0x1c, 0x33, 0x3a, 0x3b] @
     (if msg = DHCP_REQUEST \<and> d_yiaddr d \<noteq> 0 \<and> d_state d \<noteq> ST_RENEWING \<and> d_state d \<noteq> ST_REBINDING
      then [50, 4] @ bytes32 (d_yiaddr d) @ (if d_server d \<noteq> 0 then [54, 4] @ bytes32 (d_server d) else [])
      else []) @ [255]"

definition bootp_ok :: "at_dhcp \<Rightarrow> byte \<Rightarrow> buf \<Rightarrow> bool" where
  "bootp_ok d msg b \<longleftrightarrow> length b = 548 \<and> field b 0 4 = [1, 1, 6, 0] \<and> field b 4 4 = bytes32 (d_xid d) \<and>
     field b 10 1 = [if d_state d = ST_RENEWING then 0 else 0x80] \<and>
     field b 12 4 = (if d_state d = ST_RENEWING \<or> d_state d = ST_REBINDING then bytes32 (d_yiaddr d)
                     else [0, 0, 0, 0]) \<and>
     field b 16 12 = replicate 12 0 \<and> field b 28 6 = d_mac d \<and>
     field b 236 4 = [0x63, 0x82, 0x53, 0x63] \<and>
     field b 240 308 = request_options d msg @ replicate (308 - length (request_options d msg)) 0"

lemma append_opt_eq:
  assumes "off = length pre" "length v = unat n" "off + 2 + unat n < cap" "2 + unat n \<le> m"
  shows "append_opt (pre @ replicate m 0) off cap t v n =
    Some (off + 2 + unat n, (pre @ [t, n] @ v) @ replicate (m - (2 + unat n)) 0)"
proof -
  have m: "replicate m (0::byte) = [0] @ [0] @ replicate (unat n) 0 @ replicate (m - (2 + unat n)) 0"
    unfolding replicate_add [symmetric] using assms(4) by (simp add: Suc_diff_le flip: replicate_Suc)
  have s1: "store_bytes (pre @ replicate m 0) off [t] =
      Some (pre @ [t] @ [0] @ replicate (unat n) 0 @ replicate (m - (2 + unat n)) 0)"
    unfolding m by (subst store_bytes_append) (simp_all add: assms(1))
  have s2: "store_bytes (pre @ [t] @ [0] @ r) (off + 1) [n] = Some (pre @ [t] @ [n] @ r)" for r
    using store_bytes_append [of "pre @ [t]" "off + 1" "[0]" "[n]" r] assms(1) by simp
  have s3: "store_bytes (pre @ [t] @ [n] @ replicate (unat n) 0 @ r) (off + 2) v = Some (pre @ [t] @ [n] @ v @ r)" for r
    using store_bytes_append [of "pre @ [t, n]" "off + 2" "replicate (unat n) 0" v r] assms(1,2) by simp
  have v: "load_bytes v 0 (unat n) = Some v" using assms(2) by (simp add: load_bytes_def)
  have z: "n = 0 \<Longrightarrow> v = []" using assms(2) by simp
  show ?thesis
    unfolding append_opt_def s1 using assms(3) z by (auto simp: s2 s3 v simp del: append_Cons One_nat_def add_2_eq_Suc add_2_eq_Suc')
qed

lemma length_request_options:
  "length (request_options d msg) \<le> 25"
  by (simp add: request_options_def)

text \<open>The option area: every option fits, and the END marker follows the last one.\<close>

definition opt_head :: "byte \<Rightarrow> buf" where
  "opt_head msg = [53, 1, msg] @ [55, 7, 0x01, 0x03, 0x06, 0x1c, 0x33, 0x3a, 0x3b]"

lemma length_opt_head [simp]: "length (opt_head msg) = 12"
  by (simp add: opt_head_def)

lemma append_request_options:
  "append_opt (replicate 308 0) 0 308 53 [msg] 1 = Some (3, [53, 1, msg] @ replicate 305 0)"
  "append_opt ([53, 1, msg] @ replicate 305 0) 3 308 55 [0x01, 0x03, 0x06, 0x1c, 0x33, 0x3a, 0x3b] 7 =
     Some (12, opt_head msg @ replicate 296 0)"
  "append_opt (opt_head msg @ replicate 296 0) 12 308 50 (bytes32 yi) 4 =
     Some (18, (opt_head msg @ [50, 4] @ bytes32 yi) @ replicate 290 0)"
  "append_opt ((opt_head msg @ [50, 4] @ bytes32 yi) @ replicate 290 0) 18 308 54 (bytes32 sv) 4 =
     Some (24, (opt_head msg @ [50, 4] @ bytes32 yi @ [54, 4] @ bytes32 sv) @ replicate 284 0)"
  using append_opt_eq [of 0 "[]" "[msg]" 1 308 308 53]
    append_opt_eq [of 3 "[53, 1, msg]" "[0x01, 0x03, 0x06, 0x1c, 0x33, 0x3a, 0x3b]" 7 308 305 55]
    append_opt_eq [of 12 "opt_head msg" "bytes32 yi" 4 308 296 50]
    append_opt_eq [of 18 "opt_head msg @ [50, 4] @ bytes32 yi" "bytes32 sv" 4 308 290 54]
  by (simp_all add: opt_head_def)

lemma end_option:
  "off = length (pre :: buf) \<Longrightarrow> 0 < m \<Longrightarrow>
   store_bytes (pre @ replicate m 0) off [255] = Some (pre @ [255] @ replicate (m - 1) 0)"
  using store_bytes_append [of pre off "[0::byte]" "[255]" "replicate (m - 1) 0"]
  by (simp flip: replicate_Suc)

lemma request_options_eq:
  "request_options d msg = opt_head msg @
     (if msg = DHCP_REQUEST \<and> d_yiaddr d \<noteq> 0 \<and> d_state d \<noteq> ST_RENEWING \<and> d_state d \<noteq> ST_REBINDING
      then [50, 4] @ bytes32 (d_yiaddr d) @ (if d_server d \<noteq> 0 then [54, 4] @ bytes32 (d_server d) else [])
      else []) @ [255]"
  by (simp add: request_options_def opt_head_def)

lemma build_bootp_spec:
  assumes mac: "length (d_mac d) = 6"
  obtains b where "build_bootp d msg (replicate 548 0) = Some (300, b)" "bootp_ok d msg b"
proof -
  let ?ren = "d_state d = ST_RENEWING" and ?reb = "d_state d = ST_REBINDING"
  define b1 where "b1 = splice_at (replicate 548 (0::byte)) 0 [1, 1, 6]"
  define b2 where "b2 = splice_at b1 4 (bytes32 (d_xid d))"
  define b3 where "b3 = (if ?ren \<or> ?reb then splice_at b2 12 (bytes32 (d_yiaddr d)) else b2)"
  define b4 where "b4 = (if \<not> ?ren then splice_at b3 10 [0x80] else b3)"
  define b5 where "b5 = splice_at b4 28 (d_mac d)"
  define b6 where "b6 = splice_at b5 236 (bytes32 (htonl DHCP_COOKIE))"
  have len: "length b1 = 548" "length b2 = 548" "length b3 = 548" "length b4 = 548" "length b5 = 548" "length b6 = 548"
    by (simp_all add: b1_def b2_def b3_def b4_def b5_def b6_def mac del: splice_at_zero)
  have st: "store_bytes (replicate 548 0) 0 [1, 1, 6] = Some b1"
    "store_bytes b1 4 (bytes32 (d_xid d)) = Some b2"
    "(if ?ren \<or> ?reb then store_bytes b2 12 (bytes32 (d_yiaddr d)) else Some b2) = Some b3"
    "(if \<not> ?ren then store_bytes b3 10 [0x80] else Some b3) = Some b4"
    "load_bytes (d_mac d) 0 6 = Some (d_mac d)" "store_bytes b4 28 (d_mac d) = Some b5"
    "store_bytes b5 236 (bytes32 (htonl DHCP_COOKIE)) = Some b6"
    by (simp_all add: store_bytes_def load_bytes_def mac len b1_def b2_def b3_def b4_def b5_def b6_def
        del: splice_at_zero)
  have f1: "field b1 j n = (if j + n \<le> 548 then replicate n 0 else field b1 j n)" if "3 \<le> j" for j n
    using that by (simp add: b1_def field_splice_other del: splice_at_zero)
  have f2: "field b2 j n = field b1 j n" if "j + n \<le> 4 \<or> 8 \<le> j" for j n
    using that by (simp add: b2_def field_splice_other len)
  have f3: "field b3 j n = field b2 j n" if "j + n \<le> 12 \<or> 16 \<le> j" for j n
    using that by (simp add: b3_def field_splice_other len)
  have f4: "field b4 j n = field b3 j n" if "j + n \<le> 10 \<or> 11 \<le> j" for j n
    using that by (simp add: b4_def field_splice_other len)
  have f5: "field b5 j n = field b4 j n" if "j + n \<le> 28 \<or> 34 \<le> j" for j n
    using that by (simp add: b5_def field_splice_other len mac)
  have f6: "field b6 j n = field b5 j n" if "j + n \<le> 236 \<or> 240 \<le> j" for j n
    using that by (simp add: b6_def field_splice_other len)
  have opts: "field b6 240 308 = replicate 308 0"
    by (simp add: f6 f5 f4 f3 f2) (subst f1, simp_all)
  define opt where "opt = request_options d msg @ replicate (308 - length (request_options d msg)) 0"
  have lo: "length opt = 308" using length_request_options [of d msg] by (simp add: opt_def)
  define b where "b = splice_at b6 240 opt"
  have lb: "length b = 548" by (simp add: b_def len lo)
  have fin: "store_bytes b6 240 opt = Some b" by (simp add: store_bytes_def b_def len lo)
  have ends: "store_bytes (opt_head msg @ replicate 296 0) 12 [255] = Some (opt_head msg @ [255] @ replicate 295 0)"
    "store_bytes ((opt_head msg @ [50, 4] @ bytes32 (d_yiaddr d)) @ replicate 290 0) 18 [255] =
       Some ((opt_head msg @ [50, 4] @ bytes32 (d_yiaddr d)) @ [255] @ replicate 289 0)"
    "store_bytes ((opt_head msg @ [50, 4] @ bytes32 (d_yiaddr d) @ [54, 4] @ bytes32 (d_server d)) @ replicate 284 0) 24 [255] =
       Some ((opt_head msg @ [50, 4] @ bytes32 (d_yiaddr d) @ [54, 4] @ bytes32 (d_server d)) @ [255] @ replicate 283 0)"
    by (simp_all only: end_option length_append length_opt_head length_bytes32 length_Cons list.size) simp_all
  have "\<exists>off P. (if msg = DHCP_REQUEST \<and> d_yiaddr d \<noteq> 0 \<and> \<not> ?ren \<and> \<not> ?reb then do {
       (off, opt) \<leftarrow> append_opt (opt_head msg @ replicate 296 0) 12 308 50 (bytes32 (d_yiaddr d)) 4;
       (if d_server d \<noteq> 0 then append_opt opt off 308 54 (bytes32 (d_server d)) 4 else Some (off, opt)) }
     else Some (12, opt_head msg @ replicate 296 0)) = Some (off, P) \<and> off < 30 \<and> store_bytes P off [255] = Some opt"
  proof -
    let ?c = "msg = DHCP_REQUEST \<and> d_yiaddr d \<noteq> 0 \<and> \<not> ?ren \<and> \<not> ?reb"
    consider "\<not> ?c" | "?c" "d_server d = 0" | "?c" "d_server d \<noteq> 0" by blast
    then show ?thesis
    proof cases
      case 1
      then have "opt = opt_head msg @ [255] @ replicate 295 0" by (auto simp: opt_def request_options_eq)
      then show ?thesis unfolding if_not_P [OF 1] by (simp add: ends)
    next
      case 2
      then have o: "opt = (opt_head msg @ [50, 4] @ bytes32 (d_yiaddr d)) @ [255] @ replicate 289 0"
        by (simp add: opt_def request_options_eq)
      show ?thesis unfolding if_P [OF 2(1)] append_request_options ends o
        using 2(2) ends(2) by simp
    next
      case 3
      then have o: "opt = (opt_head msg @ [50, 4] @ bytes32 (d_yiaddr d) @ [54, 4] @ bytes32 (d_server d)) @ [255] @ replicate 283 0"
        by (simp add: opt_def request_options_eq)
      show ?thesis unfolding if_P [OF 3(1)] append_request_options o
        by (simp only: bind.bind_lunit prod.case 3(2) not_False_eq_True if_True append_request_options)
          (use ends(3) in simp)
    qed
  qed
  then obtain off P where P: "(if msg = DHCP_REQUEST \<and> d_yiaddr d \<noteq> 0 \<and> \<not> ?ren \<and> \<not> ?reb then do {
       (off, opt) \<leftarrow> append_opt (opt_head msg @ replicate 296 0) 12 308 50 (bytes32 (d_yiaddr d)) 4;
       (if d_server d \<noteq> 0 then append_opt opt off 308 54 (bytes32 (d_server d)) 4 else Some (off, opt)) }
     else Some (12, opt_head msg @ replicate 296 0)) = Some (off, P)" "off < 30" "store_bytes P off [255] = Some opt"
    by blast
  have z: "store_bytes (replicate 548 0) 0 (replicate 548 0) = Some (replicate 548 (0::byte))"
    by (simp add: store_bytes_def)
  have l: "load_bytes b6 240 308 = Some (replicate 308 0)"
    using opts by (simp add: load_bytes_field len)
  have e: "(548::nat) - 240 = 308" by simp
  have build: "build_bootp d msg (replicate 548 0) = Some (300, b)"
    unfolding build_bootp_def Let_def length_replicate z bind.bind_lunit st e
    using P by (simp add: l fin append_request_options append_request_options(2) [simplified])
  have low: "field b j n = field b6 j n" if "j + n \<le> 240" for j n
    using that by (simp add: b_def field_splice_other len lo)
  have "field b 0 4 = [1, 1, 6, 0]"
    by (simp add: low f6 f5 f4 f3 f2) (simp add: b1_def field_def take_Cons')
  moreover have "field b 4 4 = bytes32 (d_xid d)"
    by (simp add: low f6 f5 f4 f3) (simp add: b2_def field_splice_same len)
  moreover have "field b 10 1 = [if ?ren then 0 else 0x80]"
    by (simp add: low f6 f5) (simp add: b4_def field_splice_same len f3 f2 f1 del: One_nat_def)
  moreover have "field b 12 4 = (if ?ren \<or> ?reb then bytes32 (d_yiaddr d) else [0, 0, 0, 0])"
    by (simp add: low f6 f5 f4) (simp add: b3_def field_splice_same len f2 f1 numeral_eq_Suc del: One_nat_def)
  moreover have "field b 16 12 = replicate 12 0"
    by (simp add: low f6 f5 f4 f3 f2) (subst f1, simp_all)
  moreover have "field b 28 6 = d_mac d"
    by (simp add: low f6) (simp add: b5_def field_splice_same len mac)
  moreover have "field b 236 4 = [0x63, 0x82, 0x53, 0x63]"
    by (simp add: low) (simp add: b6_def field_splice_same len ntohl_def)
  moreover have "field b 240 308 = opt"
    by (simp add: b_def field_splice_same len lo)
  ultimately have "bootp_ok d msg b" by (simp add: bootp_ok_def lb opt_def)
  with build show ?thesis by (rule that)
qed

text \<open>The bytes the UDP checksum covers: the pseudo header and the datagram.\<close>

definition udp_pseudo :: "buf \<Rightarrow> nat \<Rightarrow> buf" where
  "udp_pseudo eth udp_len = (field eth 26 4 @ field eth 30 4 @
     [0, 17, hi8 (of_nat udp_len), lo8 (of_nat udp_len)]) @ field eth 34 udp_len"

lemma udp_pseudo_checksum_eq:
  assumes "34 + n \<le> length eth" "n \<le> 1024"
  shows "udp_pseudo_checksum eth n = Some (at_ip_checksum (udp_pseudo eth n))"
proof -
  define a b u where "a = field eth 26 4" and "b = field eth 30 4" and "u = field eth 34 n"
  define w where "w = [hi8 (of_nat n), lo8 (of_nat n)]"
  have len: "length a = 4" "length b = 4" "length u = n" "length w = 2"
    using assms by (simp_all add: a_def b_def u_def w_def)
  have ld: "load_bytes eth 26 4 = Some a" "load_bytes eth 30 4 = Some b" "load_bytes eth 34 n = Some u"
    using assms by (simp_all add: load_bytes_field a_def b_def u_def)
  define r where "r = replicate (1032 - n) (0::byte)"
  have z: "replicate 1044 (0::byte) = replicate 4 0 @ replicate 4 0 @ [0] @ [0] @ [0, 0] @ replicate n 0 @ r"
  proof -
    have o: "[0::byte] = replicate 1 0" "[0, 0::byte] = replicate 2 0" by (simp_all add: numeral_2_eq_2)
    have "replicate 1044 (0::byte) = replicate (4 + (4 + (1 + (1 + (2 + (n + (1032 - n))))))) 0"
      using assms(2) by simp
    then show ?thesis unfolding o(2) unfolding o(1) r_def by (simp only: replicate_add)
  qed
  have z0: "store_bytes (replicate 1044 0) 0 (replicate 1044 0) = Some (replicate 1044 (0::byte))"
    by (simp add: store_bytes_def)
  have s1: "store_bytes (replicate 1044 0) 0 a =
      Some (a @ replicate 4 0 @ [0] @ [0] @ [0, 0] @ replicate n 0 @ r)"
    unfolding z using store_bytes_append [of "[]" 0 "replicate 4 0" a] len by simp
  have s2: "store_bytes (a @ replicate 4 0 @ [0] @ q) 4 b = Some (a @ b @ [0] @ q)" for q
    by (rule store_bytes_append) (simp_all add: len)
  have s3: "store_bytes (a @ b @ [0] @ [0] @ q) 9 [17] = Some (a @ b @ [0] @ [17] @ q)" for q
    using store_bytes_append [of "a @ b @ [0]" 9 "[0]" "[17]" q] len by simp
  have s4: "store_bytes (a @ b @ [0] @ [17] @ [0, 0] @ q) 10 w = Some (a @ b @ [0] @ [17] @ w @ q)" for q
    using store_bytes_append [of "a @ b @ [0] @ [17]" 10 "[0, 0]" w q] len by simp
  have s5: "store_bytes (a @ b @ [0] @ [17] @ w @ replicate n 0 @ r) 12 u = Some (a @ b @ [0] @ [17] @ w @ u @ r)"
    using store_bytes_append [of "a @ b @ [0] @ [17] @ w" 12 "replicate n 0" u r] len by simp
  have s6: "load_bytes (a @ b @ [0] @ [17] @ w @ u @ r) 0 (12 + n) = Some (a @ b @ [0] @ [17] @ w @ u)"
    using load_bytes_prefix [of "a @ b @ [0] @ [17] @ w @ u" "12 + n" r] len by simp
  have "udp_pseudo eth n = a @ b @ [0] @ [17] @ w @ u"
    by (simp add: udp_pseudo_def a_def b_def u_def w_def)
  then show ?thesis
    unfolding udp_pseudo_checksum_def z0 ld bind.bind_lunit s1 s2 s3 w_def [symmetric] s4 s5 s6
    by simp
qed

definition udp_frame_ok :: "buf \<Rightarrow> u32 \<Rightarrow> u32 \<Rightarrow> buf \<Rightarrow> buf \<Rightarrow> bool" where
  "udp_frame_ok mac src dst p eth \<longleftrightarrow>
     field eth 0 6 = replicate 6 0xff \<and> field eth 6 6 = mac \<and> field eth 12 2 = [0x08, 0x00] \<and>
     field eth 14 1 = [0x45] \<and>
     field eth 16 2 = [hi8 (of_nat (28 + length p)), lo8 (of_nat (28 + length p))] \<and>
     field eth 20 2 = [0, 0] \<and> field eth 22 1 = [64] \<and> field eth 23 1 = [17] \<and>
     field eth 26 4 = bytes32 src \<and> field eth 30 4 = bytes32 dst \<and>
     field eth 34 6 = [0, 68, 0, 67, hi8 (of_nat (8 + length p)), lo8 (of_nat (8 + length p))] \<and>
     field eth 42 (length p) = p \<and>
     at_ip_checksum (field eth 14 20) = 0 \<and>
     at_ip_checksum (udp_pseudo eth (8 + length p)) = 0"

lemma field_nth: "k < n \<Longrightarrow> i + n \<le> length b \<Longrightarrow> field b i n ! k = b ! (i + k)"
  by (simp add: field_def)

lemma field_splice_inner:
  "i \<le> k \<Longrightarrow> k + length v \<le> i + n \<Longrightarrow> i + n \<le> length b \<Longrightarrow>
   field (splice_at b k v) i n = splice_at (field b i n) (k - i) v"
  by (rule nth_equalityI) (auto simp: field_nth nth_splice_at add.commute)

lemma nsum16_pos: "i < length p \<Longrightarrow> p ! i \<noteq> 0 \<Longrightarrow> nsum16 p \<noteq> 0"
proof (induction p arbitrary: i rule: nsum16.induct)
  case (1 a b p)
  then consider "i = 0" | "i = 1" | j where "i = Suc (Suc j)" by (metis One_nat_def not0_implies_Suc)
  then show ?case
    using 1 by cases (auto simp: unat_eq_zero)
qed (auto simp: unat_eq_zero)

lemma field2: "k + 2 \<le> length b \<Longrightarrow> field b k 2 = [b ! k, b ! (k + 1)]"
  by (simp add: field_def take2_drop)

lemma field1: "k + 1 \<le> length b \<Longrightarrow> field b k 1 = [b ! k]"
  by (simp add: field_def take_Suc hd_drop_conv_nth)

lemma encapsulate_spec:
  assumes mac: "length mac = 6" and p: "8 + length p \<le> 1024" "take n bootp = p" "length p = n"
    and cap: "42 + n \<le> length eth"
  obtains eth' where "encapsulate_udp_ip_eth mac src dst bootp n eth = Some (42 + n, eth')"
    "length eth' = length eth" "drop (42 + n) eth' = drop (42 + n) eth" "udp_frame_ok mac src dst p eth'"
proof -
  define L where "L = [hi8 (of_nat (28 + n)), lo8 (of_nat (28 + n))]"
  define U where "U = [0::byte, 68, 0, 67, hi8 (of_nat (8 + n)), lo8 (of_nat (8 + n)), 0, 0]"
  have LU: "length L = 2" "length U = 8" by (simp_all add: L_def U_def)
  define e1 where "e1 = splice_at eth 0 (replicate 6 0xff)"
  define e2 where "e2 = splice_at e1 6 mac"
  define e3 where "e3 = splice_at e2 12 [0x08, 0x00]"
  define e4 where "e4 = splice_at e3 14 (replicate 20 0)"
  define e5 where "e5 = splice_at e4 14 [0x45]"
  define e6 where "e6 = splice_at e5 16 L"
  define e7 where "e7 = splice_at e6 22 [64]"
  define e8 where "e8 = splice_at e7 23 [17]"
  define e9 where "e9 = splice_at e8 26 (bytes32 src)"
  define e10 where "e10 = splice_at e9 30 (bytes32 dst)"
  define h where "h = at_ip_checksum (field e10 14 20)"
  define e11 where "e11 = splice_at e10 24 [hi8 h, lo8 h]"
  define e12 where "e12 = splice_at e11 34 U"
  define e13 where "e13 = splice_at e12 42 p"
  define u where "u = at_ip_checksum (udp_pseudo e13 (8 + n))"
  define w where "w = (if u = 0 then 0xffff else u)"
  define e14 where "e14 = splice_at e13 40 [hi8 w, lo8 w]"
  note defs = e1_def e2_def e3_def e4_def e5_def e6_def e7_def e8_def e9_def e10_def e11_def e12_def e13_def e14_def
  have cap': "length eth \<ge> 42" using cap by simp
  have l1: "length e1 = length eth" using cap by (simp add: e1_def mac p(3) LU del: splice_at_zero)
  have l2: "length e2 = length eth" using cap by (simp add: e2_def l1 mac p(3) LU del: splice_at_zero)
  have l3: "length e3 = length eth" using cap by (simp add: e3_def l2 mac p(3) LU del: splice_at_zero)
  have l4: "length e4 = length eth" using cap by (simp add: e4_def l3 mac p(3) LU del: splice_at_zero)
  have l5: "length e5 = length eth" using cap by (simp add: e5_def l4 mac p(3) LU del: splice_at_zero)
  have l6: "length e6 = length eth" using cap by (simp add: e6_def l5 mac p(3) LU del: splice_at_zero)
  have l7: "length e7 = length eth" using cap by (simp add: e7_def l6 mac p(3) LU del: splice_at_zero)
  have l8: "length e8 = length eth" using cap by (simp add: e8_def l7 mac p(3) LU del: splice_at_zero)
  have l9: "length e9 = length eth" using cap by (simp add: e9_def l8 mac p(3) LU del: splice_at_zero)
  have l10: "length e10 = length eth" using cap by (simp add: e10_def l9 mac p(3) LU del: splice_at_zero)
  have l11: "length e11 = length eth" using cap by (simp add: e11_def l10 mac p(3) LU del: splice_at_zero)
  have l12: "length e12 = length eth" using cap by (simp add: e12_def l11 mac p(3) LU del: splice_at_zero)
  have l13: "length e13 = length eth" using cap by (simp add: e13_def l12 mac p(3) LU del: splice_at_zero)
  have l14: "length e14 = length eth" using cap by (simp add: e14_def l13 mac p(3) LU del: splice_at_zero)
  note len = l1 l2 l3 l4 l5 l6 l7 l8 l9 l10 l11 l12 l13 l14
  have st: "store_bytes eth 0 (replicate 6 0xff) = Some e1" "store_bytes e1 6 mac = Some e2"
    "store_bytes e2 12 [0x08, 0x00] = Some e3" "store_bytes e3 14 (replicate 20 0) = Some e4"
    "store_bytes e4 14 [0x45] = Some e5" "store_bytes e5 16 L = Some e6" "store_bytes e6 22 [64] = Some e7"
    "store_bytes e7 23 [17] = Some e8" "store_bytes e8 26 (bytes32 src) = Some e9"
    "store_bytes e9 30 (bytes32 dst) = Some e10" "store_bytes e10 24 [hi8 h, lo8 h] = Some e11"
    "store_bytes e11 34 U = Some e12" "store_bytes e12 42 p = Some e13" "store_bytes e13 40 [hi8 w, lo8 w] = Some e14"
    "load_bytes e10 14 20 = Some (field e10 14 20)" "load_bytes mac 0 6 = Some mac"
    using cap by (simp_all add: store_bytes_def load_bytes_field mac p(3) len LU defs [symmetric]
        del: splice_at_zero)
  have lb: "load_bytes bootp 0 n = Some p" using p(2,3) by (auto simp: load_bytes_def)
  have ps: "udp_pseudo_checksum e13 (8 + n) = Some u"
    unfolding u_def using p(1,3) cap by (intro udp_pseudo_checksum_eq) (simp_all add: len)
  have "hi8 68 = 0" "lo8 68 = 68" "hi8 67 = 0" "lo8 67 = 67" by (simp_all add: hi8_def lo8_def)
  moreover have "[hi8 (28 + of_nat n), lo8 (28 + of_nat n)] = L"
    "[0, 68, 0, 67, hi8 (8 + of_nat n), lo8 (8 + of_nat n), 0, 0] = U" by (simp_all add: L_def U_def)
  ultimately have "encapsulate_udp_ip_eth mac src dst bootp n eth = Some (14 + (20 + (8 + n)), e14)"
    unfolding encapsulate_udp_ip_eth_def Let_def
    using cap p(1,3) by (simp add: st lb ps h_def [symmetric] w_def [symmetric])
  then have run: "encapsulate_udp_ip_eth mac src dst bootp n eth = Some (42 + n, e14)" by simp
  have f2: "field e2 j m = field e1 j m" if "j + m \<le> 6 \<or> 12 \<le> j" for j m
    using that cap by (simp add: e2_def field_splice_other l1 mac p(3) LU)
  have f3: "field e3 j m = field e2 j m" if "j + m \<le> 12 \<or> 14 \<le> j" for j m
    using that cap by (simp add: e3_def field_splice_other l2 mac p(3) LU)
  have f4: "field e4 j m = field e3 j m" if "j + m \<le> 14 \<or> 34 \<le> j" for j m
    using that cap by (simp add: e4_def field_splice_other l3 mac p(3) LU)
  have f5: "field e5 j m = field e4 j m" if "j + m \<le> 14 \<or> 15 \<le> j" for j m
    using that cap by (simp add: e5_def field_splice_other l4 mac p(3) LU)
  have f6: "field e6 j m = field e5 j m" if "j + m \<le> 16 \<or> 18 \<le> j" for j m
    using that cap by (simp add: e6_def field_splice_other l5 mac p(3) LU)
  have f7: "field e7 j m = field e6 j m" if "j + m \<le> 22 \<or> 23 \<le> j" for j m
    using that cap by (simp add: e7_def field_splice_other l6 mac p(3) LU)
  have f8: "field e8 j m = field e7 j m" if "j + m \<le> 23 \<or> 24 \<le> j" for j m
    using that cap by (simp add: e8_def field_splice_other l7 mac p(3) LU)
  have f9: "field e9 j m = field e8 j m" if "j + m \<le> 26 \<or> 30 \<le> j" for j m
    using that cap by (simp add: e9_def field_splice_other l8 mac p(3) LU)
  have f10: "field e10 j m = field e9 j m" if "j + m \<le> 30 \<or> 34 \<le> j" for j m
    using that cap by (simp add: e10_def field_splice_other l9 mac p(3) LU)
  have f11: "field e11 j m = field e10 j m" if "j + m \<le> 24 \<or> 26 \<le> j" for j m
    using that cap by (simp add: e11_def field_splice_other l10 mac p(3) LU)
  have f12: "field e12 j m = field e11 j m" if "j + m \<le> 34 \<or> 42 \<le> j" for j m
    using that cap by (simp add: e12_def field_splice_other l11 mac p(3) LU)
  have f13: "field e13 j m = field e12 j m" if "j + m \<le> 42 \<or> 42 + length p \<le> j" for j m
    using that cap by (simp add: e13_def field_splice_other l12 mac p(3) LU)
  have f14: "field e14 j m = field e13 j m" if "j + m \<le> 40 \<or> 42 \<le> j" for j m
    using that cap by (simp add: e14_def field_splice_other l13 mac p(3) LU)
  have sm: "field e1 0 6 = replicate 6 0xff" "field e2 6 6 = mac" "field e3 12 2 = [0x08, 0x00]"
    "field e5 14 1 = [0x45]" "field e6 16 2 = L" "field e7 22 1 = [64]" "field e8 23 1 = [17]"
    "field e9 26 4 = bytes32 src" "field e10 30 4 = bytes32 dst"
    "field e13 42 n = p"
    using cap by (simp_all add: e1_def e2_def e3_def e5_def e6_def e7_def e8_def e9_def e10_def e13_def
        field_splice_same l1 l2 l4 l5 l6 l7 l8 l9 l12 mac p(3) LU del: splice_at_zero One_nat_def)
  have z20: "field e4 20 2 = [0, 0]" and z24: "field e4 24 2 = [0, 0]"
    using cap by (simp_all add: e4_def field_splice_within l3 numeral_2_eq_2)
  have u34: "field e12 34 6 = take 6 U" and u40: "field e12 40 2 = [0, 0]"
    using cap by (simp_all add: e12_def field_splice_within l11 LU) (simp_all add: field_def U_def)
  have f1: "field e1 j m = field eth j m" if "6 \<le> j" for j m
    using that cap by (simp add: e1_def field_splice_other del: splice_at_zero)
  have "field e14 (42 + n) m = field eth (42 + n) m" for m
    by (simp add: f14 f13 f12 f11 f10 f9 f8 f7 f6 f5 f4 f3 f2 f1 p(3))
  from this [of "length eth"] have tail: "drop (42 + n) e14 = drop (42 + n) eth"
    by (simp add: field_def l14)
  have ipz: "field_zero (field e10 14 20) 10"
  proof -
    have "field (field e10 14 20) 10 2 = [0, 0]"
      by (simp add: field_field f10 f9 f8 f7 f6 f5 z24)
    then show ?thesis using cap by (simp add: field2 l10 field_zero_def)
  qed
  have ip0: "field e10 14 20 ! 0 \<noteq> 0"
  proof -
    have "field (field e10 14 20) 0 1 = [0x45]"
      by (simp add: field_field f10 f9 f8 f7 f6 sm del: One_nat_def)
    then show ?thesis using cap by (simp add: field1 l10 del: One_nat_def)
  qed
  have "field e14 14 20 = splice_at (field e10 14 20) 10 [hi8 h, lo8 h]"
    using cap by (simp add: f14 f13 f12) (simp add: e11_def field_splice_inner l10)
  then have ipc: "at_ip_checksum (field e14 14 20) = 0"
    using filled_checksum_verifies [OF _ _ ipz] nsum16_pos [OF _ ip0] cap by (simp add: h_def l10)
  have "udp_pseudo e14 (8 + n) = splice_at (udp_pseudo e13 (8 + n)) 18 [hi8 w, lo8 w]"
  proof -
    have "field e14 34 (8 + n) = splice_at (field e13 34 (8 + n)) 6 [hi8 w, lo8 w]"
      using cap by (simp add: e14_def field_splice_inner l13)
    then show ?thesis using cap
      by (simp add: udp_pseudo_def f14 splice_at_def l13 min_def)
  qed
  moreover have "field_zero (udp_pseudo e13 (8 + n)) 18"
  proof -
    have "field (field e13 34 (8 + n)) 6 2 = [0, 0]"
      by (simp add: field_field f13 u40)
    then have "field e13 34 (8 + n) ! 6 = 0" "field e13 34 (8 + n) ! 7 = 0"
      using cap by (simp_all add: field2 l13)
    then show ?thesis using cap by (simp add: field_zero_def udp_pseudo_def nth_append l13)
  qed
  moreover have "udp_pseudo e13 (8 + n) ! 9 \<noteq> 0" "length (udp_pseudo e13 (8 + n)) = 20 + n"
    using cap by (simp_all add: udp_pseudo_def nth_append l13)
  moreover have w: "w = (if at_ip_checksum (udp_pseudo e13 (8 + n)) = 0 then 0xffff
      else at_ip_checksum (udp_pseudo e13 (8 + n)))" by (simp add: w_def u_def)
  ultimately have udc: "at_ip_checksum (udp_pseudo e14 (8 + n)) = 0"
    using filled_udp_checksum_verifies [OF _ _ _ _ _ w, of 18] nsum16_pos [of 9 "udp_pseudo e13 (8 + n)"] p(1,3)
    by simp
  have "udp_frame_ok mac src dst p e14"
    unfolding udp_frame_ok_def p(3) using ipc udc
    by (simp add: f14 f13 f12 f11 f10 f9 f8 f7 f6 f5 f4 f3 f2 sm z20 u34 U_def L_def p(3) del: One_nat_def)
  with run l14 tail show ?thesis by (rule that)
qed

section \<open>When a frame is sent\<close>

definition tx_due :: "u64 \<Rightarrow> at_dhcp \<Rightarrow> bool" where
  "tx_due now d \<longleftrightarrow> d_state d \<noteq> ST_BOUND \<and> \<not> (d_lease_secs d = DHCP_LEASE_INFINITE \<and> lease_active d) \<and>
     \<not> ((tv_sec (d_last_tx d) \<noteq> 0 \<or> tv_usec (d_last_tx d) \<noteq> 0) \<and>
        now < tv_ms (d_last_tx d) + of_int (d_backoff_ms d))"

definition tx_msg :: "at_dhcp \<Rightarrow> byte" where
  "tx_msg d = (if d_state d = ST_REQUESTING \<or> d_state d = ST_RENEWING \<or> d_state d = ST_REBINDING
     then DHCP_REQUEST else DHCP_DISCOVER)"

definition tx_src :: "at_dhcp \<Rightarrow> u32" where
  "tx_src d = (if d_state d = ST_RENEWING \<or> d_state d = ST_REBINDING then d_yiaddr d else 0)"

definition tx_dst :: "at_dhcp \<Rightarrow> u32" where
  "tx_dst d = (if d_state d = ST_RENEWING \<and> d_server d \<noteq> 0 then d_server d else 0xffffffff)"

definition tx_sent :: "timeval \<Rightarrow> at_dhcp \<Rightarrow> at_dhcp" where
  "tx_sent tv d = d\<lparr>d_last_tx := tv, d_state := (if d_state d = ST_INIT then ST_SELECTING else d_state d),
     d_backoff_ms := (if d_backoff_ms d < 4000 then d_backoff_ms d * 2 else 8000)\<rparr>"

definition dhcp_frame_ok :: "at_dhcp \<Rightarrow> buf \<Rightarrow> bool" where
  "dhcp_frame_ok d eth \<longleftrightarrow> 342 \<le> length eth \<and>
     (\<exists>b. bootp_ok d (tx_msg d) b \<and> udp_frame_ok (d_mac d) (tx_src d) (tx_dst d) (take 300 b) eth)"

lemma advance_core [simp]:
  "d_mac (advance_renew_state now d) = d_mac d" "d_xid (advance_renew_state now d) = d_xid d"
  "d_dns_n (advance_renew_state now d) = d_dns_n d"
  by (simp_all add: advance_renew_state_def reset_select_def Let_def)

lemma tx_sent_frame: "dhcp_frame_ok (tx_sent tv d) eth = dhcp_frame_ok d eth"
  by (simp add: dhcp_frame_ok_def tx_sent_def bootp_ok_def request_options_def tx_msg_def tx_src_def tx_dst_def)

text \<open>\<open>want_tx\<close> in one equation: the only choices are whether a frame is due and whether it fits.\<close>

lemma want_tx_spec:
  assumes mac: "length (d_mac d) = 6"
    and d1_def: "d1 = advance_renew_state now d"
  obtains (idle) "\<not> tx_due now d1 \<or> length eth < 342" "at_dhcp_want_tx now tv d eth = Some (0, d1, eth)"
  | (sent) eth' where "tx_due now d1" "342 \<le> length eth"
      "at_dhcp_want_tx now tv d eth = Some (342, tx_sent tv d1, eth')"
      "length eth' = length eth" "drop 342 eth' = drop 342 eth" "dhcp_frame_ok d1 eth'"
proof (cases "tx_due now d1")
  case False
  then have "at_dhcp_want_tx now tv d eth = Some (0, d1, eth)"
    by (auto simp: at_dhcp_want_tx_def Let_def d1_def [symmetric] tx_due_def)
  with False show ?thesis by (intro idle) auto
next
  case True
  have mac1: "length (d_mac d1) = 6" by (simp add: d1_def mac)
  obtain b where b: "build_bootp d1 (tx_msg d1) (replicate 548 0) = Some (300, b)" "bootp_ok d1 (tx_msg d1) b"
    using build_bootp_spec [OF mac1] by blast
  have lb: "length (take 300 b) = 300" using b(2) by (simp add: bootp_ok_def)
  have run: "at_dhcp_want_tx now tv d eth =
      encapsulate_udp_ip_eth (d_mac d1) (tx_src d1) (tx_dst d1) b 300 eth \<bind>
        (\<lambda>(n, eth). if n = 0 then Some (0, d1, eth) else Some (n, tx_sent tv d1, eth))"
    unfolding at_dhcp_want_tx_def Let_def d1_def [symmetric]
    using True b(1) unfolding tx_due_def tx_msg_def tx_src_def tx_dst_def tx_sent_def
    by (auto intro!: arg_cong2 [where f = Option.bind] ext split: prod.split)
  show ?thesis
  proof (cases "342 \<le> length eth")
    case f: False
    then have "encapsulate_udp_ip_eth (d_mac d1) (tx_src d1) (tx_dst d1) b 300 eth = Some (0, eth)"
      by (simp add: encapsulate_udp_ip_eth_def)
    with f run show ?thesis by (intro idle) auto
  next
    case t: True
    obtain eth' where e: "encapsulate_udp_ip_eth (d_mac d1) (tx_src d1) (tx_dst d1) b 300 eth = Some (342, eth')"
      "length eth' = length eth" "drop 342 eth' = drop 342 eth"
      "udp_frame_ok (d_mac d1) (tx_src d1) (tx_dst d1) (take 300 b) eth'"
      by (rule encapsulate_spec [OF mac1 _ refl lb, of eth "tx_src d1" "tx_dst d1"]) (use t lb in auto)
    then have "at_dhcp_want_tx now tv d eth = Some (342, tx_sent tv d1, eth')" using run by simp
    moreover have "dhcp_frame_ok d1 eth'" using e b(2) t by (auto simp: dhcp_frame_ok_def)
    ultimately show ?thesis using sent [OF True t] e by blast
  qed
qed

lemma unat_ms: "unat (ucast (x :: u32) * 1000 :: u64) = unat x * 1000"
  using unat_u32_less [of x]
  by (simp add: unat_word_ariths unsigned_ucast_eq take_bit_eq_mod)

lemma unat_sub64: "unat (if b \<le> now then now - b else 0 :: u64) = unat now - unat b"
  by (auto simp: unat_sub word_le_nat_alt not_le)

text \<open>The renewal timer over the naturals: age in milliseconds against times in seconds.\<close>

lemma advance_renew_nat:
  assumes "lease_active d" "d_lease_secs d \<noteq> DHCP_LEASE_INFINITE"
    and "age = unat now - unat (d_bound_ms d)"
  shows "advance_renew_state now d =
    (if d_lease_secs d \<noteq> 0 \<and> unat (d_lease_secs d) * 1000 \<le> age then reset_select d
     else if d_state d \<noteq> ST_REBINDING \<and> d_t2_secs d \<noteq> 0 \<and> unat (d_t2_secs d) * 1000 \<le> age
     then d\<lparr>d_state := ST_REBINDING, d_backoff_ms := 1000, d_last_tx := tv_zero\<rparr>
     else if d_state d = ST_BOUND \<and> d_t1_secs d \<noteq> 0 \<and> unat (d_t1_secs d) * 1000 \<le> age
     then d\<lparr>d_state := ST_RENEWING, d_backoff_ms := 1000, d_last_tx := tv_zero\<rparr>
     else d)"
proof -
  define g where "g = (if now \<ge> d_bound_ms d then now - d_bound_ms d else 0)"
  have g: "unat g = age" unfolding g_def assms(3) by (rule unat_sub64)
  have le: "(ucast x :: u64) * 1000 \<le> g \<longleftrightarrow> unat x * 1000 \<le> age" for x :: u32
    by (simp add: word_le_nat_alt unat_ms g)
  have nz: "(ucast x :: u64) * 1000 = 0 \<longleftrightarrow> x = 0" for x :: u32
    using unat_ms [of x] by (metis mult_eq_0_iff unat_eq_zero zero_neq_numeral)
  show ?thesis
    unfolding advance_renew_state_def Let_def g_def [symmetric] le nz using assms(1,2) by simp
qed

text \<open>
  C20: the life of a lease. A client that became BOUND at \<open>d_bound_ms\<close> with times
  \<open>0 < T1 < T2 \<le> lease\<close> and polls \<open>age\<close> milliseconds later sends nothing before T1, a renewing
  REQUEST from T1 on, a rebinding REQUEST from T2 on, and drops the address and starts over with
  a DISCOVER once the lease is over. Every frame it then sends is a well formed DHCP frame of that
  kind for the state it is in.
\<close>

theorem lease_schedule:
  assumes "d_state d = ST_BOUND" "length (d_mac d) = 6" "342 \<le> length eth"
    and "d_lease_secs d \<noteq> 0xFFFFFFFF" "0 < d_t1_secs d" "d_t1_secs d < d_t2_secs d" "d_t2_secs d \<le> d_lease_secs d"
    and "unat now = unat (d_bound_ms d) + age"
  shows "case at_dhcp_want_tx now tv d eth of None \<Rightarrow> False | Some (n, d', eth') \<Rightarrow>
    (if age < 1000 * unat (d_t1_secs d) then n = 0 \<and> d' = d \<and> eth' = eth
     else n = 342 \<and> dhcp_frame_ok d' eth' \<and>
       (if age < 1000 * unat (d_t2_secs d) then d_state d' = ST_RENEWING \<and> d_yiaddr d' = d_yiaddr d
        else if age < 1000 * unat (d_lease_secs d) then d_state d' = ST_REBINDING \<and> d_yiaddr d' = d_yiaddr d
        else d_state d' = ST_SELECTING \<and> d_yiaddr d' = 0))"
proof -
  define d1 where "d1 = advance_renew_state now d"
  have act: "lease_active d" using assms(1) by (simp add: lease_active_def)
  have age: "age = unat now - unat (d_bound_ms d)" using assms(8) by simp
  have t: "0 < unat (d_t1_secs d)" "unat (d_t1_secs d) < unat (d_t2_secs d)"
    "unat (d_t2_secs d) \<le> unat (d_lease_secs d)"
    using assms(5-7) by (simp_all add: word_less_nat_alt word_le_nat_alt)
  then have nz: "d_lease_secs d \<noteq> 0" "d_t2_secs d \<noteq> 0" "d_t1_secs d \<noteq> 0" by auto
  note adv = advance_renew_nat [OF act assms(4) age, folded d1_def]
  consider (quiet) "age < 1000 * unat (d_t1_secs d)" "d1 = d"
    | (renew) "1000 * unat (d_t1_secs d) \<le> age" "age < 1000 * unat (d_t2_secs d)"
        "d1 = d\<lparr>d_state := ST_RENEWING, d_backoff_ms := 1000, d_last_tx := tv_zero\<rparr>"
    | (rebind) "1000 * unat (d_t1_secs d) \<le> age" "1000 * unat (d_t2_secs d) \<le> age"
        "age < 1000 * unat (d_lease_secs d)"
        "d1 = d\<lparr>d_state := ST_REBINDING, d_backoff_ms := 1000, d_last_tx := tv_zero\<rparr>"
    | (expired) "1000 * unat (d_t1_secs d) \<le> age" "1000 * unat (d_t2_secs d) \<le> age"
        "1000 * unat (d_lease_secs d) \<le> age" "d1 = reset_select d"
    using adv t nz assms(1) by (auto simp: not_le mult.commute split: if_splits)
  then show ?thesis
  proof cases
    case quiet
    then show ?thesis using assms(1,2)
      by (elim want_tx_spec [of d d1 now eth tv, OF _ d1_def]) (simp_all add: tx_due_def)
  next
    case renew
    then have "tx_due now d1" using assms(4) by (simp add: tx_due_def tv_zero_def)
    then show ?thesis using renew assms(2,3)
      by (elim want_tx_spec [of d d1 now eth tv, OF _ d1_def]) (simp_all add: tx_sent_frame, simp add: tx_sent_def)
  next
    case rebind
    then have "tx_due now d1" using assms(4) by (simp add: tx_due_def tv_zero_def)
    then show ?thesis using rebind assms(2,3)
      by (elim want_tx_spec [of d d1 now eth tv, OF _ d1_def]) (simp_all add: tx_sent_frame, simp add: tx_sent_def)
  next
    case expired
    then have "tx_due now d1" by (simp add: tx_due_def tv_zero_def reset_select_def lease_active_def)
    then show ?thesis using expired assms(2,3)
      by (elim want_tx_spec [of d d1 now eth tv, OF _ d1_def])
        (simp_all add: tx_sent_frame, simp add: tx_sent_def reset_select_def)
  qed
qed

definition bound_client :: at_dhcp where
  "bound_client = \<lparr>d_mac = [2, 0, 0, 0, 0, 1], d_xid = 0x1234A5A5, d_state = ST_BOUND,
     d_yiaddr = 0x0A2AA8C0, d_server = 0x812AA8C0, d_netmask = 0x00FFFFFF, d_router = 0x812AA8C0,
     d_dns0 = 0x812AA8C0, d_dns1 = 0, d_dns_n = 1, d_lease_secs = 3600, d_t1_secs = 1800,
     d_t2_secs = 3150, d_bound_ms = 0, d_last_tx = tv_zero, d_backoff_ms = 500\<rparr>"

theorem lease_schedule_witness:
  "\<exists>d' eth'. at_dhcp_want_tx 2000000 \<lparr>tv_sec = 2000, tv_usec = 0\<rparr> bound_client (replicate 1514 0) =
      Some (342, d', eth') \<and> dhcp_frame_ok d' eth' \<and> d_state d' = ST_RENEWING"
proof -
  have "case at_dhcp_want_tx 2000000 \<lparr>tv_sec = 2000, tv_usec = 0\<rparr> bound_client (replicate 1514 0) of
      None \<Rightarrow> False | Some (n, d', eth') \<Rightarrow> n = 342 \<and> dhcp_frame_ok d' eth' \<and> d_state d' = ST_RENEWING"
    using lease_schedule [of bound_client "replicate 1514 0" 2000000 2000000 "\<lparr>tv_sec = 2000, tv_usec = 0\<rparr>"]
    by (auto simp: bound_client_def take_bit_eq_mod split: option.splits)
  then show ?thesis by (auto split: option.splits)
qed

section \<open>Invariant and reachable states\<close>

definition dhcp_inv :: "at_dhcp \<Rightarrow> bool" where
  "dhcp_inv d \<longleftrightarrow> length (d_mac d) = 6 \<and> (d_state d = ST_INIT \<or> d_state d = ST_SELECTING \<or> d_yiaddr d \<noteq> 0) \<and>
     0 \<le> d_dns_n d \<and> d_dns_n d \<le> 2 \<and> 0 < d_backoff_ms d \<and> d_backoff_ms d \<le> 8000"

inductive dhcp_step :: "at_dhcp \<Rightarrow> at_dhcp \<Rightarrow> bool" where
  recv: "at_dhcp_on_frame now d eth = Some (r, d') \<Longrightarrow> dhcp_step d d'"
| send: "at_dhcp_want_tx now tv d eth = Some (n, d', eth') \<Longrightarrow> dhcp_step d d'"

inductive_cases dhcp_stepE: "dhcp_step d d'"

lemma advance_cases:
  "advance_renew_state now d = d \<or> lease_active d \<and>
     (advance_renew_state now d = reset_select d \<or>
      advance_renew_state now d = d\<lparr>d_state := ST_REBINDING, d_backoff_ms := 1000, d_last_tx := tv_zero\<rparr> \<or>
      advance_renew_state now d = d\<lparr>d_state := ST_RENEWING, d_backoff_ms := 1000, d_last_tx := tv_zero\<rparr>)"
proof (cases "lease_active d \<and> d_lease_secs d \<noteq> DHCP_LEASE_INFINITE")
  case True
  then have a: "lease_active d" "d_lease_secs d \<noteq> DHCP_LEASE_INFINITE" by simp_all
  have "(if a then x else if b then y else if c then z else w) \<in> {x, y, z, w}" for a b c and x y z w :: at_dhcp
    by simp
  from this show ?thesis unfolding advance_renew_nat [OF a refl, of now] using a(1) by blast
next
  case False
  then show ?thesis by (auto simp: advance_renew_state_def)
qed

lemma advance_inv: "dhcp_inv d \<Longrightarrow> dhcp_inv (advance_renew_state now d)"
  using advance_cases [of now d] by (auto simp: dhcp_inv_def reset_select_def lease_active_def)

lemma tx_sent_inv: "dhcp_inv d \<Longrightarrow> dhcp_inv (tx_sent tv d)"
  by (auto simp: dhcp_inv_def tx_sent_def)

lemma on_ack_fields:
  "d_mac (snd (on_ack now d yi)) = d_mac d \<and> d_yiaddr (snd (on_ack now d yi)) = yi \<and>
   d_state (snd (on_ack now d yi)) = ST_BOUND \<and> d_backoff_ms (snd (on_ack now d yi)) = 500 \<and>
   (d_dns_n (snd (on_ack now d yi)) = d_dns_n d \<or> d_dns_n (snd (on_ack now d yi)) = 1)"
  unfolding on_ack_def Let_def
  by (cases "lease_active d"; cases "d_dns_n d = 0"; cases "d_router d = 0"; cases "d_server d = 0") simp_all

lemma same_core_inv: "dhcp_inv d \<Longrightarrow> same_core d d1 \<Longrightarrow> dhcp_inv d1"
  unfolding dhcp_inv_def same_core_def by (elim conjE) (elim disjE; simp)

lemma on_offer_inv: "dhcp_inv d \<Longrightarrow> yi \<noteq> 0 \<Longrightarrow> dhcp_inv (snd (on_offer d yi))"
  by (simp add: dhcp_inv_def on_offer_def)

lemma on_ack_inv: "dhcp_inv d \<Longrightarrow> yi \<noteq> 0 \<Longrightarrow> dhcp_inv (snd (on_ack now d yi))"
  using on_ack_fields [of now d yi] unfolding dhcp_inv_def by (elim conjE) (elim disjE; simp)

lemma on_nak_inv: "dhcp_inv d \<Longrightarrow> dhcp_inv (snd (on_nak d))"
  by (simp add: dhcp_inv_def on_nak_def reset_select_def Let_def)

lemma dispatch_inv:
  assumes "dhcp_inv d" "same_core d d1" "dispatch now d1 msg yi = (r, d')"
  shows "dhcp_inv d'"
proof -
  have "dhcp_inv d1" using same_core_inv assms(1,2) .
  then have "dhcp_inv (snd (dispatch now d1 msg yi))"
    by (simp add: dispatch_def on_offer_inv on_ack_inv on_nak_inv)
  then show ?thesis by (simp add: assms(3))
qed

lemma on_frame_inv:
  assumes "dhcp_inv d" "at_dhcp_on_frame now d eth = Some (r, d')"
  shows "dhcp_inv d'"
proof -
  obtain d1 m where p: "parse_options d (reply_options eth) = Some (d1, m)" "same_core d d1"
    by (rule parse_options_spec)
  show ?thesis using assms dispatch_inv [OF assms(1) p(2)] by (auto simp: on_frame_eq p(1) split: if_splits)
qed

lemma want_tx_inv:
  assumes "dhcp_inv d" "at_dhcp_want_tx now tv d eth = Some (n, d', eth')"
  shows "dhcp_inv d'"
proof -
  have "length (d_mac d) = 6" using assms(1) by (simp add: dhcp_inv_def)
  then show ?thesis using assms advance_inv [of d now] tx_sent_inv
    by (elim want_tx_spec [of d _ now eth tv, OF _ refl]) auto
qed

lemma dhcp_step_inv: "dhcp_step d d' \<Longrightarrow> dhcp_inv d \<Longrightarrow> dhcp_inv d'"
  by (erule dhcp_stepE) (auto intro: on_frame_inv want_tx_inv)

lemma dhcp_create_inv: "at_dhcp_create mem pid time (Some m) = Some d \<Longrightarrow> 6 \<le> length m \<Longrightarrow> dhcp_inv d"
  by (auto simp: at_dhcp_create_def dhcp_inv_def split: if_splits)

text \<open>
  C21: in every state a client can reach from its creation, through any frames of the phone and any
  polls at any times, it either has no address and is selecting, or has a non-zero address; the
  number of name servers is between 0 and 2, and the retransmission backoff stays between 1 and
  8000 ms. In such a state no poll has undefined behaviour: it sends nothing or one frame of 342
  bytes inside the buffer.
\<close>

theorem dhcp_reachable_inv:
  assumes "at_dhcp_create mem pid time (Some m) = Some d0" "6 \<le> length m" "dhcp_step\<^sup>*\<^sup>* d0 d"
  shows "dhcp_inv d \<and>
    (\<exists>n d' eth'. at_dhcp_want_tx now tv d eth = Some (n, d', eth') \<and> (n = 0 \<or> n = 342) \<and>
       n \<le> length eth \<and> length eth' = length eth \<and> drop n eth' = drop n eth)"
proof -
  have inv: "dhcp_inv d"
    using assms(3)
  proof (induction rule: rtranclp_induct)
    case base
    then show ?case using dhcp_create_inv assms(1,2) by blast
  next
    case (step y z)
    then show ?case by (blast intro: dhcp_step_inv)
  qed
  then have "length (d_mac d) = 6" by (simp add: dhcp_inv_def)
  then show ?thesis using inv by (elim want_tx_spec [of d _ now eth tv, OF _ refl]) auto
qed

theorem dhcp_reachable_inv_witness:
  "\<exists>d. at_dhcp_create True 7 9 (Some [2, 0, 0, 0, 0, 1]) = Some d \<and> dhcp_inv d"
proof -
  obtain d where d: "at_dhcp_create True 7 9 (Some [2, 0, 0, 0, 0, 1]) = Some d"
    by (simp add: at_dhcp_create_def)
  from dhcp_reachable_inv [OF d _ rtranclp.rtrancl_refl] d show ?thesis by simp
qed

text \<open>
  C22: the client never falls silent and never floods. Unless it is BOUND or holds an infinite
  lease, a poll 8 seconds after the last frame always sends one; and whenever a frame is sent, the
  previous one is at least the current backoff old, and the next backoff doubles up to 8 seconds.
\<close>

theorem dhcp_retransmits:
  assumes "dhcp_inv d" "342 \<le> length eth" "d1 = advance_renew_state now d"
    and "d_state d1 \<noteq> ST_BOUND" "d_lease_secs d1 \<noteq> 0xFFFFFFFF \<or> \<not> lease_active d1"
    and "unat (tv_ms (d_last_tx d1)) + 8000 < 2 ^ 64"
  shows "\<exists>n d' eth'. at_dhcp_want_tx now tv d eth = Some (n, d', eth') \<and>
    (if unat (tv_ms (d_last_tx d1)) + 8000 \<le> unat now \<or> d_last_tx d1 = tv_zero then n = 342 else True) \<and>
    (if n = 0 then d' = d1
     else d_last_tx d' = tv \<and> d_backoff_ms d' = min 8000 (if d_backoff_ms d1 < 4000 then 2 * d_backoff_ms d1 else 8000) \<and>
       (d_last_tx d1 = tv_zero \<or> unat (tv_ms (d_last_tx d1)) + nat (d_backoff_ms d1) \<le> unat now))"
proof -
  have inv: "dhcp_inv d1" using assms(1,3) advance_inv by simp
  then have bo: "0 < d_backoff_ms d1" "d_backoff_ms d1 \<le> 8000" by (simp_all add: dhcp_inv_def)
  then obtain k where k: "d_backoff_ms d1 = int k" "k \<le> 8000"
    by (intro that [of "nat (d_backoff_ms d1)"]) auto
  have un: "unat (tv_ms (d_last_tx d1) + of_int (d_backoff_ms d1)) = unat (tv_ms (d_last_tx d1)) + k"
    using assms(6) k by (simp add: unat_word_ariths unat_of_nat take_bit_eq_mod)
  have z: "(tv_sec (d_last_tx d1) \<noteq> 0 \<or> tv_usec (d_last_tx d1) \<noteq> 0) \<longleftrightarrow> d_last_tx d1 \<noteq> tv_zero"
    by (cases "d_last_tx d1") (auto simp: tv_zero_def)
  have due: "tx_due now d1 \<longleftrightarrow> d_last_tx d1 = tv_zero \<or> unat (tv_ms (d_last_tx d1)) + k \<le> unat now"
    unfolding tx_due_def z using assms(4,5) by (auto simp: word_less_nat_alt un not_less)
  have "length (d_mac d) = 6" using assms(1) by (simp add: dhcp_inv_def)
  then show ?thesis
  proof (rule want_tx_spec [OF _ assms(3), of eth tv])
    assume idle: "\<not> tx_due now d1 \<or> length eth < 342" "at_dhcp_want_tx now tv d eth = Some (0, d1, eth)"
    then have "\<not> tx_due now d1" using assms(2) by simp
    with idle(2) show ?thesis using due k by auto
  next
    fix eth'
    assume sent: "tx_due now d1" "at_dhcp_want_tx now tv d eth = Some (342, tx_sent tv d1, eth')"
    then show ?thesis using due k bo by (auto simp: tx_sent_def)
  qed
qed

theorem dhcp_retransmits_witness:
  "\<exists>d' eth'. at_dhcp_want_tx 10000 \<lparr>tv_sec = 10, tv_usec = 0\<rparr>
     (bound_client\<lparr>d_state := ST_REQUESTING, d_last_tx := \<lparr>tv_sec = 1, tv_usec = 0\<rparr>\<rparr>) (replicate 1514 0) =
     Some (342, d', eth') \<and> d_backoff_ms d' = 1000"
proof -
  let ?d = "bound_client\<lparr>d_state := ST_REQUESTING, d_last_tx := \<lparr>tv_sec = 1, tv_usec = 0\<rparr>\<rparr>"
  have inv: "dhcp_inv ?d" by (simp add: dhcp_inv_def bound_client_def)
  have adv: "?d = advance_renew_state 10000 ?d"
    by (simp add: advance_renew_state_def lease_active_def bound_client_def)
  have ms: "unat (tv_ms (d_last_tx ?d)) = 1000" by (simp add: tv_ms_def take_bit_eq_mod)
  have "\<exists>n d' eth'. at_dhcp_want_tx 10000 \<lparr>tv_sec = 10, tv_usec = 0\<rparr> ?d (replicate 1514 0) = Some (n, d', eth') \<and>
    (if unat (tv_ms (d_last_tx ?d)) + 8000 \<le> unat (10000 :: u64) \<or> d_last_tx ?d = tv_zero then n = 342 else True) \<and>
    (if n = 0 then d' = ?d
     else d_last_tx d' = \<lparr>tv_sec = 10, tv_usec = 0\<rparr> \<and>
       d_backoff_ms d' = min 8000 (if d_backoff_ms ?d < 4000 then 2 * d_backoff_ms ?d else 8000) \<and>
       (d_last_tx ?d = tv_zero \<or> unat (tv_ms (d_last_tx ?d)) + nat (d_backoff_ms ?d) \<le> unat (10000 :: u64)))"
    by (rule dhcp_retransmits [OF inv _ adv]) (simp_all add: ms [simplified], simp_all add: bound_client_def)
  then show ?thesis unfolding ms by (auto simp: bound_client_def take_bit_eq_mod)
qed


definition stray_offer :: buf where
  "stray_offer = replicate 12 0xff @ [0x08, 0x00, 0x45] @ replicate 8 0 @ [17] @ replicate 12 0 @
     [0, 68] @ replicate 4 0 @ [2, 1, 6, 0] @ bytes32 0x1234A5A5 @ replicate 8 0 @ [192, 168, 42, 10] @
     replicate 216 0 @ [0x63, 0x82, 0x53, 0x63] @ [53, 1, 2, 51, 4, 0xff, 0xff, 0xff, 0xff, 255]"


section \<open>The interface to the engine\<close>

interpretation dhcp: lease_client dhcp_inv at_dhcp_want_tx at_dhcp_on_frame
proof
  fix d now tv eth assume d: "dhcp_inv d"
  then have "length (d_mac d) = 6" by (simp add: dhcp_inv_def)
  then have "\<exists>n d' eth'. at_dhcp_want_tx now tv d eth = Some (n, d', eth') \<and> n \<le> length eth' \<and> length eth' = length eth"
    by (elim want_tx_spec [of d _ now eth tv, OF _ refl]) auto
  then show "\<exists>n d' eth'. at_dhcp_want_tx now tv d eth = Some (n, d', eth') \<and> dhcp_inv d' \<and>
      n \<le> length eth' \<and> length eth' = length eth"
    using want_tx_inv [OF d] by blast
next
  fix d now eth assume d: "dhcp_inv d"
  obtain d1 m where "parse_options d (reply_options eth) = Some (d1, m)"
    by (rule parse_options_spec)
  then have "\<exists>r d'. at_dhcp_on_frame now d eth = Some (r, d')"
    by (cases "dispatch now d1 m (reply_yiaddr eth)") (simp add: on_frame_eq)
  then show "\<exists>r d'. at_dhcp_on_frame now d eth = Some (r, d') \<and> dhcp_inv d'"
    using on_frame_inv [OF d] by blast
qed

end
