(* ===== verification/Utun.thy ===== *)
theory Utun
  imports Prelude
begin

text \<open>
  The utun interface of \<open>engine/src/utun_if.c\<close>: opening the control socket, and the 4-byte
  address-family header in front of every datagram. The results of the system calls are arguments;
  the calls themselves are recorded in order. Log calls are dropped.
\<close>

unbundle bit_operations_syntax

abbreviation (input) AF_INET :: int where "AF_INET \<equiv> 2"
abbreviation (input) AF_INET6 :: int where "AF_INET6 \<equiv> 30"
abbreviation (input) AT_UTUN_READ_DROP :: int where "AT_UTUN_READ_DROP \<equiv> -2"

section \<open>Opening and closing\<close>

record at_utun =
  u_fd :: int
  u_name :: string

datatype utun_call =
    Socket
  | CtlInfo int
  | Connect int
  | GetIfname int
  | GetFlags int
  | SetNonblock int int
  | SetBuffers int
  | Close int

definition at_utun_close :: "at_utun option \<Rightarrow> utun_call list" where
  "at_utun_close u =
     (case u of None \<Rightarrow> [] | Some u \<Rightarrow> (if u_fd u \<ge> 0 then [Close (u_fd u)] else []))"

text \<open>
  \<open>mem\<close>: \<open>calloc\<close> succeeds; \<open>fd\<close>, \<open>info\<close>, \<open>conn\<close>, \<open>opt\<close> and \<open>flags\<close> are the results of
  \<open>socket\<close>, \<open>ioctl\<close>, \<open>connect\<close>, \<open>getsockopt\<close> (which stores \<open>name\<close>) and \<open>fcntl (F_GETFL)\<close>.
\<close>

definition at_utun_open ::
  "bool \<Rightarrow> int \<Rightarrow> int \<Rightarrow> int \<Rightarrow> int \<Rightarrow> string \<Rightarrow> int \<Rightarrow> at_utun option \<times> utun_call list" where
  "at_utun_open mem fd info conn opt name flags =
     (if \<not> mem then (None, []) else
      let u = \<lparr>u_fd = -1, u_name = ''''\<rparr>; u = u\<lparr>u_fd := fd\<rparr>; cs = [Socket] in
      if u_fd u < 0 then (None, cs @ at_utun_close (Some u)) else
      let cs = cs @ [CtlInfo (u_fd u)] in
      if info \<noteq> 0 then (None, cs @ at_utun_close (Some u)) else
      let cs = cs @ [Connect (u_fd u)] in
      if conn \<noteq> 0 then (None, cs @ at_utun_close (Some u)) else
      let cs = cs @ [GetIfname (u_fd u)] in
      if opt \<noteq> 0 then (None, cs @ at_utun_close (Some u)) else
      let u = u\<lparr>u_name := name\<rparr>; cs = cs @ [GetFlags (u_fd u)];
          cs = (if flags \<ge> 0 then cs @ [SetNonblock (u_fd u) flags] else cs)
      in (Some u, cs @ [SetBuffers (u_fd u)]))"

definition at_utun_name :: "at_utun option \<Rightarrow> string" where
  "at_utun_name u = (case u of None \<Rightarrow> '''' | Some u \<Rightarrow> u_name u)"

text \<open>
  Opening the tunnel never leaks its socket: when it fails the socket it opened is closed as
  the last call and only there, and when it succeeds the socket stays open and is the one returned,
  set to non-blocking mode whenever its flags could be read.
\<close>

theorem utun_open_no_leak:
  "case at_utun_open mem fd info conn opt name flags of
     (None, cs) \<Rightarrow> (Socket \<in> set cs \<and> fd \<ge> 0 \<longrightarrow> last cs = Close fd \<and> Close fd \<notin> set (butlast cs))
   | (Some u, cs) \<Rightarrow> u_fd u = fd \<and> fd \<ge> 0 \<and> u_name u = name \<and> Close fd \<notin> set cs \<and>
        (flags \<ge> 0 \<longrightarrow> SetNonblock fd flags \<in> set cs)"
  by (simp add: at_utun_open_def at_utun_close_def Let_def)

section \<open>Datagrams\<close>

datatype sys_read = ReadErr bool | ReadData buf

text \<open>A \<open>read\<close> that returns \<open>n\<close> bytes, and the drop test. \<open>n\<close> is a \<open>ssize_t\<close>.\<close>

definition at_utun_read_is_drop :: "int \<Rightarrow> nat \<Rightarrow> nat \<Rightarrow> bool" where
  "at_utun_read_is_drop n bufsz cap =
     (if n < 5 then False
      else if bufsz = 0 \<or> n = int bufsz then True
      else let payload = nat n - 4 in payload > cap)"

text \<open>
  \<open>pr\<close> is the result of \<open>poll\<close>, \<open>r\<close> that of \<open>read\<close> (\<open>ReadErr\<close> tells whether \<open>errno\<close> is
  \<open>EAGAIN\<close>). The kernel stores at most the 4096 bytes it was given room for. The result is the
  return value with the contents of \<open>ip\<close>, \<open>*len\<close> and \<open>*family\<close>.
\<close>

definition at_utun_read ::
  "int \<Rightarrow> sys_read \<Rightarrow> buf \<Rightarrow> nat \<Rightarrow> int \<Rightarrow> (int \<times> buf \<times> nat \<times> int) option" where
  "at_utun_read pr r ip len family =
     (if pr \<le> 0 then Some (1, ip, len, family) else
      case r of
        ReadErr eagain \<Rightarrow> Some (if eagain then 1 else -1, ip, len, family)
      | ReadData dat \<Rightarrow> do {
          b \<leftarrow> store_bytes (replicate 4096 0) 0 dat;
          (let n = int (length dat) in
           if n < 5 then Some (1, ip, len, family)
           else if at_utun_read_is_drop n 4096 (length ip) then Some (AT_UTUN_READ_DROP, ip, 0, family)
           else do {
             af \<leftarrow> load32 b 0;
             (let family = sint (ntohl af); payload = nat n - 4 in do {
                p \<leftarrow> load_bytes b 4 payload;
                ip \<leftarrow> store_bytes ip 0 p;
                Some (0, ip, payload, family) }) }) })"

text \<open>
  The datagram handed to \<open>write\<close> (\<open>None\<close> when the code rejects it before) and the return value, for
  a \<open>write\<close> that returns \<open>n\<close>.
\<close>

definition at_utun_write :: "int \<Rightarrow> buf \<Rightarrow> int \<Rightarrow> (int \<times> buf option) option" where
  "at_utun_write n ip family =
     (let len = length ip in
      if len = 0 then Some (-1, None)
      else if len + 4 > 2048 then Some (-1, None)
      else do {
        b \<leftarrow> store_bytes (replicate 2048 0) 0 (bytes32 (htonl (of_int family)));
        b \<leftarrow> store_bytes b 4 ip;
        d \<leftarrow> load_bytes b 0 (len + 4);
        Some (if n = int (len + 4) then 0 else -1, Some d) })"

definition utun_datagram :: "int \<Rightarrow> buf \<Rightarrow> buf" where
  "utun_datagram family ip = bytes32 (htonl (of_int family)) @ ip"

lemma utun_write_eq:
  "at_utun_write n ip family =
     (if ip = [] \<or> length ip > 2044 then Some (-1, None)
      else Some (if n = int (length ip + 4) then 0 else -1, Some (utun_datagram family ip)))"
proof (cases "ip = [] \<or> length ip > 2044")
  case False
  then show ?thesis
    by (simp add: at_utun_write_def Let_def buf_simps splice_at_def utun_datagram_def)
qed (auto simp: at_utun_write_def Let_def)

lemma utun_read_eq:
  assumes "length dat \<le> 4096"
  shows "at_utun_read pr (ReadData dat) ip len family =
     Some (if pr \<le> 0 \<or> length dat < 5 then (1, ip, len, family)
           else if length dat = 4096 \<or> length dat - 4 > length ip then (AT_UTUN_READ_DROP, ip, 0, family)
           else (0, drop 4 dat @ drop (length dat - 4) ip, length dat - 4, sint (ntohl (word_at dat 0))))"
proof -
  have s: "store_bytes (replicate 4096 0) 0 dat = Some (dat @ replicate (4096 - length dat) 0)"
    using assms by (simp add: store_bytes_Some)
  show ?thesis
  proof (cases "pr \<le> 0 \<or> length dat < 5 \<or> length dat = 4096 \<or> length dat - 4 > length ip")
    case True
    then show ?thesis
      by (auto simp: at_utun_read_def s at_utun_read_is_drop_def Let_def)
  next
    case False
    then have "load_bytes (dat @ replicate (4096 - length dat) 0) 4 (length dat - 4) = Some (drop 4 dat)"
      by (simp add: load_bytes_def)
    moreover have "dat \<noteq> []" "5 \<le> length dat" using False by auto
    ultimately show ?thesis using False
      by (simp add: at_utun_read_def s at_utun_read_is_drop_def Let_def buf_simps nth_append nat_diff_distrib)
  qed
qed

text \<open>
  Whatever the kernel returns (it never stores more than it was given room for) the reader
  stays inside its buffers, and a datagram is delivered only whole: a truncated or oversized one is
  dropped with length 0.
\<close>

theorem utun_read_whole:
  assumes "case r of ReadData dat \<Rightarrow> length dat \<le> 4096 | ReadErr _ \<Rightarrow> True"
  shows "case at_utun_read pr r ip len family of
     None \<Rightarrow> False
   | Some (rc, ip', len', family') \<Rightarrow> length ip' = length ip \<and>
       (if rc = 0 then (\<exists>dat. r = ReadData dat \<and> length dat < 4096 \<and> take len' ip' = drop 4 dat \<and>
                         len' = length dat - 4 \<and> 0 < len' \<and> len' \<le> length ip)
        else ip' = ip \<and> (rc = 1 \<or> rc = -1 \<or> rc = AT_UTUN_READ_DROP \<and> len' = 0))"
proof (cases r)
  case (ReadErr x)
  then show ?thesis by (simp add: at_utun_read_def)
next
  case (ReadData dat)
  then show ?thesis using assms by (auto simp: utun_read_eq)
qed

theorem utun_read_whole_witness:
  "case at_utun_read 1 (ReadData [0, 0, 0, 2, 0x45]) [7, 7, 7] 0 2 of
     None \<Rightarrow> False
   | Some (rc, ip', len', family') \<Rightarrow> length ip' = length [7 :: byte, 7, 7] \<and>
       (if rc = 0 then (\<exists>dat. ReadData [0, 0, 0, 2, 0x45] = ReadData dat \<and> length dat < 4096 \<and>
                         take len' ip' = drop 4 dat \<and> len' = length dat - 4 \<and> 0 < len' \<and>
                         len' \<le> length [7 :: byte, 7, 7])
        else ip' = [7, 7, 7] \<and> (rc = 1 \<or> rc = -1 \<or> rc = AT_UTUN_READ_DROP \<and> len' = 0))"
  by (rule utun_read_whole) simp

text \<open>
  A datagram of 1 to 2044 bytes written to the tunnel reads back as the same bytes with the
  same address family, given a reader with room for it.
\<close>

theorem utun_write_read:
  assumes "ip \<noteq> []" "length ip \<le> 2044" "length ip \<le> length b" "family \<in> {AF_INET, AF_INET6}"
  shows "\<exists>d. at_utun_write n ip family = Some (if n = int (length ip + 4) then 0 else -1, Some d) \<and>
           at_utun_read 1 (ReadData d) b len fam0 = Some (0, ip @ drop (length ip) b, length ip, family)"
proof -
  have w: "word_at (utun_datagram family ip) 0 = ntohl (of_int family)"
    by (simp add: utun_datagram_def bytes32_def word32_bytes)
  have s: "sint (of_int family :: u32) = family"
    using assms(4) by auto
  have l: "length (utun_datagram family ip) = length ip + 4" "drop 4 (utun_datagram family ip) = ip"
    by (simp_all add: utun_datagram_def)
  have rd: "sint (ntohl (word_at (utun_datagram family ip) 0)) = family"
    by (simp only: w ntohl_ntohl s)
  have "0 < length ip" using assms(1) by simp
  then show ?thesis
    using assms(2,3) rd by (simp add: utun_write_eq utun_read_eq l del: length_greater_0_conv) auto
qed

theorem utun_write_read_witness:
  "\<exists>d. at_utun_write 6 [0x45, 1] AF_INET = Some (0, Some d) \<and>
     at_utun_read 1 (ReadData d) [9, 9, 9] 0 0 = Some (0, [0x45, 1, 9], 2, AF_INET)"
  using utun_write_read [of "[0x45, 1]" "[9, 9, 9]" AF_INET 6 0 0] by (simp add: numeral_2_eq_2)

end
