(* ===== verification/EngineState.thy ===== *)
theory EngineState
  imports Rndis Dhcp Utun
begin

text \<open>
  The state of \<open>engine/src/tether_engine.c\<close> and the helpers every thread uses: the counters, the
  failure path and the pause of the data path. A pointer that only matters as present or absent
  (\<open>usb\<close>, the receive buffers, the thread handles) is a flag. The calls into the USB, utun and network layers are appended to
  \<open>e_calls\<close> in the order the code makes them; what they return is an argument of the operation.
  A critical section under a mutex is one step; log calls are dropped.
\<close>

unbundle bit_operations_syntax

abbreviation (input) AT_TXQ_CAP :: nat where "AT_TXQ_CAP \<equiv> 128"
abbreviation (input) AT_TXQ_SLOT :: nat where "AT_TXQ_SLOT \<equiv> 4096"
abbreviation (input) AT_TX_OUT_MAX_RETRIES :: int where "AT_TX_OUT_MAX_RETRIES \<equiv> 2"
abbreviation (input) AT_USB_GONE_FAILS :: int where "AT_USB_GONE_FAILS \<equiv> 8"

datatype at_state = AT_STATE_IDLE | AT_STATE_CONNECTING | AT_STATE_CONNECTED | AT_STATE_STOPPING | AT_STATE_ERROR

datatype ext_call =
    AsyncWake
  | ClearStall nat
  | SubmitIn
  | SubmitOut buf
  | BulkWrite buf
  | BulkRead
  | Attach
  | RunLoop
  | AbortIn
  | AbortOut
  | Detach
  | PollInterrupt
  | HandleControl
  | Keepalive
  | UsbOpen
  | RndisInit
  | RndisHalt
  | UsbClose
  | UtunOpen
  | UtunWrite buf
  | UtunClose
  | BeginSession
  | EndSession
  | RegisterService string
  | ClearDhcp string
  | ApplyLease string at_net_info bool
  | PreferDefaultRoute string string
  | DisableWifi
  | RestoreWifi
  | DropIpv6Default
  | Spawn nat
  | Join nat
  | FreeInbuf
  | FreeTxq
  | FreeEngine

record at_engine =
  e_prefer_default_route :: bool
  e_usb :: bool
  e_utun :: "at_utun option"
  e_usb_rx_ok :: bool
  e_utun_rx_ok :: bool
  e_maint_ok :: bool
  e_inbuf :: bool
  e_align :: u32
  e_running :: bool
  e_state :: at_state
  e_rx_bytes :: u64
  e_tx_bytes :: u64
  e_rx_frames :: u64
  e_tx_frames :: u64
  e_rx_errors :: u64
  e_tx_errors :: u64
  e_net :: at_net_info
  e_host_mac :: buf
  e_device_mac :: buf
  e_gw_mac :: buf
  e_gw_mac_ok :: bool
  e_host_ip :: u32
  e_gw_ip :: u32
  e_link_mbps :: u32
  e_error :: string
  e_lease_applied :: bool
  e_dhcp :: "at_dhcp option"
  e_usb_hard_fails :: int
  e_tx_out_retries :: int
  e_saw_lease :: bool
  e_txq_flat :: "buf option"
  e_txq_len :: "nat list"
  e_txq_r :: nat
  e_txq_w :: nat
  e_txq_n :: int
  e_calls :: "ext_call list"

definition call :: "ext_call \<Rightarrow> at_engine \<Rightarrow> at_engine" where
  "call c e = e\<lparr>e_calls := e_calls e @ [c]\<rparr>"

definition add_rx :: "nat \<Rightarrow> at_engine \<Rightarrow> at_engine" where
  "add_rx n e = e\<lparr>e_rx_bytes := e_rx_bytes e + of_nat n, e_rx_frames := e_rx_frames e + 1\<rparr>"

definition add_tx :: "nat \<Rightarrow> at_engine \<Rightarrow> at_engine" where
  "add_tx n e = e\<lparr>e_tx_bytes := e_tx_bytes e + of_nat n, e_tx_frames := e_tx_frames e + 1\<rparr>"

definition add_rx_err :: "at_engine \<Rightarrow> at_engine" where
  "add_rx_err e = e\<lparr>e_rx_errors := e_rx_errors e + 1\<rparr>"

definition add_tx_err :: "at_engine \<Rightarrow> at_engine" where
  "add_tx_err e = e\<lparr>e_tx_errors := e_tx_errors e + 1\<rparr>"

definition note_tx_overflow :: "at_engine \<Rightarrow> at_engine" where
  "note_tx_overflow e = e\<lparr>e_tx_errors := e_tx_errors e + 1\<rparr>"

text \<open>\<open>strlcpy\<close> into an array of \<open>n\<close> bytes keeps at most \<open>n - 1\<close> characters.\<close>

definition strlcpy :: "nat \<Rightarrow> string \<Rightarrow> string" where
  "strlcpy n s = take (n - 1) s"

definition engine_fail :: "string option \<Rightarrow> at_engine \<Rightarrow> at_engine" where
  "engine_fail msg e =
     (let copy = strlcpy 256 (case msg of Some m \<Rightarrow> (if m = '''' then ''Engine error'' else m)
                              | None \<Rightarrow> ''Engine error'') in
      if e_state e = AT_STATE_STOPPING \<or> e_state e = AT_STATE_ERROR then e
      else e\<lparr>e_state := AT_STATE_ERROR, e_error := strlcpy 256 copy, e_running := False\<rparr>)"

definition pause_datapath :: "at_engine \<Rightarrow> at_engine" where
  "pause_datapath e =
     (let e = e\<lparr>e_lease_applied := False, e_gw_mac_ok := False\<rparr> in
      if e_state e = AT_STATE_CONNECTED then e\<lparr>e_state := AT_STATE_CONNECTING\<rparr> else e)"

text \<open>The engine as \<open>calloc\<close> leaves it.\<close>

definition engine_zero :: at_engine where
  "engine_zero = \<lparr>e_prefer_default_route = False, e_usb = False, e_utun = None, e_usb_rx_ok = False, e_utun_rx_ok = False,
     e_maint_ok = False, e_inbuf = False, e_align = 0, e_running = False,
     e_state = AT_STATE_IDLE, e_rx_bytes = 0, e_tx_bytes = 0, e_rx_frames = 0, e_tx_frames = 0,
     e_rx_errors = 0, e_tx_errors = 0,
     e_net = \<lparr>ni_ip = '''', ni_netmask = '''', ni_gateway = '''', ni_dns = '''', ni_ready = 0\<rparr>,
     e_host_mac = replicate 6 0, e_device_mac = replicate 6 0, e_gw_mac = replicate 6 0, e_gw_mac_ok = False,
     e_host_ip = 0, e_gw_ip = 0, e_link_mbps = 0, e_error = '''', e_lease_applied = False, e_dhcp = None,
     e_usb_hard_fails = 0, e_tx_out_retries = 0, e_saw_lease = False, e_txq_flat = None,
     e_txq_len = replicate 128 0, e_txq_r = 0, e_txq_w = 0, e_txq_n = 0, e_calls = []\<rparr>"

end
