(* ===== verification/TxQueue.thy ===== *)
theory TxQueue
  imports EngineState
begin

text \<open>
  The USB transmit queue of \<open>tether_engine.c\<close>: a ring of 128 slots of 4096 bytes in one flat
  array, filled by any thread (\<open>send_eth_usb\<close>) and emptied by the USB thread. The operations are
  shown to refine a bounded FIFO of messages.
\<close>

unbundle bit_operations_syntax

section \<open>Operations\<close>

text \<open>\<open>txq_slot (e, i)\<close> points at \<open>i * 4096\<close>: reading and writing the slot.\<close>

definition txq_slot :: "buf \<Rightarrow> nat \<Rightarrow> buf option" where
  "txq_slot flat i = load_bytes flat (i * AT_TXQ_SLOT) AT_TXQ_SLOT"

definition send_eth_usb :: "at_engine \<Rightarrow> buf \<Rightarrow> (int \<times> at_engine) option" where
  "send_eth_usb e eth =
     (case e_txq_flat e of
        None \<Rightarrow> Some (-1, add_tx_err e)
      | Some flat \<Rightarrow>
          if e_txq_n e \<ge> int AT_TXQ_CAP then Some (-1, note_tx_overflow e)
          else do {
            slot \<leftarrow> txq_slot flat (e_txq_w e);
            (wrapped, slot) \<leftarrow> rndis_wrap_ethernet_aligned slot eth (e_align e);
            flat \<leftarrow> store_bytes flat (e_txq_w e * AT_TXQ_SLOT) slot;
            (let e = e\<lparr>e_txq_flat := Some flat\<rparr> in
             if wrapped = 0 \<or> wrapped > AT_TXQ_SLOT then Some (-1, add_tx_err e)
             else do {
               lens \<leftarrow> store_bytes (e_txq_len e) (e_txq_w e) [wrapped];
               Some (0, call AsyncWake
                 (e\<lparr>e_txq_len := lens, e_txq_w := (e_txq_w e + 1) mod AT_TXQ_CAP,
                    e_txq_n := e_txq_n e + 1\<rparr>)) }) })"

definition pop_slot :: "at_engine \<Rightarrow> at_engine" where
  "pop_slot e = e\<lparr>e_txq_r := (e_txq_r e + 1) mod AT_TXQ_CAP, e_txq_n := e_txq_n e - 1\<rparr>"

definition on_usb_out :: "int \<Rightarrow> at_engine \<Rightarrow> at_engine option" where
  "on_usb_out rc e =
     (if rc \<noteq> 0 \<and> e_tx_out_retries e < AT_TX_OUT_MAX_RETRIES \<and> e_txq_n e > 0
      then Some (call (ClearStall 0) (e\<lparr>e_tx_out_retries := e_tx_out_retries e + 1\<rparr>))
      else do {
        (let e = e\<lparr>e_tx_out_retries := 0\<rparr> in do {
           (n, e) \<leftarrow> (if e_txq_n e > 0
              then do { n \<leftarrow> load8 (e_txq_len e) (e_txq_r e); Some (n, pop_slot e) }
              else Some (0, e));
           Some (if rc = 0 then (if n \<noteq> 0 then add_tx n e else e) else add_tx_err e) }) })"

definition drop_head :: "nat \<Rightarrow> at_engine \<Rightarrow> at_engine" where
  "drop_head idx e =
     (let e = e\<lparr>e_tx_out_retries := 0\<rparr>;
          e = (if e_txq_n e > 0 \<and> e_txq_r e = idx then pop_slot e else e) in
      add_tx_err e)"

text \<open>
  \<open>busy\<close> is \<open>at_usb_async_out_busy\<close>; \<open>wr1\<close> and \<open>wr2\<close> are the results of the two submissions. The
  second component tells whether an OUT transfer of that message is now in flight.
\<close>

definition usb_try_start_out :: "bool \<Rightarrow> int \<Rightarrow> int \<Rightarrow> at_engine \<Rightarrow> (at_engine \<times> buf option) option" where
  "usb_try_start_out busy wr1 wr2 e =
     (case e_txq_flat e of
        None \<Rightarrow> Some (e, None)
      | Some flat \<Rightarrow>
          if \<not> e_usb e \<or> busy \<or> e_txq_n e \<le> 0 then Some (e, None)
          else do {
            (let idx = e_txq_r e in do {
            n \<leftarrow> load8 (e_txq_len e) idx;
            ptr \<leftarrow> txq_slot flat idx;
            m \<leftarrow> load_bytes ptr 0 n;
            (let e = call (SubmitOut m) e in
             if wr1 = 1 then Some (e, None)
             else if wr1 = 0 then Some (e, Some m)
             else if e_tx_out_retries e < AT_TX_OUT_MAX_RETRIES \<and> e_txq_n e > 0 \<and> e_txq_r e = idx then
               (let e = call (SubmitOut m) (call (ClearStall 0) (e\<lparr>e_tx_out_retries := e_tx_out_retries e + 1\<rparr>)) in
                if wr2 = 0 then Some (e, Some m)
                else if wr2 = 1 then Some (e, None)
                else Some (drop_head idx e, None))
             else Some (drop_head idx e, None)) }) })"

text \<open>
  The synchronous drain: \<open>wrs\<close> are the results of the writes, one per queued message; the loop ends
  when the queue is empty, or with \<open>wrs\<close> when it is shorter.
\<close>

fun usb_drain_tx :: "int list \<Rightarrow> at_engine \<Rightarrow> at_engine option" where
  "usb_drain_tx wrs e =
     (if e_txq_n e \<le> 0 then Some e
      else case wrs of
        [] \<Rightarrow> Some e
      | wr # wrs' \<Rightarrow> do {
          flat \<leftarrow> e_txq_flat e;
          n \<leftarrow> load8 (e_txq_len e) (e_txq_r e);
          ptr \<leftarrow> txq_slot flat (e_txq_r e);
          m \<leftarrow> load_bytes ptr 0 n;
          (let e = pop_slot (call (BulkWrite m) e) in
           usb_drain_tx wrs' (if wr = 0 then add_tx n e else add_tx_err e)) })"

declare usb_drain_tx.simps [simp del]

section \<open>The ring as a list of messages\<close>

definition txq_inv :: "at_engine \<Rightarrow> bool" where
  "txq_inv e \<longleftrightarrow>
     (case e_txq_flat e of None \<Rightarrow> False | Some flat \<Rightarrow> length flat = AT_TXQ_CAP * AT_TXQ_SLOT) \<and>
     length (e_txq_len e) = AT_TXQ_CAP \<and> list_all (\<lambda>n. n \<le> AT_TXQ_SLOT) (e_txq_len e) \<and>
     e_txq_r e < AT_TXQ_CAP \<and> 0 \<le> e_txq_n e \<and> e_txq_n e \<le> int AT_TXQ_CAP \<and>
     e_txq_w e = (e_txq_r e + nat (e_txq_n e)) mod AT_TXQ_CAP"

definition slot_msg :: "at_engine \<Rightarrow> nat \<Rightarrow> buf" where
  "slot_msg e i = (case e_txq_flat e of None \<Rightarrow> [] | Some flat \<Rightarrow> field flat (i * AT_TXQ_SLOT) (e_txq_len e ! i))"

definition txq_msgs :: "at_engine \<Rightarrow> buf list" where
  "txq_msgs e = map (\<lambda>k. slot_msg e ((e_txq_r e + k) mod AT_TXQ_CAP)) [0..<nat (e_txq_n e)]"

record tx_view =
  q_msgs :: "buf list"
  q_retries :: int
  q_bytes :: u64
  q_frames :: u64
  q_errors :: u64

definition tx_view_of :: "at_engine \<Rightarrow> tx_view" where
  "tx_view_of e = \<lparr>q_msgs = txq_msgs e, q_retries = e_tx_out_retries e, q_bytes = e_tx_bytes e,
     q_frames = e_tx_frames e, q_errors = e_tx_errors e\<rparr>"

subsection \<open>Accessors of the helpers\<close>

lemmas tx_helper_defs = add_tx_def add_tx_err_def note_tx_overflow_def call_def pop_slot_def

lemma txq_invE:
  assumes "txq_inv e"
  obtains flat where "e_txq_flat e = Some flat" "length flat = 524288" "length (e_txq_len e) = 128"
    "\<And>i. i < 128 \<Longrightarrow> e_txq_len e ! i \<le> 4096" "e_txq_r e < 128" "0 \<le> e_txq_n e" "e_txq_n e \<le> 128"
    "e_txq_w e = (e_txq_r e + nat (e_txq_n e)) mod 128"
proof (cases "e_txq_flat e")
  case (Some flat)
  then show ?thesis using assms by (intro that) (auto simp: txq_inv_def list_all_length)
qed (use assms in \<open>simp add: txq_inv_def\<close>)

lemma length_txq_msgs [simp]: "length (txq_msgs e) = nat (e_txq_n e)"
  by (simp add: txq_msgs_def)

lemma ring_frame:
  assumes "e_txq_flat e' = e_txq_flat e" "e_txq_len e' = e_txq_len e" "e_txq_r e' = e_txq_r e"
    "e_txq_w e' = e_txq_w e" "e_txq_n e' = e_txq_n e"
  shows "txq_inv e' \<longleftrightarrow> txq_inv e" "txq_msgs e' = txq_msgs e" "slot_msg e' = slot_msg e"
proof -
  have s: "slot_msg e' = slot_msg e" using assms by (simp add: slot_msg_def fun_eq_iff split: option.splits)
  then show "slot_msg e' = slot_msg e" .
  show "txq_inv e' \<longleftrightarrow> txq_inv e" using assms by (simp add: txq_inv_def)
  show "txq_msgs e' = txq_msgs e" using assms s by (simp add: txq_msgs_def)
qed

lemma txq_msgs_Cons:
  assumes "txq_inv e" "e_txq_n e > 0"
  shows "txq_msgs e = slot_msg e (e_txq_r e) # txq_msgs (pop_slot e)"
proof -
  obtain n where n: "nat (e_txq_n e) = Suc n" using assms(2) by (cases "nat (e_txq_n e)") auto
  then have n': "nat (e_txq_n e - 1) = n" by simp
  have r: "e_txq_r e mod 128 = e_txq_r e" using assms(1) by (auto elim: txq_invE)
  have s: "slot_msg (pop_slot e) = slot_msg e" by (simp add: slot_msg_def pop_slot_def fun_eq_iff split: option.splits)
  have "txq_msgs e = map (\<lambda>k. slot_msg e ((e_txq_r e + k) mod 128)) (0 # map Suc [0..<n])"
    unfolding txq_msgs_def n map_Suc_upt by (simp only: upt_conv_Cons [OF zero_less_Suc])
  also have "\<dots> = slot_msg e (e_txq_r e) # map (\<lambda>k. slot_msg e ((e_txq_r e + Suc k) mod 128)) [0..<n]"
    by (simp add: r)
  also have "map (\<lambda>k. slot_msg e ((e_txq_r e + Suc k) mod 128)) [0..<n] = txq_msgs (pop_slot e)"
    unfolding txq_msgs_def s by (simp add: pop_slot_def n' mod_simps)
  finally show ?thesis .
qed

lemma txq_inv_pop:
  assumes "txq_inv e" "e_txq_n e > 0"
  shows "txq_inv (pop_slot e)"
proof -
  obtain n where n: "nat (e_txq_n e) = Suc n" using assms(2) by (cases "nat (e_txq_n e)") auto
  then have "nat (e_txq_n e - 1) = n" by simp
  then show ?thesis using assms n by (simp add: txq_inv_def pop_slot_def mod_simps)
qed

text \<open>The oldest message as the consumer reads it.\<close>

lemma head_reads:
  assumes "txq_inv e" "e_txq_n e > 0"
  obtains flat slot where
    "e_txq_flat e = Some flat" "txq_slot flat (e_txq_r e) = Some slot"
    "load8 (e_txq_len e) (e_txq_r e) = Some (length (hd (txq_msgs e)))"
    "load_bytes slot 0 (length (hd (txq_msgs e))) = Some (hd (txq_msgs e))"
proof -
  from assms(1) obtain flat where f: "e_txq_flat e = Some flat" "length flat = 524288"
    "length (e_txq_len e) = 128" "e_txq_len e ! e_txq_r e \<le> 4096" "e_txq_r e < 128"
    by (elim txq_invE) auto
  let ?n = "e_txq_len e ! e_txq_r e"
  have bound: "e_txq_r e * 4096 + 4096 \<le> length flat" using f by simp
  have h: "hd (txq_msgs e) = field flat (e_txq_r e * 4096) ?n"
    using txq_msgs_Cons [OF assms] f by (simp add: slot_msg_def)
  have l: "length (hd (txq_msgs e)) = ?n" using h f bound by simp
  show ?thesis
  proof (rule that [OF f(1)])
    show "txq_slot flat (e_txq_r e) = Some (field flat (e_txq_r e * 4096) 4096)"
      using bound by (simp add: txq_slot_def load_bytes_field)
    show "load8 (e_txq_len e) (e_txq_r e) = Some (length (hd (txq_msgs e)))"
      using f l by (simp add: load8_def)
    have "?n \<le> length (field flat (e_txq_r e * 4096) 4096)"
      using f bound by simp
    then show "load_bytes (field flat (e_txq_r e * 4096) 4096) 0 (length (hd (txq_msgs e))) = Some (hd (txq_msgs e))"
      unfolding l h using f by (simp add: load_bytes_field field_field)
  qed
qed

subsection \<open>Appending a message\<close>

definition ring_put :: "buf \<Rightarrow> at_engine \<Rightarrow> at_engine" where
  "ring_put m e = e\<lparr>e_txq_flat := map_option (\<lambda>f. splice_at f (e_txq_w e * AT_TXQ_SLOT) m) (e_txq_flat e),
     e_txq_len := (e_txq_len e)[e_txq_w e := length m],
     e_txq_w := (e_txq_w e + 1) mod AT_TXQ_CAP, e_txq_n := e_txq_n e + 1\<rparr>"

lemma splice_at_rest:
  "i + k \<le> length f \<Longrightarrow> length m \<le> k \<Longrightarrow>
   splice_at f i (m @ drop (length m) (field f i k)) = splice_at f i m"
  by (rule nth_equalityI) (auto simp: nth_splice_at nth_append field_def)

lemma splice_at_one: "i < length xs \<Longrightarrow> splice_at xs i [x] = xs[i := x]"
  by (simp add: splice_at_def upd_conv_take_nth_drop)

lemma ring_call [simp]: "txq_inv (call c e) = txq_inv e" "txq_msgs (call c e) = txq_msgs e"
  by (rule ring_frame(1,2); simp add: call_def)+

text \<open>A successful \<open>send_eth_usb\<close>: append, then wake the USB thread.\<close>

definition txq_put :: "buf \<Rightarrow> at_engine \<Rightarrow> at_engine" where
  "txq_put m e = call AsyncWake (ring_put m e)"

lemma send_eq:
  assumes "txq_inv e" "length eth < 2 ^ 32"
  shows "send_eth_usb e eth =
    Some (if e_txq_n e \<ge> 128 \<or> eth = [] \<or> packet_size eth (e_align e) > 4096 then (-1, add_tx_err e)
          else (0, txq_put (packet eth (e_align e)) e))"
proof -
  from assms(1) obtain flat where f: "e_txq_flat e = Some flat" "length flat = 524288"
    "length (e_txq_len e) = 128" "e_txq_w e < 128"
    by (elim txq_invE) auto
  let ?i = "e_txq_w e * 4096" and ?k = "packet_size eth (e_align e)"
  have bound: "?i + 4096 \<le> length flat" using f by simp
  have slot: "txq_slot flat (e_txq_w e) = Some (field flat ?i 4096)"
    using bound by (simp add: txq_slot_def load_bytes_field)
  have len: "length (field flat ?i 4096) = 4096" using bound by simp
  consider "e_txq_n e \<ge> 128" | "e_txq_n e < 128" "eth = [] \<or> ?k > 4096"
    | "e_txq_n e < 128" "eth \<noteq> []" "?k \<le> 4096" by linarith
  then show ?thesis
  proof cases
    case 1 then show ?thesis using f by (simp add: send_eth_usb_def note_tx_overflow_def add_tx_err_def)
  next
    case 2
    have "splice_at flat ?i (field flat ?i 4096) = flat"
      using bound splice_at_idem [of ?i "field flat ?i 4096" flat] by (simp add: field_def)
    moreover have up: "e\<lparr>e_txq_flat := Some flat\<rparr> = e" using f(1) by simp
    ultimately show ?thesis using 2 f slot len bound wrap_layout [OF assms(2)]
      by (simp add: send_eth_usb_def store_bytes_Some up)
  next
    case 3
    have k: "0 < ?k" using packet_size_bounds(1) [of eth "e_align e"] by simp
    have st: "store_bytes (e_txq_len e) (e_txq_w e) [?k] = Some ((e_txq_len e)[e_txq_w e := ?k])"
      using f by (simp add: store_bytes_Some splice_at_one)
    have "splice_at flat ?i (packet eth (e_align e) @ drop ?k (field flat ?i 4096)) =
        splice_at flat ?i (packet eth (e_align e))"
      using splice_at_rest [of ?i 4096 flat "packet eth (e_align e)"] 3 bound by simp
    then show ?thesis using 3 f slot len bound wrap_layout [OF assms(2)] k st
      by (simp add: send_eth_usb_def store_bytes_Some txq_put_def ring_put_def)
  qed
qed

lemma ring_put_props:
  assumes "txq_inv e" "e_txq_n e < 128" "length m \<le> 4096"
  shows "txq_inv (ring_put m e)" "txq_msgs (ring_put m e) = txq_msgs e @ [m]"
proof -
  from assms(1) obtain flat where f: "e_txq_flat e = Some flat" "length flat = 524288"
    "length (e_txq_len e) = 128" "\<And>i. i < 128 \<Longrightarrow> e_txq_len e ! i \<le> 4096" "e_txq_r e < 128" "0 \<le> e_txq_n e"
    "e_txq_w e = (e_txq_r e + nat (e_txq_n e)) mod 128"
    by (elim txq_invE) auto
  let ?n = "nat (e_txq_n e)" and ?w = "e_txq_w e"
  have n: "nat (e_txq_n e + 1) = Suc ?n" "?n < 128" using f(6) assms(2) by auto
  have w: "?w < 128" using f(7) by simp
  have bound: "?w * 4096 + length m \<le> length flat" using f(2) w assms(3) by simp
  show "txq_inv (ring_put m e)"
    using f n bound assms(2,3) w
    by (simp add: txq_inv_def ring_put_def list_all_length nth_list_update mod_simps)
  have new: "slot_msg (ring_put m e) ?w = m"
    using f(1,3) w bound by (simp add: slot_msg_def ring_put_def field_splice_same)
  have old: "slot_msg (ring_put m e) i = slot_msg e i" if "i < 128" "i \<noteq> ?w" for i
  proof -
    have "i * 4096 + e_txq_len e ! i \<le> ?w * 4096 \<or> ?w * 4096 + length m \<le> i * 4096"
      using that f(4) [OF that(1)] assms(3) by linarith
    then show ?thesis
      using f(1) that bound by (simp add: slot_msg_def ring_put_def field_splice_other)
  qed
  have ne: "(e_txq_r e + k) mod 128 \<noteq> ?w" if "k < ?n" for k
  proof
    assume "(e_txq_r e + k) mod 128 = ?w"
    then have "(e_txq_r e + ?n) mod 128 = (e_txq_r e + k) mod 128" using f(7) by simp
    then have "128 dvd ?n - k" using that by (simp add: mod_eq_dvd_iff_nat)
    then show False using that n(2) by (auto dest: dvd_imp_le)
  qed
  have "txq_msgs (ring_put m e) = map (\<lambda>k. slot_msg (ring_put m e) ((e_txq_r e + k) mod 128)) ([0..<?n] @ [?n])"
    unfolding txq_msgs_def by (simp add: ring_put_def n)
  also have "\<dots> = map (\<lambda>k. slot_msg e ((e_txq_r e + k) mod 128)) [0..<?n] @ [m]"
    by (simp add: old ne new flip: f(7))
  finally show "txq_msgs (ring_put m e) = txq_msgs e @ [m]" by (simp add: txq_msgs_def)
qed

interpretation txq: bounded_fifo txq_inv txq_msgs AT_TXQ_CAP "\<lambda>m. length m \<le> AT_TXQ_SLOT" txq_put pop_slot
proof unfold_locales
  fix e and m :: buf assume "txq_inv e"
  then show "length (txq_msgs e) \<le> 128" by (auto elim: txq_invE)
  assume "length m \<le> 4096" "length (txq_msgs e) < 128"
  then show "txq_inv (txq_put m e) \<and> txq_msgs (txq_put m e) = txq_msgs e @ [m]"
    using ring_put_props [OF \<open>txq_inv e\<close>] \<open>txq_inv e\<close> by (auto simp: txq_put_def elim: txq_invE)
next
  fix e assume "txq_inv e" "txq_msgs e \<noteq> []"
  then have "e_txq_n e > 0" by (auto simp flip: length_0_conv)
  then show "txq_inv (pop_slot e) \<and> txq_msgs (pop_slot e) = tl (txq_msgs e)"
    using txq_inv_pop txq_msgs_Cons \<open>txq_inv e\<close> by simp
qed

section \<open>The queue as the other threads see it\<close>

text \<open>
  Every operation on the ring, and the same operation on a plain list of messages with the
  counters. The flags \<open>usb\<close> and \<open>align\<close> are set before the threads start and do not change.
\<close>

datatype tx_event =
    Send buf
  | TryStart bool int int
  | OutDone int
  | Drain "int list"

fun tx_step :: "tx_event \<Rightarrow> at_engine \<Rightarrow> at_engine option" where
  "tx_step (Send eth) e = map_option snd (send_eth_usb e eth)"
| "tx_step (TryStart busy wr1 wr2) e = map_option fst (usb_try_start_out busy wr1 wr2 e)"
| "tx_step (OutDone rc) e = on_usb_out rc e"
| "tx_step (Drain wrs) e = usb_drain_tx wrs e"

definition tx_lose :: "tx_view \<Rightarrow> tx_view" where
  "tx_lose q = q\<lparr>q_msgs := tl (q_msgs q), q_retries := 0, q_errors := q_errors q + 1\<rparr>"

definition tx_count :: "int \<Rightarrow> tx_view \<Rightarrow> tx_view" where
  "tx_count wr q =
     (if wr = 0 then q\<lparr>q_msgs := tl (q_msgs q), q_bytes := q_bytes q + of_nat (length (hd (q_msgs q))),
                       q_frames := q_frames q + 1\<rparr>
      else q\<lparr>q_msgs := tl (q_msgs q), q_errors := q_errors q + 1\<rparr>)"

fun tx_spec :: "bool \<Rightarrow> u32 \<Rightarrow> tx_event \<Rightarrow> tx_view \<Rightarrow> tx_view" where
  "tx_spec usb align (Send eth) q =
     (if length (q_msgs q) \<ge> 128 \<or> eth = [] \<or> packet_size eth align > 4096
      then q\<lparr>q_errors := q_errors q + 1\<rparr> else q\<lparr>q_msgs := q_msgs q @ [packet eth align]\<rparr>)"
| "tx_spec usb align (TryStart busy wr1 wr2) q =
     (if \<not> usb \<or> busy \<or> q_msgs q = [] \<or> wr1 = 0 \<or> wr1 = 1 then q
      else if q_retries q < 2 \<and> (wr2 = 0 \<or> wr2 = 1) then q\<lparr>q_retries := q_retries q + 1\<rparr>
      else tx_lose q)"
| "tx_spec usb align (OutDone rc) q =
     (if rc \<noteq> 0 \<and> q_retries q < 2 \<and> q_msgs q \<noteq> [] then q\<lparr>q_retries := q_retries q + 1\<rparr>
      else if rc \<noteq> 0 then tx_lose q
      else if q_msgs q = [] \<or> hd (q_msgs q) = [] then q\<lparr>q_msgs := tl (q_msgs q), q_retries := 0\<rparr>
      else (tx_count 0 q)\<lparr>q_retries := 0\<rparr>)"
| "tx_spec usb align (Drain wrs) q = fold tx_count (take (length (q_msgs q)) wrs) q"

subsection \<open>Each operation against the list\<close>

lemma view_pop:
  assumes "txq_inv e" "e_txq_n e > 0"
  shows "tx_view_of (pop_slot e) = (tx_view_of e)\<lparr>q_msgs := tl (txq_msgs e)\<rparr>"
  using txq_msgs_Cons [OF assms] by (simp add: tx_view_of_def) (simp add: pop_slot_def)

lemma msgs_empty_iff: "txq_inv e \<Longrightarrow> txq_msgs e = [] \<longleftrightarrow> e_txq_n e \<le> 0"
  by (simp flip: length_0_conv)

lemma ring_helpers [simp]:
  "txq_inv (add_tx n e) = txq_inv e" "txq_msgs (add_tx n e) = txq_msgs e"
  "txq_inv (add_tx_err e) = txq_inv e" "txq_msgs (add_tx_err e) = txq_msgs e"
  "txq_inv (e\<lparr>e_tx_out_retries := k\<rparr>) = txq_inv e" "txq_msgs (e\<lparr>e_tx_out_retries := k\<rparr>) = txq_msgs e"
  by (rule ring_frame(1,2); simp add: tx_helper_defs)+

lemma counter_helpers [simp]:
  "e_txq_n (add_tx n e) = e_txq_n e" "e_txq_n (add_tx_err e) = e_txq_n e" "e_txq_n (call c e) = e_txq_n e"
  "e_txq_r (call c e) = e_txq_r e" "e_txq_len (call c e) = e_txq_len e"
  "e_tx_out_retries (call c e) = e_tx_out_retries e"
  by (simp_all add: tx_helper_defs)

lemma view_helpers [simp]:
  "tx_view_of (add_tx n e) = (tx_view_of e)\<lparr>q_bytes := e_tx_bytes e + of_nat n, q_frames := e_tx_frames e + 1\<rparr>"
  "tx_view_of (add_tx_err e) = (tx_view_of e)\<lparr>q_errors := e_tx_errors e + 1\<rparr>"
  "tx_view_of (call c e) = tx_view_of e"
  "tx_view_of (e\<lparr>e_tx_out_retries := k\<rparr>) = (tx_view_of e)\<lparr>q_retries := k\<rparr>"
  by (simp_all add: tx_view_of_def) (simp_all add: tx_helper_defs)

lemma view_fields [simp]:
  "q_msgs (tx_view_of e) = txq_msgs e" "q_retries (tx_view_of e) = e_tx_out_retries e"
  "q_bytes (tx_view_of e) = e_tx_bytes e" "q_frames (tx_view_of e) = e_tx_frames e"
  "q_errors (tx_view_of e) = e_tx_errors e"
  by (simp_all add: tx_view_of_def)

lemma view_ring_put:
  "tx_view_of (ring_put m e) = (tx_view_of e)\<lparr>q_msgs := txq_msgs (ring_put m e)\<rparr>"
  by (simp add: tx_view_of_def) (simp add: ring_put_def)

text \<open>\<open>tx_sim e q r\<close>: the operation returned, the ring is in order and shows the list \<open>q\<close>.\<close>

definition tx_sim :: "at_engine \<Rightarrow> tx_view \<Rightarrow> at_engine option \<Rightarrow> bool" where
  "tx_sim e q r \<longleftrightarrow>
     (case r of None \<Rightarrow> False
      | Some e' \<Rightarrow> txq_inv e' \<and> tx_view_of e' = q \<and> e_usb e' = e_usb e \<and> e_align e' = e_align e)"

lemma flags_helpers [simp]:
  "e_usb (add_tx n e) = e_usb e" "e_align (add_tx n e) = e_align e"
  "e_usb (add_tx_err e) = e_usb e" "e_align (add_tx_err e) = e_align e"
  "e_usb (call c e) = e_usb e" "e_align (call c e) = e_align e"
  "e_usb (pop_slot e) = e_usb e" "e_align (pop_slot e) = e_align e"
  "e_usb (ring_put m e) = e_usb e" "e_align (ring_put m e) = e_align e"
  by (simp_all add: tx_helper_defs ring_put_def)

lemma counts_pop [simp]:
  "e_tx_bytes (pop_slot e) = e_tx_bytes e" "e_tx_frames (pop_slot e) = e_tx_frames e"
  "e_tx_errors (pop_slot e) = e_tx_errors e" "e_tx_out_retries (pop_slot e) = e_tx_out_retries e"
  "e_tx_bytes (call c e) = e_tx_bytes e" "e_tx_frames (call c e) = e_tx_frames e"
  "e_tx_errors (call c e) = e_tx_errors e"
  by (simp_all add: tx_helper_defs)

lemma send_sim:
  assumes "txq_inv e" "length eth < 2 ^ 32"
  shows "tx_sim e (tx_spec (e_usb e) (e_align e) (Send eth) (tx_view_of e)) (tx_step (Send eth) e)"
proof (cases "e_txq_n e \<ge> 128 \<or> eth = [] \<or> packet_size eth (e_align e) > 4096")
  case True
  then show ?thesis using assms by (auto simp: tx_sim_def send_eq le_nat_iff)
next
  case False
  then have m: "txq_inv (ring_put (packet eth (e_align e)) e)"
    "txq_msgs (ring_put (packet eth (e_align e)) e) = txq_msgs e @ [packet eth (e_align e)]"
    using ring_put_props [OF assms(1), of "packet eth (e_align e)"] by simp_all
  then show ?thesis using assms False by (auto simp: tx_sim_def send_eq view_ring_put txq_put_def le_nat_iff)
qed

lemma drop_head_sim:
  assumes "txq_inv e" "e_txq_n e > 0"
  shows "tx_sim e (tx_lose (tx_view_of e)) (Some (drop_head (e_txq_r e) e))"
proof -
  let ?e = "e\<lparr>e_tx_out_retries := 0\<rparr>"
  have i: "txq_inv ?e" "e_txq_n ?e > 0" using assms by simp_all
  show ?thesis
    using assms txq_inv_pop [OF i] view_pop [OF i] by (simp add: tx_sim_def drop_head_def tx_lose_def)
qed

lemma out_done_sim:
  assumes "txq_inv e"
  shows "tx_sim e (tx_spec (e_usb e) (e_align e) (OutDone rc) (tx_view_of e)) (tx_step (OutDone rc) e)"
proof (cases "e_txq_n e > 0")
  case True
  obtain n where n: "load8 (e_txq_len e) (e_txq_r e) = Some n" "n = length (hd (txq_msgs e))"
    using assms True by (rule head_reads) auto
  let ?e = "e\<lparr>e_tx_out_retries := 0\<rparr>"
  have i: "txq_inv ?e" "e_txq_n ?e > 0" using assms True by simp_all
  show ?thesis
    using True n assms txq_inv_pop [OF i] view_pop [OF i] msgs_empty_iff [OF assms]
    by (simp add: tx_sim_def on_usb_out_def tx_lose_def tx_count_def)
next
  case False
  then show ?thesis
    using assms msgs_empty_iff [OF assms]
    by (simp add: tx_sim_def on_usb_out_def tx_lose_def tx_count_def)
qed

lemma try_start_eq:
  assumes "txq_inv e"
  shows "usb_try_start_out busy wr1 wr2 e =
    (let m = hd (txq_msgs e); e1 = call (SubmitOut m) e;
         e2 = call (SubmitOut m) (call (ClearStall 0) (e1\<lparr>e_tx_out_retries := e_tx_out_retries e + 1\<rparr>)) in
     Some (if \<not> e_usb e \<or> busy \<or> txq_msgs e = [] then (e, None)
           else if wr1 = 1 then (e1, None) else if wr1 = 0 then (e1, Some m)
           else if e_tx_out_retries e < 2 then
             (if wr2 = 0 then (e2, Some m) else if wr2 = 1 then (e2, None) else (drop_head (e_txq_r e) e2, None))
           else (drop_head (e_txq_r e) e1, None)))"
proof (cases "e_usb e \<and> \<not> busy \<and> txq_msgs e \<noteq> []")
  case True
  then have n: "e_txq_n e > 0" using msgs_empty_iff [OF assms] by simp
  show ?thesis
    using assms n
  proof (rule head_reads)
    fix flat slot
    assume "e_txq_flat e = Some flat" "txq_slot flat (e_txq_r e) = Some slot"
      "load8 (e_txq_len e) (e_txq_r e) = Some (length (hd (txq_msgs e)))"
      "load_bytes slot 0 (length (hd (txq_msgs e))) = Some (hd (txq_msgs e))"
    then show ?thesis using True n by (simp add: usb_try_start_out_def Let_def)
  qed
next
  case False
  then show ?thesis
    using assms msgs_empty_iff [OF assms]
    by (auto simp: usb_try_start_out_def Let_def elim!: txq_invE)
qed

lemma tx_sim_call:
  "tx_sim (call c e) q r \<longleftrightarrow> tx_sim e q r"
  "tx_sim (e\<lparr>e_tx_out_retries := k\<rparr>) q r \<longleftrightarrow> tx_sim e q r"
  by (simp_all add: tx_sim_def split: option.splits)

lemma drop_retries: "drop_head i (e\<lparr>e_tx_out_retries := k\<rparr>) = drop_head i e"
  by (simp add: drop_head_def pop_slot_def add_tx_err_def)

lemma lose_retries: "tx_lose (q\<lparr>q_retries := k\<rparr>) = tx_lose q"
  by (simp add: tx_lose_def)

lemma try_start_sim:
  assumes "txq_inv e"
  shows "tx_sim e (tx_spec (e_usb e) (e_align e) (TryStart busy wr1 wr2) (tx_view_of e))
           (tx_step (TryStart busy wr1 wr2) e)"
proof (cases "txq_msgs e = []")
  case True
  then show ?thesis using assms by (simp add: try_start_eq Let_def tx_sim_def)
next
  case False
  then have n: "e_txq_n e > 0" using msgs_empty_iff [OF assms] by simp
  let ?m = "hd (txq_msgs e)"
  let ?e1 = "call (SubmitOut ?m) e"
  let ?e2 = "call (SubmitOut ?m) (call (ClearStall 0) (?e1\<lparr>e_tx_out_retries := e_tx_out_retries e + 1\<rparr>))"
  have d1: "tx_sim e (tx_lose (tx_view_of e)) (Some (drop_head (e_txq_r e) ?e1))"
    using drop_head_sim [of ?e1] assms n by (simp add: tx_sim_call)
  have d2: "tx_sim e (tx_lose (tx_view_of e)) (Some (drop_head (e_txq_r e) ?e2))"
    using drop_head_sim [of ?e2] assms n by (simp add: tx_sim_call lose_retries)
  show ?thesis
    using assms False d1 d2
    by (simp add: try_start_eq Let_def) (simp add: tx_sim_def)
qed

lemma drain_sim:
  "txq_inv e \<Longrightarrow> tx_sim e (tx_spec (e_usb e) (e_align e) (Drain wrs) (tx_view_of e)) (tx_step (Drain wrs) e)"
proof (induction wrs arbitrary: e)
  case Nil
  then show ?case by (subst tx_step.simps, subst usb_drain_tx.simps) (simp add: tx_sim_def)
next
  case (Cons wr wrs)
  show ?case
  proof (cases "e_txq_n e > 0")
    case False
    then show ?thesis using Cons.prems
      by (subst tx_step.simps, subst usb_drain_tx.simps) (simp add: tx_sim_def)
  next
    case True
    let ?m = "hd (txq_msgs e)"
    let ?e = "pop_slot (call (BulkWrite ?m) e)"
    let ?e' = "if wr = 0 then add_tx (length ?m) ?e else add_tx_err ?e"
    have i: "txq_inv (call (BulkWrite ?m) e)" "e_txq_n (call (BulkWrite ?m) e) > 0"
      using Cons.prems True by simp_all
    have s: "usb_drain_tx (wr # wrs) e = usb_drain_tx wrs ?e'"
      using Cons.prems True
    proof (rule head_reads)
      fix flat slot
      assume "e_txq_flat e = Some flat" "txq_slot flat (e_txq_r e) = Some slot"
        "load8 (e_txq_len e) (e_txq_r e) = Some (length ?m)" "load_bytes slot 0 (length ?m) = Some ?m"
      then show ?thesis using True by (subst usb_drain_tx.simps) simp
    qed
    have v: "tx_view_of ?e' = tx_count wr (tx_view_of e)"
      using view_pop [OF i] by (simp add: tx_count_def)
    have len: "length (txq_msgs e) = Suc (length (txq_msgs ?e'))"
      using True by (simp add: pop_slot_def)
    have f: "e_usb ?e' = e_usb e" "e_align ?e' = e_align e" by simp_all
    have sp: "tx_spec u a (Drain (wr # wrs)) (tx_view_of e) = tx_spec u a (Drain wrs) (tx_view_of ?e')" for u a
      by (simp only: tx_spec.simps view_fields(1) len take_Suc_Cons fold.simps o_apply flip: v)
    have "txq_inv ?e'" using txq_inv_pop [OF i] by simp
    from Cons.IH [OF this] show ?thesis
      unfolding tx_step.simps s sp f tx_sim_def .
  qed
qed

fun tx_bounded :: "tx_event \<Rightarrow> bool" where
  "tx_bounded (Send eth) = (length eth < 2 ^ 32)"
| "tx_bounded _ = True"

lemma tx_sim_step:
  assumes "txq_inv e" "tx_bounded ev"
  shows "tx_sim e (tx_spec (e_usb e) (e_align e) ev (tx_view_of e)) (tx_step ev e)"
  using assms by (cases ev) (simp_all only: send_sim try_start_sim out_done_sim drain_sim tx_bounded.simps)

section \<open>Properties of the transmit path\<close>

lemma tx_run_sim:
  "txq_inv e \<Longrightarrow> list_all tx_bounded evs \<Longrightarrow>
   tx_sim e (fold (tx_spec (e_usb e) (e_align e)) evs (tx_view_of e)) (run tx_step evs e)"
proof (induction evs arbitrary: e)
  case Nil
  then show ?case by (simp add: tx_sim_def)
next
  case (Cons ev evs)
  then have "tx_sim e (tx_spec (e_usb e) (e_align e) ev (tx_view_of e)) (tx_step ev e)"
    by (intro tx_sim_step) simp_all
  then obtain e1 where e1: "tx_step ev e = Some e1" "txq_inv e1" "e_usb e1 = e_usb e" "e_align e1 = e_align e"
    "tx_view_of e1 = tx_spec (e_usb e) (e_align e) ev (tx_view_of e)"
    by (auto simp: tx_sim_def split: option.splits)
  show ?case using Cons.IH [OF e1(2)] Cons.prems(2) e1 by (simp add: tx_sim_def split: option.splits)
qed

text \<open>
  C18: whatever the threads do with the transmit ring, in whatever order, no access leaves its
  buffers, the ring stays in order, and what it holds, the retry count and the transmit counters
  are those of the same operations on a plain list of messages.
\<close>

theorem tx_ring_refines_list:
  assumes "txq_inv e" "list_all tx_bounded evs"
  shows "\<exists>e'. run tx_step evs e = Some e' \<and> txq_inv e' \<and>
           tx_view_of e' = fold (tx_spec (e_usb e) (e_align e)) evs (tx_view_of e)"
  using tx_run_sim [OF assms] by (auto simp: tx_sim_def split: option.splits)

definition started :: at_engine where
  "started = engine_zero\<lparr>e_usb := True, e_align := 2, e_txq_flat := Some (replicate 524288 0)\<rparr>"

lemma started_inv: "txq_inv started" "txq_msgs started = []"
  by (simp_all add: started_def engine_zero_def txq_inv_def txq_msgs_def list_all_length)

lemma packet_size_short: "length eth \<le> 60 \<Longrightarrow> packet_size eth 2 = 104"
  by (simp add: packet_size_def length_pad_eth align_bytes_def round_up_def)

theorem tx_ring_refines_list_witness:
  "\<exists>e'. run tx_step [Send [1, 2], TryStart False 0 0, Send [], OutDone 0] started = Some e' \<and> txq_inv e' \<and>
     tx_view_of e' = \<lparr>q_msgs = [], q_retries = 0, q_bytes = 104, q_frames = 1, q_errors = 1\<rparr>"
proof -
  have v: "tx_view_of started = \<lparr>q_msgs = [], q_retries = 0, q_bytes = 0, q_frames = 0, q_errors = 0\<rparr>"
    using started_inv by (simp add: tx_view_of_def) (simp add: started_def engine_zero_def)
  have f: "e_usb started = True" "e_align started = 2" by (simp_all add: started_def)
  have "packet [1, 2] 2 \<noteq> []" using packet_size_short [of "[1, 2]"] by (simp flip: length_0_conv)
  then show ?thesis
    using tx_ring_refines_list [OF started_inv(1), of "[Send [1, 2], TryStart False 0 0, Send [], OutDone 0]"]
    by (simp add: v f packet_size_short tx_count_def)
qed

subsection \<open>The message in flight\<close>

lemma sends_keep_head:
  assumes "txq_inv e" "txq_msgs e \<noteq> []" "list_all (\<lambda>eth. length eth < 2 ^ 32) eths"
  shows "\<exists>e'. run tx_step (map Send eths) e = Some e' \<and> txq_inv e' \<and> txq_msgs e' \<noteq> [] \<and>
           hd (txq_msgs e') = hd (txq_msgs e) \<and> e_txq_r e' = e_txq_r e"
  using assms
proof (induction eths arbitrary: e)
  case (Cons eth eths)
  define e1 where "e1 = (if e_txq_n e \<ge> 128 \<or> eth = [] \<or> packet_size eth (e_align e) > 4096 then add_tx_err e
                         else txq_put (packet eth (e_align e)) e)"
  have s: "tx_step (Send eth) e = Some e1" using Cons.prems by (simp add: send_eq e1_def)
  have r: "e_txq_r e1 = e_txq_r e"
    by (simp add: e1_def txq_put_def ring_put_def) (simp add: add_tx_err_def)
  have "txq_inv e1 \<and> txq_msgs e1 \<noteq> [] \<and> hd (txq_msgs e1) = hd (txq_msgs e)"
  proof (cases "e_txq_n e \<ge> 128 \<or> eth = [] \<or> packet_size eth (e_align e) > 4096")
    case True
    then show ?thesis using Cons.prems by (simp add: e1_def)
  next
    case False
    then have "length (packet eth (e_align e)) \<le> 4096" "length (txq_msgs e) < 128"
      using Cons.prems(1) by (auto elim: txq_invE)
    from txq.put [OF Cons.prems(1) this] txq.head_kept [OF Cons.prems(1) this Cons.prems(2)] False
    show ?thesis by (simp add: e1_def)
  qed
  then show ?case using Cons.IH [of e1] Cons.prems(3) s r by (simp del: tx_step.simps)
qed simp

lemma slot_head:
  assumes "txq_inv e" "txq_msgs e \<noteq> []"
  shows "slot_msg e (e_txq_r e) = hd (txq_msgs e)"
  using txq_msgs_Cons [OF assms(1)] msgs_empty_iff [OF assms(1)] assms(2) by simp

text \<open>
  An OUT transfer carries the oldest queued message, and as long as it is in flight the bytes
  the controller reads stay as they are: no number of frames sent meanwhile, accepted or rejected,
  writes to that slot or moves the head, so the completion retires and counts that very message.
\<close>

theorem in_flight_untouched:
  assumes "txq_inv e" "usb_try_start_out busy wr1 wr2 e = Some (e1, Some m)"
    "list_all (\<lambda>eth. length eth < 2 ^ 32) eths"
  shows "m = hd (txq_msgs e) \<and>
    (\<exists>e2 e3. run tx_step (map Send eths) e1 = Some e2 \<and> slot_msg e2 (e_txq_r e) = m \<and>
       on_usb_out 0 e2 = Some e3 \<and> txq_msgs e3 = tl (txq_msgs e2) \<and>
       e_tx_bytes e3 = e_tx_bytes e2 + of_nat (length m))"
proof -
  have ne: "txq_msgs e \<noteq> []" and m: "m = hd (txq_msgs e)"
    and e1: "txq_inv e1" "txq_msgs e1 = txq_msgs e" "e_txq_r e1 = e_txq_r e"
    using assms(1,2) by (auto simp: try_start_eq Let_def split: if_splits)
  from sends_keep_head [OF e1(1) _ assms(3)] e1(2,3) ne obtain e2 where
    e2: "run tx_step (map Send eths) e1 = Some e2" "txq_inv e2" "txq_msgs e2 \<noteq> []"
      "hd (txq_msgs e2) = hd (txq_msgs e)" "e_txq_r e2 = e_txq_r e"
    by auto
  have sl: "slot_msg e2 (e_txq_r e) = m" using slot_head [OF e2(2,3)] e2 m by simp
  from out_done_sim [OF e2(2), of 0] obtain e3 where
    e3: "on_usb_out 0 e2 = Some e3" "tx_view_of e3 = tx_spec (e_usb e2) (e_align e2) (OutDone 0) (tx_view_of e2)"
    by (auto simp: tx_sim_def split: option.splits)
  have "q_msgs (tx_view_of e3) = tl (txq_msgs e2)" "q_bytes (tx_view_of e3) = e_tx_bytes e2 + of_nat (length m)"
    unfolding e3(2) using e2(3,4) m by (auto simp: tx_count_def)
  then show ?thesis using m e2(1) sl e3(1) by (simp del: view_fields) (simp add: tx_view_of_def)
qed

subsection \<open>Emptying the queue\<close>

lemma drain_all:
  "txq_inv e \<Longrightarrow> length (txq_msgs e) \<le> length wrs \<Longrightarrow>
   \<exists>e'. usb_drain_tx wrs e = Some e' \<and> txq_inv e' \<and> txq_msgs e' = [] \<and>
     e_calls e' = e_calls e @ map BulkWrite (txq_msgs e)"
proof (induction wrs arbitrary: e)
  case Nil
  then show ?case using msgs_empty_iff [of e] by (subst usb_drain_tx.simps) simp
next
  case (Cons wr wrs)
  show ?case
  proof (cases "txq_msgs e = []")
    case True
    then show ?thesis using Cons.prems msgs_empty_iff [of e] by (subst usb_drain_tx.simps) simp
  next
    case False
    then have n: "e_txq_n e > 0" using msgs_empty_iff [OF Cons.prems(1)] by simp
    let ?m = "hd (txq_msgs e)"
    let ?e = "pop_slot (call (BulkWrite ?m) e)"
    let ?e' = "if wr = 0 then add_tx (length ?m) ?e else add_tx_err ?e"
    have s: "usb_drain_tx (wr # wrs) e = usb_drain_tx wrs ?e'"
      using Cons.prems(1) n
    proof (rule head_reads)
      fix flat slot
      assume "e_txq_flat e = Some flat" "txq_slot flat (e_txq_r e) = Some slot"
        "load8 (e_txq_len e) (e_txq_r e) = Some (length ?m)" "load_bytes slot 0 (length ?m) = Some ?m"
      then show ?thesis using n by (subst usb_drain_tx.simps) simp
    qed
    have g: "txq_inv ?e'" "txq_msgs ?e' = tl (txq_msgs e)"
      using txq.get [of "call (BulkWrite ?m) e"] Cons.prems(1) False by simp_all
    have c: "e_calls ?e' = e_calls e @ [BulkWrite ?m]"
      by (simp add: tx_helper_defs)
    have m: "map BulkWrite (txq_msgs e) = BulkWrite ?m # map BulkWrite (tl (txq_msgs e))"
      using False by (cases "txq_msgs e") simp_all
    show ?thesis using Cons.IH [OF g(1)] Cons.prems(2) unfolding s g(2) c m by simp
  qed
qed

lemma sends_accepted:
  "txq_inv e \<Longrightarrow> length (txq_msgs e) + length eths \<le> 128 \<Longrightarrow> list_all (\<lambda>eth. eth \<noteq> [] \<and> length eth \<le> 1518) eths \<Longrightarrow>
   run tx_step (map Send eths) e = Some (fold txq_put (map (\<lambda>eth. packet eth (e_align e)) eths) e)"
proof (induction eths arbitrary: e)
  case (Cons eth eths)
  let ?e = "txq_put (packet eth (e_align e)) e"
  have k: "packet_size eth (e_align e) \<le> 4096"
    using packet_size_bounds(2) [of eth "e_align e"] Cons.prems(3) by (simp add: length_pad_eth split: if_splits)
  have st: "tx_step (Send eth) e = Some ?e"
    using Cons.prems k by (simp add: send_eq)
  have "txq_inv ?e" "length (txq_msgs ?e) + length eths \<le> 128" "e_align ?e = e_align e"
    using txq.put [OF Cons.prems(1)] k Cons.prems(2) by (simp_all del: length_txq_msgs add: txq_put_def)
  then show ?case using Cons.IH [of ?e] Cons.prems(3) st by (simp del: tx_step.simps)
qed simp



definition one_queued :: at_engine where
  "one_queued = txq_put (packet [1, 2] 2) started"

lemma one_queued_props: "txq_inv one_queued" "txq_msgs one_queued = [packet [1, 2] 2]"
  "e_usb one_queued" "e_align one_queued = 2"
  using txq.put [of started "packet [1, 2] 2"] started_inv packet_size_short [of "[1, 2]"]
  by (simp_all add: one_queued_def) (simp_all add: txq_put_def started_def)

theorem in_flight_untouched_witness:
  "\<exists>e1 e2 e3. usb_try_start_out False 0 0 one_queued = Some (e1, Some (packet [1, 2] 2)) \<and>
     run tx_step (map Send [[3], [], replicate 5000 4]) e1 = Some e2 \<and>
     slot_msg e2 (e_txq_r one_queued) = packet [1, 2] 2 \<and> on_usb_out 0 e2 = Some e3 \<and>
     txq_msgs e3 = tl (txq_msgs e2) \<and> e_tx_bytes e3 = e_tx_bytes e2 + 104"
proof -
  let ?m = "packet [1, 2] 2"
  obtain e1 where e1: "usb_try_start_out False 0 0 one_queued = Some (e1, Some ?m)"
    using one_queued_props by (simp add: try_start_eq Let_def)
  show ?thesis
    using in_flight_untouched [OF one_queued_props(1) e1, of "[[3], [], replicate 5000 4]"] e1
      packet_size_short [of "[1, 2]"]
    by auto
qed

end
