(* ===== verification/EngineInv.thy ===== *)
theory EngineInv
  imports TxQueue
begin

text \<open>
  The invariant of a running engine, shared by the receive path, the tunnel thread and the
  maintenance thread, and what the helpers of \<open>EngineState\<close> and the transmit queue do to it.
\<close>

definition engine_inv :: "at_engine \<Rightarrow> bool" where
  "engine_inv e \<longleftrightarrow> txq_inv e \<and>
     length (e_host_mac e) = 6 \<and> length (e_gw_mac e) = 6 \<and> length (e_device_mac e) = 6 \<and>
     (case e_dhcp e of Some d \<Rightarrow> dhcp_inv d | None \<Rightarrow> True) \<and>
     (e_lease_applied e \<longrightarrow> e_saw_lease e) \<and>
     (e_state e = AT_STATE_CONNECTED \<longrightarrow> e_saw_lease e) \<and>
     (e_state e = AT_STATE_ERROR \<longrightarrow> \<not> e_running e \<and> e_error e \<noteq> '''') \<and>
     (e_state e = AT_STATE_STOPPING \<longrightarrow> \<not> e_running e) \<and>
     (AT_USB_GONE_FAILS \<le> e_usb_hard_fails e \<longrightarrow> \<not> e_running e)"

text \<open>
  \<open>step_ok P e e'\<close>: a step that keeps the invariant, switches no lease on, restarts nothing, leaves
  the user's wish alone and makes only calls in \<open>P\<close>.
\<close>

definition calls_ext :: "(ext_call \<Rightarrow> bool) \<Rightarrow> at_engine \<Rightarrow> at_engine \<Rightarrow> bool" where
  "calls_ext P e e' \<longleftrightarrow> (\<exists>cs. e_calls e' = e_calls e @ cs \<and> list_all P cs)"

definition step_ok :: "(ext_call \<Rightarrow> bool) \<Rightarrow> at_engine \<Rightarrow> at_engine \<Rightarrow> bool" where
  "step_ok P e e' \<longleftrightarrow> (engine_inv e \<longrightarrow> engine_inv e') \<and> (e_lease_applied e' \<longrightarrow> e_lease_applied e) \<and>
     (e_running e' \<longrightarrow> e_running e) \<and> e_prefer_default_route e' = e_prefer_default_route e \<and> calls_ext P e e'"

lemma calls_ext_refl [simp]: "calls_ext P e e"
  by (simp add: calls_ext_def)

lemma calls_ext_trans: "calls_ext P e e1 \<Longrightarrow> calls_ext P e1 e2 \<Longrightarrow> calls_ext P e e2"
  by (auto simp: calls_ext_def)

lemma calls_ext_mono: "calls_ext P e e' \<Longrightarrow> (\<And>c. P c \<Longrightarrow> Q c) \<Longrightarrow> calls_ext Q e e'"
  by (auto simp: calls_ext_def list_all_iff)

lemma step_ok_refl [simp]: "step_ok P e e"
  by (simp add: step_ok_def)

lemma step_ok_trans: "step_ok P e e1 \<Longrightarrow> step_ok P e1 e2 \<Longrightarrow> step_ok P e e2"
  by (auto simp: step_ok_def intro: calls_ext_trans)

lemma step_ok_mono: "step_ok P e e' \<Longrightarrow> (\<And>c. P c \<Longrightarrow> Q c) \<Longrightarrow> step_ok Q e e'"
  by (auto simp: step_ok_def intro: calls_ext_mono)

lemma engine_inv_txq [simp, intro]: "engine_inv e \<Longrightarrow> txq_inv e"
  by (simp add: engine_inv_def)

section \<open>The helpers\<close>

text \<open>A step that changes neither the ring nor what the invariant mentions.\<close>

lemma engine_inv_frame:
  assumes "txq_inv e' = txq_inv e" "e_host_mac e' = e_host_mac e" "e_gw_mac e' = e_gw_mac e"
    "e_device_mac e' = e_device_mac e" "e_dhcp e' = e_dhcp e" "e_lease_applied e' = e_lease_applied e"
    "e_saw_lease e' = e_saw_lease e" "e_state e' = e_state e" "e_running e' = e_running e"
    "e_error e' = e_error e" "e_usb_hard_fails e' = e_usb_hard_fails e"
  shows "engine_inv e' = engine_inv e"
  using assms by (simp add: engine_inv_def)

lemma ring_helpers_rx [simp]:
  "txq_inv (add_rx n e) = txq_inv e" "txq_inv (add_rx_err e) = txq_inv e"
  "txq_inv (engine_fail m e) = txq_inv e" "txq_inv (pause_datapath e) = txq_inv e"
  by (rule ring_frame(1); simp add: add_rx_def add_rx_err_def engine_fail_def pause_datapath_def Let_def)+

lemma inv_helpers [simp]:
  "engine_inv (add_rx n e) = engine_inv e" "engine_inv (add_rx_err e) = engine_inv e"
  "engine_inv (add_tx n e) = engine_inv e" "engine_inv (add_tx_err e) = engine_inv e"
  "engine_inv (call c e) = engine_inv e"
  by (rule engine_inv_frame; (simp; fail | simp add: add_rx_def add_rx_err_def tx_helper_defs))+

lemma step_helpers [simp]:
  "step_ok P e (add_rx n e)" "step_ok P e (add_rx_err e)" "step_ok P e (add_tx_err e)"
  "P c \<Longrightarrow> step_ok P e (call c e)"
  by (simp_all add: step_ok_def calls_ext_def)
    (simp_all add: add_rx_def add_rx_err_def tx_helper_defs)

lemma strlcpy_nonempty: "1 < n \<Longrightarrow> s \<noteq> '''' \<Longrightarrow> strlcpy n s \<noteq> ''''"
  by (simp add: strlcpy_def)

lemma engine_fail_cases:
  obtains (dead) "e_state e = AT_STATE_STOPPING \<or> e_state e = AT_STATE_ERROR" "engine_fail m e = e"
  | (failed) t where "t \<noteq> ''''" "engine_fail m e = e\<lparr>e_state := AT_STATE_ERROR, e_error := t, e_running := False\<rparr>"
proof (cases "e_state e = AT_STATE_STOPPING \<or> e_state e = AT_STATE_ERROR")
  case True
  then show ?thesis by (intro dead) (simp_all add: engine_fail_def Let_def)
next
  case False
  let ?s = "case m of Some m \<Rightarrow> (if m = '''' then ''Engine error'' else m) | None \<Rightarrow> ''Engine error''"
  show ?thesis
  proof (rule failed)
    show "strlcpy 256 (strlcpy 256 ?s) \<noteq> ''''"
      by (rule strlcpy_nonempty, simp, rule strlcpy_nonempty) (simp_all split: option.split)
    show "engine_fail m e = e\<lparr>e_state := AT_STATE_ERROR, e_error := strlcpy 256 (strlcpy 256 ?s), e_running := False\<rparr>"
      using False by (simp add: engine_fail_def Let_def)
  qed
qed

lemma fail_step [simp]: "step_ok P e (engine_fail m e)"
proof (cases rule: engine_fail_cases [of e m])
  case dead
  then show ?thesis by simp
next
  case (failed t)
  have "txq_inv (e\<lparr>e_state := AT_STATE_ERROR, e_error := t, e_running := False\<rparr>) = txq_inv e"
    by (rule ring_frame) simp_all
  then show ?thesis using failed(1)
    unfolding failed(2) by (simp add: step_ok_def calls_ext_def) (simp add: engine_inv_def)
qed

lemma pause_cases:
  obtains "engine_inv e \<Longrightarrow> e_saw_lease e"
    "pause_datapath e = e\<lparr>e_lease_applied := False, e_gw_mac_ok := False, e_state := AT_STATE_CONNECTING\<rparr>"
  | "e_state e \<noteq> AT_STATE_CONNECTED" "pause_datapath e = e\<lparr>e_lease_applied := False, e_gw_mac_ok := False\<rparr>"
  by (cases "e_state e = AT_STATE_CONNECTED") (auto simp: pause_datapath_def engine_inv_def)

lemma pause_step [simp]: "step_ok P e (pause_datapath e)"
proof (cases rule: pause_cases [of e])
  case 1
  have "txq_inv (e\<lparr>e_lease_applied := False, e_gw_mac_ok := False, e_state := AT_STATE_CONNECTING\<rparr>) = txq_inv e"
    by (rule ring_frame) simp_all
  then show ?thesis
    unfolding 1(2) by (simp add: step_ok_def calls_ext_def) (simp add: engine_inv_def)
next
  case 2
  have "txq_inv (e\<lparr>e_lease_applied := False, e_gw_mac_ok := False\<rparr>) = txq_inv e"
    by (rule ring_frame) simp_all
  then show ?thesis
    unfolding 2(2) by (simp add: step_ok_def calls_ext_def) (simp add: engine_inv_def)
qed

lemma put_inv:
  assumes "engine_inv e" "e_txq_n e < 128" "length m \<le> 4096"
  shows "engine_inv (txq_put m e)"
proof -
  have "txq_inv (txq_put m e)"
    using assms ring_put_props [of e m] by (simp add: txq_put_def)
  moreover have "engine_inv (txq_put m e) = engine_inv e"
    by (rule engine_inv_frame)
      (use assms calculation in \<open>simp_all add: txq_put_def ring_put_def call_def\<close>)
  ultimately show ?thesis using assms by simp
qed

text \<open>Sending never fails to return, and at most wakes the USB thread.\<close>

definition wakes :: "ext_call \<Rightarrow> bool" where
  "wakes c \<longleftrightarrow> c = AsyncWake"

lemma send_step:
  assumes "engine_inv e" "length eth < 2 ^ 32"
  shows "\<exists>rc e'. send_eth_usb e eth = Some (rc, e') \<and> step_ok wakes e e'"
proof (cases "e_txq_n e \<ge> 128 \<or> eth = [] \<or> packet_size eth (e_align e) > 4096")
  case True
  then show ?thesis using assms by (simp add: send_eq)
next
  case False
  then have "engine_inv (txq_put (packet eth (e_align e)) e)"
    using assms put_inv [of e "packet eth (e_align e)"] by simp
  then have "step_ok wakes e (txq_put (packet eth (e_align e)) e)"
    by (simp add: step_ok_def calls_ext_def) (simp add: txq_put_def ring_put_def call_def wakes_def)
  then show ?thesis using False assms by (simp add: send_eq)
qed

text \<open>A send touches nothing but the ring, the error counter and the call log.\<close>

definition only_tx :: "at_engine \<Rightarrow> at_engine \<Rightarrow> bool" where
  "only_tx e e' \<longleftrightarrow> e' = e\<lparr>e_tx_errors := e_tx_errors e', e_txq_flat := e_txq_flat e', e_txq_len := e_txq_len e',
     e_txq_w := e_txq_w e', e_txq_n := e_txq_n e', e_calls := e_calls e'\<rparr>"

lemma only_txD:
  assumes "only_tx e e'"
  shows "e_state e' = e_state e" "e_running e' = e_running e" "e_lease_applied e' = e_lease_applied e"
    "e_saw_lease e' = e_saw_lease e" "e_host_ip e' = e_host_ip e" "e_gw_ip e' = e_gw_ip e"
    "e_gw_mac e' = e_gw_mac e" "e_gw_mac_ok e' = e_gw_mac_ok e" "e_net e' = e_net e" "e_dhcp e' = e_dhcp e"
    "e_error e' = e_error e" "e_rx_bytes e' = e_rx_bytes e" "e_tx_bytes e' = e_tx_bytes e"
    "e_prefer_default_route e' = e_prefer_default_route e" "e_host_mac e' = e_host_mac e"
proof -
  from assms obtain a b c w n k where "e' = e\<lparr>e_tx_errors := a, e_txq_flat := b, e_txq_len := c,
      e_txq_w := w, e_txq_n := n, e_calls := k\<rparr>"
    unfolding only_tx_def by blast
  then show "e_state e' = e_state e" "e_running e' = e_running e" "e_lease_applied e' = e_lease_applied e"
    "e_saw_lease e' = e_saw_lease e" "e_host_ip e' = e_host_ip e" "e_gw_ip e' = e_gw_ip e"
    "e_gw_mac e' = e_gw_mac e" "e_gw_mac_ok e' = e_gw_mac_ok e" "e_net e' = e_net e" "e_dhcp e' = e_dhcp e"
    "e_error e' = e_error e" "e_rx_bytes e' = e_rx_bytes e" "e_tx_bytes e' = e_tx_bytes e"
    "e_prefer_default_route e' = e_prefer_default_route e" "e_host_mac e' = e_host_mac e"
    by simp_all
qed

lemma send_only_tx:
  assumes "txq_inv e" "length m < 2 ^ 32" "send_eth_usb e m = Some (rc, e')"
  shows "only_tx e e'"
proof -
  have "e' = add_tx_err e \<or> e' = txq_put (packet m (e_align e)) e"
    using assms(3) by (auto simp: send_eq [OF assms(1,2)] split: if_splits)
  then show ?thesis
    by (auto simp: only_tx_def) (simp_all add: add_tx_err_def txq_put_def ring_put_def call_def)
qed

text \<open>The consumer of the ring: its steps leave everything but the ring and the counters alone.\<close>

definition out_calls :: "ext_call \<Rightarrow> bool" where
  "out_calls c \<longleftrightarrow> (case c of ClearStall k \<Rightarrow> k = 0 | SubmitOut m \<Rightarrow> True | BulkWrite m \<Rightarrow> True | _ \<Rightarrow> False)"

definition only_out :: "at_engine \<Rightarrow> at_engine \<Rightarrow> bool" where
  "only_out e e' \<longleftrightarrow> (\<exists>a b c d f g cs. e' = e\<lparr>e_tx_bytes := a, e_tx_frames := b, e_tx_errors := c,
     e_tx_out_retries := d, e_txq_r := f, e_txq_n := g, e_calls := e_calls e @ cs\<rparr> \<and> list_all out_calls cs)"

lemma only_out_trans: "only_out e e1 \<Longrightarrow> only_out e1 e2 \<Longrightarrow> only_out e e2"
  unfolding only_out_def by (elim exE conjE) (simp, metis append.assoc list_all_append)

lemma only_outI:
  assumes "e' = e\<lparr>e_tx_bytes := a, e_tx_frames := b, e_tx_errors := c,
     e_tx_out_retries := d, e_txq_r := f, e_txq_n := g, e_calls := e_calls e @ cs\<rparr>" "list_all out_calls cs"
  shows "only_out e e'"
  using assms unfolding only_out_def by blast

lemma only_out_helpers [simp]:
  "only_out e e" "only_out e (add_tx n e)" "only_out e (add_tx_err e)" "only_out e (pop_slot e)"
  "only_out e (e\<lparr>e_tx_out_retries := d\<rparr>)" "out_calls c \<Longrightarrow> only_out e (call c e)"
proof -
  note I = only_outI [where a = "e_tx_bytes e" and b = "e_tx_frames e" and c = "e_tx_errors e" and
      d = "e_tx_out_retries e" and f = "e_txq_r e" and g = "e_txq_n e" and e = e]
  show "only_out e e" by (rule I [where cs = "[]"]) simp_all
  show "out_calls c \<Longrightarrow> only_out e (call c e)" by (rule I [where cs = "[c]"]) (simp_all add: call_def)
  show "only_out e (add_tx n e)"
    by (rule only_outI [where a = "e_tx_bytes e + of_nat n" and b = "e_tx_frames e + 1" and c = "e_tx_errors e" and
        d = "e_tx_out_retries e" and f = "e_txq_r e" and g = "e_txq_n e" and cs = "[]"]) (simp_all add: add_tx_def)
  show "only_out e (add_tx_err e)"
    by (rule only_outI [where a = "e_tx_bytes e" and b = "e_tx_frames e" and c = "e_tx_errors e + 1" and
        d = "e_tx_out_retries e" and f = "e_txq_r e" and g = "e_txq_n e" and cs = "[]"]) (simp_all add: add_tx_err_def)
  show "only_out e (pop_slot e)"
    by (rule only_outI [where a = "e_tx_bytes e" and b = "e_tx_frames e" and c = "e_tx_errors e" and
        d = "e_tx_out_retries e" and f = "(e_txq_r e + 1) mod 128" and g = "e_txq_n e - 1" and cs = "[]"])
      (simp_all add: pop_slot_def)
  show "only_out e (e\<lparr>e_tx_out_retries := d\<rparr>)"
    by (rule only_outI [where a = "e_tx_bytes e" and b = "e_tx_frames e" and c = "e_tx_errors e" and
        d = d and f = "e_txq_r e" and g = "e_txq_n e" and cs = "[]"]) simp_all
qed

lemma only_out_step:
  assumes "only_out e e'" "txq_inv e'"
  shows "step_ok out_calls e e'"
proof -
  from assms(1) obtain a b c d f g cs where e': "e' = e\<lparr>e_tx_bytes := a, e_tx_frames := b, e_tx_errors := c,
     e_tx_out_retries := d, e_txq_r := f, e_txq_n := g, e_calls := e_calls e @ cs\<rparr>" "list_all out_calls cs"
    unfolding only_out_def by blast
  have "engine_inv e \<Longrightarrow> engine_inv e'"
    using assms(2) unfolding engine_inv_def by (simp add: e'(1))
  then show ?thesis using e'(2) by (simp add: step_ok_def calls_ext_def) (simp add: e'(1))
qed

lemma out_done_step:
  assumes "engine_inv e"
  obtains e' where "on_usb_out rc e = Some e'" "step_ok out_calls e e'"
proof -
  have inv: "txq_inv e" using assms by simp
  obtain e' where e': "on_usb_out rc e = Some e'" "txq_inv e'"
    using out_done_sim [OF inv, of rc] by (auto simp: tx_sim_def split: option.splits)
  let ?e0 = "e\<lparr>e_tx_out_retries := 0\<rparr>"
  have z: "only_out e ?e0" "only_out e (pop_slot ?e0)"
    using only_out_trans [OF only_out_helpers(5) only_out_helpers(4)] by simp_all
  have "only_out e e'"
    using e'(1) z only_out_trans [OF z(1)] only_out_trans [OF z(2)]
      only_out_trans [OF only_out_helpers(5) only_out_helpers(6) [of "ClearStall 0"]]
    by (auto simp: on_usb_out_def Let_def out_calls_def split: if_splits bind_splits)
  then show thesis using that e' only_out_step by blast
qed

lemma drop_head_only_out: "only_out e (drop_head i e)"
proof -
  have "only_out e (pop_slot (e\<lparr>e_tx_out_retries := 0\<rparr>))"
    using only_out_trans [OF only_out_helpers(5) only_out_helpers(4)] by simp
  then show ?thesis
    using only_out_trans [OF _ only_out_helpers(3)] only_out_helpers(5) by (simp add: drop_head_def Let_def)
qed

lemma try_start_step:
  assumes "engine_inv e"
  obtains e' m where "usb_try_start_out busy wr1 wr2 e = Some (e', m)" "step_ok out_calls e e'"
proof -
  have inv: "txq_inv e" using assms by simp
  let ?m = "hd (txq_msgs e)"
  let ?e1 = "call (SubmitOut ?m) e"
  let ?e1' = "call (ClearStall 0) (?e1\<lparr>e_tx_out_retries := e_tx_out_retries e + 1\<rparr>)"
  let ?e2 = "call (SubmitOut ?m) ?e1'"
  have o1: "only_out e ?e1" by (simp add: out_calls_def)
  have o1': "only_out e (?e1\<lparr>e_tx_out_retries := e_tx_out_retries e + 1\<rparr>)"
    by (rule only_out_trans [OF o1]) simp
  have "only_out e ?e1'" by (rule only_out_trans [OF o1']) (simp add: out_calls_def)
  then have o2: "only_out e ?e2" by (rule only_out_trans) (simp add: out_calls_def)
  have d: "only_out e (drop_head (e_txq_r e) ?e1)" "only_out e (drop_head (e_txq_r e) ?e2)"
    using only_out_trans [OF o1 drop_head_only_out] only_out_trans [OF o2 drop_head_only_out] by blast+
  have "\<exists>x. usb_try_start_out busy wr1 wr2 e = Some x"
    by (simp add: try_start_eq [OF inv] Let_def)
  then obtain e' m where r: "usb_try_start_out busy wr1 wr2 e = Some (e', m)" by auto
  have "txq_inv e'"
    using try_start_sim [OF inv, of busy wr1 wr2] r by (simp add: tx_sim_def)
  moreover have "only_out e e'"
    using r o1 o2 d by (auto simp: try_start_eq [OF inv] Let_def split: if_splits)
  ultimately show thesis using that [OF r] only_out_step by blast
qed

lemma drain_step:
  assumes "engine_inv e"
  obtains e' where "usb_drain_tx wrs e = Some e'" "step_ok out_calls e e'"
proof -
  have "txq_inv e \<Longrightarrow> \<exists>e'. usb_drain_tx wrs e = Some e' \<and> txq_inv e' \<and> only_out e e'" for e
  proof (induction wrs arbitrary: e)
    case Nil
    then show ?case by (subst usb_drain_tx.simps) simp
  next
    case (Cons wr wrs)
    show ?case
    proof (cases "e_txq_n e > 0")
      case False
      then show ?thesis using Cons.prems by (subst usb_drain_tx.simps) simp
    next
      case True
      let ?m = "hd (txq_msgs e)"
      let ?e = "pop_slot (call (BulkWrite ?m) e)"
      let ?e' = "if wr = 0 then add_tx (length ?m) ?e else add_tx_err ?e"
      have s: "usb_drain_tx (wr # wrs) e = usb_drain_tx wrs ?e'"
        using Cons.prems True
      proof (rule head_reads)
        fix flat slot
        assume "e_txq_flat e = Some flat" "txq_slot flat (e_txq_r e) = Some slot"
          "load8 (e_txq_len e) (e_txq_r e) = Some (length ?m)" "load_bytes slot 0 (length ?m) = Some ?m"
        then show ?thesis using True by (subst usb_drain_tx.simps) simp
      qed
      have "only_out e (call (BulkWrite ?m) e)" by (simp add: out_calls_def)
      then have o: "only_out e ?e" by (rule only_out_trans) simp
      have o': "only_out e ?e'" using only_out_trans [OF o] by simp
      have "txq_inv ?e'" using txq_inv_pop [of "call (BulkWrite ?m) e"] Cons.prems True by simp
      from Cons.IH [OF this] show ?thesis using s only_out_trans [OF o'] by auto
    qed
  qed
  then show thesis using that only_out_step assms by blast
qed

end
