(* ===== verification/RxPath.thy ===== *)
theory RxPath
  imports EngineInv
begin

text \<open>
  The receive path of \<open>tether_engine.c\<close>: from a finished USB IN transfer through the RNDIS walker
  to the DHCP client, the ARP responder and the tunnel. Arguments that stand for the environment:
  the clock \<open>now\<close>, the value \<open>wret\<close> the \<open>write\<close> on the tunnel returns, \<open>gone\<close> for
  \<open>at_usb_is_gone\<close>. The walker delivers its frames through a callback that does not touch the
  transfer, so here the frames it returns are served one after the other.
\<close>

unbundle bit_operations_syntax

section \<open>Frames\<close>

definition ethertype :: "buf \<Rightarrow> u16 option" where
  "ethertype eth = do { hi \<leftarrow> load8 eth 12; lo \<leftarrow> load8 eth 13; Some (be16 hi lo) }"

definition looks_like_dhcp_to_client :: "buf \<Rightarrow> bool option" where
  "looks_like_dhcp_to_client frame =
     (if length frame < 14 + 20 + 8 then Some False else do {
        et \<leftarrow> ethertype frame;
        (if et \<noteq> 0x0800 then Some False else do {
           ip0 \<leftarrow> load8 frame 14;
           (if drop_bit 4 ip0 \<noteq> 4 then Some False else
              let ihl = unat (ip0 AND 0x0f) * 4 in
              if ihl < 20 \<or> 14 + ihl + 8 > length frame then Some False else do {
                proto \<leftarrow> load8 frame (14 + 9);
                (if proto \<noteq> 17 then Some False else do {
                   p2 \<leftarrow> load8 frame (14 + ihl + 2); p3 \<leftarrow> load8 frame (14 + ihl + 3);
                   Some (be16 p2 p3 = 68) }) }) }) })"

definition build_arp :: "buf \<Rightarrow> buf \<Rightarrow> u32 \<Rightarrow> buf option \<Rightarrow> u32 \<Rightarrow> u16 \<Rightarrow> (nat \<times> buf) option" where
  "build_arp eth sha spa tha tpa op =
     (if length eth < 42 then Some (0, eth) else do {
        eth \<leftarrow> store_bytes eth 0 (replicate 42 0);
        eth \<leftarrow> (if op = 1 then store_bytes eth 0 (replicate 6 0xff)
               else case tha of Some t \<Rightarrow> do { t \<leftarrow> load_bytes t 0 6; store_bytes eth 0 t } | None \<Rightarrow> Some eth);
        s \<leftarrow> load_bytes sha 0 6;
        eth \<leftarrow> store_bytes eth 6 s;
        eth \<leftarrow> store_bytes eth 12 [0x08, 0x06, 0x00, 0x01, 0x08, 0x00, 6, 4, hi8 op, lo8 op];
        eth \<leftarrow> store_bytes eth 22 s;
        eth \<leftarrow> store_bytes eth 28 (bytes32 spa);
        eth \<leftarrow> (case tha of
                Some t \<Rightarrow> if op = 2 then do { t \<leftarrow> load_bytes t 0 6; store_bytes eth 32 t } else Some eth
              | None \<Rightarrow> Some eth);
        eth \<leftarrow> store_bytes eth 38 (bytes32 tpa);
        Some (42, eth) })"

definition handle_arp :: "buf \<Rightarrow> at_engine \<Rightarrow> at_engine option" where
  "handle_arp eth e =
     (if length eth < 42 then Some e else do {
        o0 \<leftarrow> load8 eth 20; o1 \<leftarrow> load8 eth 21;
        spa \<leftarrow> load32 eth 28;
        tpa \<leftarrow> load32 eth 38;
        (let op = be16 o0 o1; host_ip = e_host_ip e in do {
           host_mac \<leftarrow> load_bytes (e_host_mac e) 0 6;
           (if op = 1 \<and> host_ip \<noteq> 0 \<and> tpa = host_ip then do {
              tha \<leftarrow> load_bytes eth 22 6;
              (n, reply) \<leftarrow> build_arp (replicate 64 0) host_mac host_ip (Some tha) spa 2;
              (if n \<noteq> 0 then do { r \<leftarrow> load_bytes reply 0 n; map_option snd (send_eth_usb e r) } else Some e) }
            else Some e) }) })"

section \<open>One frame from the phone\<close>

definition learn_gateway :: "buf \<Rightarrow> at_engine \<Rightarrow> at_engine option" where
  "learn_gateway frame e =
     (if e_gw_mac_ok e then Some e else do {
        host_mac \<leftarrow> load_bytes (e_host_mac e) 0 6;
        learned \<leftarrow> at_eth_learn_gw_mac frame host_mac (e_gw_ip e);
        (case learned of None \<Rightarrow> Some e
         | Some m \<Rightarrow> do { g \<leftarrow> at_mac_store (e_gw_mac e) m; Some (e\<lparr>e_gw_mac := g, e_gw_mac_ok := True\<rparr>) }) })"

definition feed_dhcp :: "u64 \<Rightarrow> buf \<Rightarrow> at_engine \<Rightarrow> at_engine option" where
  "feed_dhcp now frame e = do {
     dh \<leftarrow> looks_like_dhcp_to_client frame;
     (if dh then
        case e_dhcp e of None \<Rightarrow> Some e
        | Some d \<Rightarrow> do {
            (ev, d) \<leftarrow> at_dhcp_on_frame now d frame;
            (let e = e\<lparr>e_dhcp := Some d\<rparr> in Some (if ev < 0 then pause_datapath e else e)) }
      else Some e) }"

definition on_eth_from_usb :: "u64 \<Rightarrow> int \<Rightarrow> buf \<Rightarrow> at_engine \<Rightarrow> at_engine option" where
  "on_eth_from_usb now wret frame e =
     (let len = length frame in
      if len < 14 then Some e else do {
        et \<leftarrow> ethertype frame;
        e \<leftarrow> learn_gateway frame e;
        e \<leftarrow> feed_dhcp now frame e;
        (if et = 0x0806 then do { e \<leftarrow> handle_arp frame e; Some (add_rx len e) }
         else if et = 0x86DD then Some (add_rx len e)
         else if et = 0x0800 \<and> e_utun e \<noteq> None \<and> e_lease_applied e \<and> len > 14 then do {
           ip \<leftarrow> load_bytes frame 14 (len - 14);
           (rc, w) \<leftarrow> at_utun_write wret ip AF_INET;
           (let e = (case w of None \<Rightarrow> e | Some d \<Rightarrow> call (UtunWrite d) e) in
            Some (if rc = 0 then add_rx len e else add_rx_err e)) }
         else Some (add_rx len e)) })"

section \<open>One transfer\<close>

definition AT_MSG_USB_GONE :: string where
  "AT_MSG_USB_GONE = ''The USB cable was unplugged''"

definition AT_MSG_TETHER_OFF :: string where
  "AT_MSG_TETHER_OFF = ''USB tethering is off. Turn USB tethering back on on the phone''"

definition note_usb_hard_fail :: "bool \<Rightarrow> at_engine \<Rightarrow> at_engine" where
  "note_usb_hard_fail gone e =
     (let n = e_usb_hard_fails e + 1; e = e\<lparr>e_usb_hard_fails := n\<rparr> in
      if n < AT_USB_GONE_FAILS then e
      else if e_usb e \<and> gone then engine_fail (Some AT_MSG_USB_GONE) e
      else engine_fail (Some AT_MSG_TETHER_OFF) e)"

text \<open>\<open>io i\<close> is the clock and the result of the tunnel write while the \<open>i\<close>-th frame is served.\<close>

fun deliver :: "(nat \<Rightarrow> u64 \<times> int) \<Rightarrow> nat \<Rightarrow> buf list \<Rightarrow> at_engine \<Rightarrow> at_engine option" where
  "deliver io i [] e = Some e"
| "deliver io i (f # fs) e = on_eth_from_usb (fst (io i)) (snd (io i)) f e \<bind> deliver io (Suc i) fs"

definition unwrap_transfer :: "(nat \<Rightarrow> u64 \<times> int) \<Rightarrow> buf \<Rightarrow> nat \<Rightarrow> at_engine \<Rightarrow> at_engine option" where
  "unwrap_transfer io b got e = do {
     x \<leftarrow> load_bytes b 0 got;
     (n, frames) \<leftarrow> rndis_unwrap_bulk_aligned x (e_align e);
     deliver io 0 frames e }"

definition on_usb_in ::
  "(nat \<Rightarrow> u64 \<times> int) \<Rightarrow> bool \<Rightarrow> int \<Rightarrow> int \<Rightarrow> nat \<Rightarrow> buf option \<Rightarrow> at_engine \<Rightarrow> at_engine option" where
  "on_usb_in io gone sub rc got b e = do {
     e \<leftarrow> (case b of
            Some x \<Rightarrow> if rc = 0 \<and> got > 0 then unwrap_transfer io x got (e\<lparr>e_usb_hard_fails := 0\<rparr>)
                      else if rc < 0 then Some (note_usb_hard_fail gone (call (ClearStall 1) (add_rx_err e)))
                      else Some e
          | None \<Rightarrow> if rc < 0 then Some (note_usb_hard_fail gone (call (ClearStall 1) (add_rx_err e)))
                    else Some e);
     Some (if e_running e \<and> b \<noteq> None then
             let e = call SubmitIn e in if sub \<noteq> 0 then note_usb_hard_fail gone e else e
           else e) }"

section \<open>The DHCP filter\<close>

lemma dhcp_filter_eq:
  "looks_like_dhcp_to_client f = Some (14 + 20 + 8 \<le> length f \<and> be16 (f ! 12) (f ! 13) = 0x0800 \<and>
     drop_bit 4 (f ! 14) = 4 \<and> 20 \<le> unat (f ! 14 AND 0x0f) * 4 \<and>
     14 + unat (f ! 14 AND 0x0f) * 4 + 8 \<le> length f \<and> f ! 23 = 17 \<and>
     be16 (f ! (14 + unat (f ! 14 AND 0x0f) * 4 + 2)) (f ! (14 + unat (f ! 14 AND 0x0f) * 4 + 3)) = 68)"
  by (auto simp: looks_like_dhcp_to_client_def ethertype_def load8_def Let_def)

lemma be16_0800: "be16 a b = 0x0800 \<longleftrightarrow> a = 0x08 \<and> b = 0"
proof -
  have "(0x0800 :: u16) = be16 0x08 0" by (simp add: be16_def)
  then show ?thesis by (simp only: be16_inject)
qed

text \<open>
  The cheap filter in front of the DHCP client is transparent: a frame it turns away would have
  left the client unchanged and reported no change. So no reply of the phone is lost by testing
  before locking.
\<close>

theorem dhcp_filter_transparent:
  assumes "looks_like_dhcp_to_client f = Some False"
  shows "at_dhcp_on_frame now d f = Some (0, d)"
  using assms unfolding at_dhcp_on_frame_def dhcp_filter_eq
  by (auto simp: load8_def Let_def be16_0800)

theorem dhcp_filter_transparent_witness:
  "at_dhcp_on_frame 9 bound_client (replicate 300 0) = Some (0, bound_client)"
  by (rule dhcp_filter_transparent) (simp add: dhcp_filter_eq be16_0800)

section \<open>ARP\<close>

definition arp_frame :: "buf \<Rightarrow> u32 \<Rightarrow> buf option \<Rightarrow> u32 \<Rightarrow> u16 \<Rightarrow> buf" where
  "arp_frame sha spa tha tpa op =
     (if op = 1 then replicate 6 0xff else case tha of Some t \<Rightarrow> t | None \<Rightarrow> replicate 6 0) @ sha @
     [0x08, 0x06, 0x00, 0x01, 0x08, 0x00, 6, 4, hi8 op, lo8 op] @ sha @ bytes32 spa @
     (if op = 2 then case tha of Some t \<Rightarrow> t | None \<Rightarrow> replicate 6 0 else replicate 6 0) @ bytes32 tpa"



lemma build_arp_eq:
  assumes "42 \<le> length eth" "length sha = 6" "case tha of Some t \<Rightarrow> length t = 6 | None \<Rightarrow> True"
  shows "build_arp eth sha spa tha tpa op = Some (42, arp_frame sha spa tha tpa op @ drop 42 eth)"
proof -
  have z: "replicate 42 (0::byte) = replicate 6 0 @ replicate 6 0 @ replicate 10 0 @ replicate 6 0 @ replicate 4 0 @ replicate 6 0 @ replicate 4 0"
    unfolding replicate_add [symmetric] by simp
  show ?thesis
    using assms
    by (cases tha) (simp_all add: build_arp_def buf_simps z splice_at_def arp_frame_def)
qed

definition arp_request_for :: "u32 \<Rightarrow> buf \<Rightarrow> bool" where
  "arp_request_for ip f \<longleftrightarrow> 42 \<le> length f \<and> be16 (f ! 20) (f ! 21) = 1 \<and> ip \<noteq> 0 \<and> word_at f 38 = ip"

definition arp_reply :: "at_engine \<Rightarrow> buf \<Rightarrow> buf" where
  "arp_reply e f = arp_frame (e_host_mac e) (e_host_ip e) (Some (field f 22 6)) (word_at f 28) 2"

lemma length_arp_frame [simp]:
  "length sha = 6 \<Longrightarrow> (case tha of Some t \<Rightarrow> length t = 6 | None \<Rightarrow> True) \<Longrightarrow>
   length (arp_frame sha spa tha tpa op) = 42"
  by (simp add: arp_frame_def split: option.splits)

lemma handle_arp_eq:
  assumes "length (e_host_mac e) = 6"
  shows "handle_arp f e = (if arp_request_for (e_host_ip e) f then map_option snd (send_eth_usb e (arp_reply e f))
                           else Some e)"
proof (cases "42 \<le> length f")
  case True
  have b: "build_arp (replicate 64 0) (e_host_mac e) (e_host_ip e) (Some (field f 22 6)) (word_at f 28) 2 =
      Some (42, arp_reply e f @ drop 42 (replicate 64 0))"
    unfolding arp_reply_def by (rule build_arp_eq) (use True assms in simp_all)
  have l: "length (arp_reply e f) = 42"
    unfolding arp_reply_def by (rule length_arp_frame) (use True assms in simp_all)
  then have fa: "field (arp_reply e f @ z) 0 42 = arp_reply e f" for z
    by (simp add: field_def)
  show ?thesis
    using True assms l b
    by (simp add: handle_arp_def arp_request_for_def Let_def load8_Some load32_Some load_bytes_field fa)
qed (simp add: handle_arp_def arp_request_for_def)

text \<open>
  The ARP responder answers exactly the requests for the leased address, with one frame
  addressed to the asker that announces the host's MAC for that address; a peer with the learner of
  this engine takes the host's MAC from it. Every other frame is ignored.
\<close>

theorem arp_answered:
  assumes "engine_inv e" "e_txq_n e < 128"
  shows "\<exists>e'. handle_arp f e = Some e' \<and>
     txq_msgs e' = txq_msgs e @ (if arp_request_for (e_host_ip e) f then [packet (arp_reply e f) (e_align e)] else []) \<and>
     (arp_request_for (e_host_ip e) f \<longrightarrow>
        take 6 (arp_reply e f) = field f 22 6 \<and>
        (peer \<noteq> e_host_mac e \<longrightarrow>
           at_eth_learn_gw_mac (arp_reply e f) peer (e_host_ip e) = Some (Some (e_host_mac e))))"
proof (cases "arp_request_for (e_host_ip e) f")
  case True
  then have f: "42 \<le> length f" and ip: "e_host_ip e \<noteq> 0" by (simp_all add: arp_request_for_def)
  have mac: "length (e_host_mac e) = 6" using assms(1) by (simp add: engine_inv_def)
  let ?r = "arp_reply e f"
  have l: "length ?r = 42"
    unfolding arp_reply_def by (rule length_arp_frame) (use f mac in simp_all)
  have k: "packet_size ?r (e_align e) \<le> 4096" "?r \<noteq> []"
    using packet_size_bounds(2) [of ?r "e_align e"] l by (auto simp: length_pad_eth)
  have parts: "take 6 ?r = field f 22 6" "take 6 (drop 6 ?r) = e_host_mac e" "take 6 (drop 22 ?r) = e_host_mac e"
    "?r ! 12 = 0x08" "?r ! 13 = 0x06" "?r ! 20 = 0" "?r ! 21 = 2" "word_at ?r 28 = e_host_ip e"
    using f mac by (simp_all add: arp_reply_def arp_frame_def nth_append hi8_def lo8_def bytes32_def word32_bytes)
  have "arp_reply_from ?r (e_host_ip e)"
    using l parts by (simp add: arp_reply_from_def be16_def)
  then have learn: "peer \<noteq> e_host_mac e \<Longrightarrow> at_eth_learn_gw_mac ?r peer (e_host_ip e) = Some (Some (e_host_mac e))"
    by (subst learn_gw_mac_spec) (use parts ip in auto)
  have "send_eth_usb e ?r = Some (0, txq_put (packet ?r (e_align e)) e)"
    using assms k l by (simp add: send_eq)
  moreover have "txq_msgs (txq_put (packet ?r (e_align e)) e) = txq_msgs e @ [packet ?r (e_align e)]"
    using assms k ring_put_props [of e "packet ?r (e_align e)"] by (simp add: txq_put_def)
  ultimately show ?thesis using True parts(1) learn mac by (simp add: handle_arp_eq)
next
  case False
  have "length (e_host_mac e) = 6" using assms(1) by (simp add: engine_inv_def)
  then show ?thesis using False by (simp add: handle_arp_eq)
qed

section \<open>Any transfer is served safely\<close>

definition injects :: "bool \<Rightarrow> buf list \<Rightarrow> ext_call \<Rightarrow> bool" where
  "injects applied fs c \<longleftrightarrow> wakes c \<or>
     applied \<and> (\<exists>f\<in>set fs. c = UtunWrite (utun_datagram AF_INET (drop 14 f)) \<and>
       14 < length f \<and> length f \<le> 2058 \<and> be16 (f ! 12) (f ! 13) = 0x0800)"

lemma injects_wakes: "step_ok wakes e e' \<Longrightarrow> step_ok (injects a fs) e e'"
  by (erule step_ok_mono) (simp add: injects_def)

lemma learned_length:
  assumes "at_eth_learn_gw_mac f host gw = Some (Some m)"
  shows "length m = 6"
  using assms unfolding learn_gw_mac_spec
  by (auto simp: arp_reply_from_def ipv4_from_def split: if_splits)

lemma learn_gateway_step:
  assumes "engine_inv e"
  shows "\<exists>e'. learn_gateway f e = Some e' \<and> step_ok P e e'"
proof (cases "e_gw_mac_ok e")
  case True
  then show ?thesis by (simp add: learn_gateway_def)
next
  case False
  have mac: "length (e_host_mac e) = 6" "length (e_gw_mac e) = 6" using assms by (simp_all add: engine_inv_def)
  obtain l where l: "at_eth_learn_gw_mac f (e_host_mac e) (e_gw_ip e) = Some l"
    by (simp add: learn_gw_mac_spec)
  show ?thesis
  proof (cases l)
    case None
    then show ?thesis using False l mac by (simp add: learn_gateway_def load_bytes_field)
  next
    case (Some m)
    have m: "length m = 6" using l Some by (auto intro: learned_length)
    let ?e = "e\<lparr>e_gw_mac := m, e_gw_mac_ok := True\<rparr>"
    have "learn_gateway f e = Some ?e"
      using False l Some mac m
      by (simp add: learn_gateway_def load_bytes_field at_mac_store_def store_bytes_Some)
    moreover have "txq_inv ?e = txq_inv e" by (rule ring_frame) simp_all
    then have "step_ok P e ?e" using m by (simp add: step_ok_def calls_ext_def) (simp add: engine_inv_def)
    ultimately show ?thesis by blast
  qed
qed

lemma feed_dhcp_step:
  assumes "engine_inv e"
  shows "\<exists>e'. feed_dhcp now f e = Some e' \<and> step_ok P e e'"
proof (cases "looks_like_dhcp_to_client f = Some True \<and> e_dhcp e \<noteq> None")
  case True
  then obtain d where d: "e_dhcp e = Some d" by blast
  then have "dhcp_inv d" using assms by (simp add: engine_inv_def)
  then obtain r d' where r: "at_dhcp_on_frame now d f = Some (r, d')" "dhcp_inv d'" by (rule dhcp.feedE)
  let ?e = "e\<lparr>e_dhcp := Some d'\<rparr>"
  have "txq_inv ?e = txq_inv e" by (rule ring_frame) simp_all
  then have s: "step_ok P e ?e" using r(2) by (simp add: step_ok_def calls_ext_def) (simp add: engine_inv_def)
  have "feed_dhcp now f e = Some (if r < 0 then pause_datapath ?e else ?e)"
    using True d r(1) by (simp add: feed_dhcp_def)
  moreover have "step_ok P e (if r < 0 then pause_datapath ?e else ?e)"
    using step_ok_trans [OF s pause_step] s by simp
  ultimately show ?thesis by blast
next
  case False
  moreover obtain b where "looks_like_dhcp_to_client f = Some b" by (simp add: dhcp_filter_eq)
  ultimately have "feed_dhcp now f e = Some e" by (cases b) (auto simp: feed_dhcp_def)
  then show ?thesis by simp
qed

lemma handle_arp_step:
  assumes "engine_inv e"
  shows "\<exists>e'. handle_arp f e = Some e' \<and> step_ok wakes e e'"
proof -
  have mac: "length (e_host_mac e) = 6" using assms by (simp add: engine_inv_def)
  show ?thesis
  proof (cases "arp_request_for (e_host_ip e) f")
    case True
    then have "length (arp_reply e f) = 42"
      unfolding arp_reply_def by (intro length_arp_frame) (simp_all add: mac arp_request_for_def)
    then show ?thesis using True mac send_step [OF assms, of "arp_reply e f"]
      by (auto simp: handle_arp_eq)
  qed (simp add: handle_arp_eq mac)
qed

lemma step_ok_inv: "step_ok P e e' \<Longrightarrow> engine_inv e \<Longrightarrow> engine_inv e'"
  by (simp add: step_ok_def)

lemma add_rx_after: "step_ok P e0 e \<Longrightarrow> step_ok P e0 (add_rx n e)"
  by (erule step_ok_trans) simp

lemma add_rx_err_after: "step_ok P e0 e \<Longrightarrow> step_ok P e0 (add_rx_err e)"
  by (erule step_ok_trans) simp

lemma eth_step:
  assumes "engine_inv e"
  shows "\<exists>e'. on_eth_from_usb now wret f e = Some e' \<and> step_ok (injects (e_lease_applied e) [f]) e e'"
proof (cases "length f < 14")
  case True
  then show ?thesis by (simp add: on_eth_from_usb_def)
next
  case False
  let ?P = "injects (e_lease_applied e) [f]"
  let ?et = "be16 (f ! 12) (f ! 13)"
  obtain e1 where e1: "learn_gateway f e = Some e1" "step_ok ?P e e1"
    using learn_gateway_step [OF assms] by blast
  obtain e2 where e2: "feed_dhcp now f e1 = Some e2" "step_ok ?P e1 e2"
    using feed_dhcp_step step_ok_inv [OF e1(2) assms] by blast
  have s2: "step_ok ?P e e2" using e1(2) e2(2) by (rule step_ok_trans)
  obtain e3 where e3: "handle_arp f e2 = Some e3" "step_ok wakes e2 e3"
    using handle_arp_step step_ok_inv [OF s2 assms] by blast
  have s3: "step_ok ?P e e3" by (rule step_ok_trans [OF s2 injects_wakes [OF e3(2)]])
  have et: "ethertype f = Some ?et" using False by (simp add: ethertype_def load8_def)
  let ?fwd = "?et = 0x0800 \<and> e_utun e2 \<noteq> None \<and> e_lease_applied e2 \<and> length f > 14"
  let ?w = "call (UtunWrite (utun_datagram AF_INET (drop 14 f))) e2"
  have run1: "on_eth_from_usb now wret f e =
      Some (if length f > 2058 then add_rx_err e2
            else if wret = int (length f - 10) then add_rx (length f) ?w else add_rx_err ?w)" if ?fwd
    using that False e1(1) e2(1) et
    by (auto simp: on_eth_from_usb_def Let_def load_bytes_Some utun_write_eq)
  have run2: "on_eth_from_usb now wret f e =
      Some (if ?et = 0x0806 then add_rx (length f) e3 else add_rx (length f) e2)" if "\<not> ?fwd"
    using that False e1(1) e2(1) e3(1) et
    by (auto simp: on_eth_from_usb_def Let_def)

  have app: "e_lease_applied e2 \<Longrightarrow> e_lease_applied e" using s2 by (simp add: step_ok_def)
  have w: "step_ok ?P e ?w" if ?fwd "length f \<le> 2058"
    by (rule step_ok_trans [OF s2]) (use that app in \<open>simp add: injects_def\<close>)
  show ?thesis
  proof (cases ?fwd)
    case True
    show ?thesis
      unfolding run1 [OF True] using s2 w [OF True] by (auto intro: add_rx_after add_rx_err_after)
  next
    case False
    show ?thesis
      unfolding run2 [OF False] using s2 s3 by (auto intro: add_rx_after)
  qed
qed

lemma injects_mono: "injects a fs c \<Longrightarrow> (a \<longrightarrow> a') \<Longrightarrow> set fs \<subseteq> set fs' \<Longrightarrow> injects a' fs' c"
  by (auto simp: injects_def)

lemma deliver_step:
  "engine_inv e \<Longrightarrow> \<exists>e'. deliver io i fs e = Some e' \<and> step_ok (injects (e_lease_applied e) fs) e e'"
proof (induction fs arbitrary: i e)
  case (Cons f fs)
  let ?P = "injects (e_lease_applied e) (f # fs)"
  obtain e1 where e1: "on_eth_from_usb (fst (io i)) (snd (io i)) f e = Some e1"
    "step_ok (injects (e_lease_applied e) [f]) e e1"
    using eth_step [OF Cons.prems] by blast
  obtain e2 where e2: "deliver io (Suc i) fs e1 = Some e2" "step_ok (injects (e_lease_applied e1) fs) e1 e2"
    using Cons.IH step_ok_inv [OF e1(2) Cons.prems] by blast
  have "step_ok ?P e e1" by (rule step_ok_mono [OF e1(2)]) (erule injects_mono; simp)
  moreover have "step_ok ?P e1 e2"
    by (rule step_ok_mono [OF e2(2)]) (erule injects_mono; use e1(2) in \<open>auto simp: step_ok_def\<close>)
  ultimately have "step_ok ?P e e2" by (rule step_ok_trans)
  then show ?case using e1(1) e2(1) by simp
qed simp

lemma hard_fail_step: "step_ok P e (note_usb_hard_fail gone e)"
proof -
  let ?n = "e_usb_hard_fails e + 1"
  let ?e = "e\<lparr>e_usb_hard_fails := ?n\<rparr>"
  have ring: "txq_inv ?e = txq_inv e" by (rule ring_frame) simp_all
  show ?thesis
  proof (cases "?n < 8")
    case True
    then show ?thesis using ring
      by (simp add: note_usb_hard_fail_def Let_def step_ok_def calls_ext_def) (simp add: engine_inv_def)
  next
    case False
    have "step_ok P e (engine_fail m ?e)" for m
    proof (cases rule: engine_fail_cases [of ?e m])
      case dead
      have d: "e_state e = AT_STATE_STOPPING \<or> e_state e = AT_STATE_ERROR" using dead(1) by simp
      show ?thesis unfolding dead(2) using d ring
        by (simp add: step_ok_def calls_ext_def) (auto simp add: engine_inv_def)
    next
      case (failed t)
      have "txq_inv (?e\<lparr>e_state := AT_STATE_ERROR, e_error := t, e_running := False\<rparr>) = txq_inv e"
        by (rule ring_frame) simp_all
      then show ?thesis using failed(1)
        unfolding failed(2) by (simp add: step_ok_def calls_ext_def) (simp add: engine_inv_def)
    qed
    then show ?thesis using False by (simp add: note_usb_hard_fail_def Let_def)
  qed
qed

definition usb_in_calls :: "bool \<Rightarrow> buf list \<Rightarrow> ext_call \<Rightarrow> bool" where
  "usb_in_calls applied fs c \<longleftrightarrow> injects applied fs c \<or> c = ClearStall 1 \<or> c = SubmitIn"

definition frames_of :: "buf option \<Rightarrow> nat \<Rightarrow> buf list" where
  "frames_of b got = (case b of None \<Rightarrow> [] | Some x \<Rightarrow> walk (take got x))"

lemma reset_fails_step: "step_ok P e (e\<lparr>e_usb_hard_fails := 0\<rparr>)"
proof -
  have "txq_inv (e\<lparr>e_usb_hard_fails := 0\<rparr>) = txq_inv e" by (rule ring_frame) simp_all
  then show ?thesis by (simp add: step_ok_def calls_ext_def) (simp add: engine_inv_def)
qed

lemma unwrap_transfer_step:
  assumes "engine_inv e" "got \<le> length b"
  shows "\<exists>e'. unwrap_transfer io b got e = Some e' \<and>
    step_ok (usb_in_calls (e_lease_applied e) (walk (take got b))) e e'"
proof -
  obtain e' where "deliver io 0 (walk (take got b)) e = Some e'"
    "step_ok (injects (e_lease_applied e) (walk (take got b))) e e'"
    using deliver_step [OF assms(1)] by blast
  moreover have "rndis_unwrap_bulk_aligned x a = rndis_unwrap_bulk x" for x a
    by (simp add: rndis_unwrap_bulk_def rndis_unwrap_bulk_aligned_def)
  ultimately show ?thesis using assms(2)
    by (auto simp: unwrap_transfer_def load_bytes_Some rndis_unwrap_bulk_eq usb_in_calls_def intro: step_ok_mono)
qed

lemma usb_in_step:
  assumes "engine_inv e" "case b of Some x \<Rightarrow> got \<le> length x | None \<Rightarrow> True"
  shows "\<exists>e'. on_usb_in io gone sub rc got b e = Some e' \<and>
     step_ok (usb_in_calls (e_lease_applied e) (frames_of b got)) e e'"
proof -
  let ?P = "usb_in_calls (e_lease_applied e) (frames_of b got)"
  have err: "step_ok ?P e (note_usb_hard_fail gone (call (ClearStall 1) (add_rx_err e)))"
    by (rule step_ok_trans [OF _ hard_fail_step], rule step_ok_trans [where ?e1.0 = "add_rx_err e"])
      (simp_all add: usb_in_calls_def)
  obtain e1 where e1: "(case b of
            Some x \<Rightarrow> if rc = 0 \<and> got > 0 then unwrap_transfer io x got (e\<lparr>e_usb_hard_fails := 0\<rparr>)
                      else if rc < 0 then Some (note_usb_hard_fail gone (call (ClearStall 1) (add_rx_err e)))
                      else Some e
          | None \<Rightarrow> if rc < 0 then Some (note_usb_hard_fail gone (call (ClearStall 1) (add_rx_err e)))
                    else Some e) = Some e1" "step_ok ?P e e1"
  proof (cases "b \<noteq> None \<and> rc = 0 \<and> got > 0")
    case True
    then obtain x where x: "b = Some x" by blast
    let ?e = "e\<lparr>e_usb_hard_fails := 0\<rparr>"
    have r: "step_ok ?P e ?e" by (rule reset_fails_step)
    obtain e1 where "unwrap_transfer io x got ?e = Some e1"
      "step_ok (usb_in_calls (e_lease_applied ?e) (walk (take got x))) ?e e1"
      using unwrap_transfer_step step_ok_inv [OF r assms(1)] assms(2) x by fastforce
    moreover have "step_ok ?P e e1"
      by (rule step_ok_trans [OF r]) (use calculation x in \<open>simp add: frames_of_def\<close>)
    ultimately show thesis using True x by (intro that) simp_all
  next
    case False
    show thesis
    proof (rule that)
      show "step_ok ?P e (if rc < 0 then note_usb_hard_fail gone (call (ClearStall 1) (add_rx_err e)) else e)"
        using err by simp
    qed (use False in \<open>auto split: option.splits\<close>)
  qed
  let ?e2 = "call SubmitIn e1"
  have s2: "step_ok ?P e ?e2" by (rule step_ok_trans [OF e1(2)]) (simp add: usb_in_calls_def)
  let ?r = "if e_running e1 \<and> b \<noteq> None then if sub \<noteq> 0 then note_usb_hard_fail gone ?e2 else ?e2 else e1"
  have "step_ok ?P e ?r" using e1(2) s2 step_ok_trans [OF s2 hard_fail_step] by simp
  moreover have "on_usb_in io gone sub rc got b e = Some ?r"
    unfolding on_usb_in_def e1(1) by (cases b) (simp_all add: Let_def)
  ultimately show ?thesis by blast
qed

text \<open>
  C10: whatever bytes a USB transfer carries and however it completes, the completion handler has no
  undefined behaviour and keeps the engine's invariant; it turns no lease on; and the only packets
  it puts into the tunnel are the unaltered IPv4 payloads of Ethernet frames of that transfer, and none
  at all while no lease is applied.
\<close>

theorem usb_in_safe:
  assumes "engine_inv e" "case b of Some x \<Rightarrow> got \<le> length x | None \<Rightarrow> True"
  shows "\<exists>e'. on_usb_in io gone sub rc got b e = Some e' \<and> engine_inv e' \<and>
     (e_lease_applied e' \<longrightarrow> e_lease_applied e) \<and>
     calls_ext (usb_in_calls (e_lease_applied e) (frames_of b got)) e e'"
  using usb_in_step [OF assms] assms(1) unfolding step_ok_def by blast

lemma started_engine_inv: "engine_inv started"
  using started_inv by (simp add: engine_inv_def) (simp add: started_def engine_zero_def)

theorem usb_in_safe_witness:
  "\<exists>e'. on_usb_in (\<lambda>_. (0, 0)) False 0 0 3 (Some [1, 0, 0]) started = Some e' \<and> engine_inv e' \<and>
     (e_lease_applied e' \<longrightarrow> e_lease_applied started) \<and>
     calls_ext (usb_in_calls (e_lease_applied started) (frames_of (Some [1, 0, 0]) 3)) started e'"
  by (rule usb_in_safe) (simp_all add: started_engine_inv)

definition asking :: buf where
  "asking = arp_frame [2, 0, 0, 0, 0, 9] (word32 10 0 0 1) None (word32 10 0 0 2) 1"

theorem arp_answered_witness:
  "\<exists>e'. handle_arp asking (started\<lparr>e_host_ip := word32 10 0 0 2\<rparr>) = Some e' \<and> length (txq_msgs e') = 1"
proof -
  let ?e = "started\<lparr>e_host_ip := word32 10 0 0 2\<rparr>"
  have i: "txq_inv ?e = txq_inv started" "txq_msgs ?e = txq_msgs started" by (rule ring_frame; simp)+
  then have inv: "engine_inv ?e"
    using started_engine_inv by (simp add: engine_inv_def)
  have n: "e_txq_n ?e < 128" by (simp add: started_def engine_zero_def)
  have "word32 10 0 0 2 \<noteq> 0" using word32_inject [of 10 0 0 2 0 0 0 0] by (simp add: word32_def)
  then have "arp_request_for (e_host_ip ?e) asking"
    by (simp add: arp_request_for_def asking_def arp_frame_def nth_append hi8_def lo8_def be16_def bytes32_word32)
  then show ?thesis
    using arp_answered [OF inv n, of asking "[]"] i started_inv by (auto simp del: length_txq_msgs)
qed

section \<open>Repeated failures\<close>

lemma note_fail_state:
  assumes "e_state e \<noteq> AT_STATE_STOPPING" "e_state e = AT_STATE_ERROR \<longleftrightarrow> 8 \<le> e_usb_hard_fails e"
  shows "e_usb_hard_fails (note_usb_hard_fail gone e) = e_usb_hard_fails e + 1 \<and>
    e_state (note_usb_hard_fail gone e) = (if 8 \<le> e_usb_hard_fails e + 1 then AT_STATE_ERROR else e_state e)"
  using assms by (auto simp: note_usb_hard_fail_def Let_def engine_fail_def)

definition usb_error :: "(nat \<Rightarrow> u64 \<times> int) \<Rightarrow> bool \<times> int \<times> buf option \<Rightarrow> at_engine \<Rightarrow> at_engine option" where
  "usb_error io = (\<lambda>(gone, rc, b) e. on_usb_in io gone 0 rc 0 b e)"

lemma usb_error_step:
  assumes "rc < 0" "e_state e \<noteq> AT_STATE_STOPPING" "e_state e = AT_STATE_ERROR \<longleftrightarrow> 8 \<le> e_usb_hard_fails e"
  shows "\<exists>e'. usb_error io (gone, rc, b) e = Some e' \<and> e_usb_hard_fails e' = e_usb_hard_fails e + 1 \<and>
    e_state e' = (if 8 \<le> e_usb_hard_fails e + 1 then AT_STATE_ERROR else e_state e)"
proof -
  let ?e = "call (ClearStall 1) (add_rx_err e)"
  have f: "e_state ?e = e_state e" "e_usb_hard_fails ?e = e_usb_hard_fails e"
    by (simp_all add: call_def add_rx_err_def)
  let ?n = "note_usb_hard_fail gone ?e"
  have "usb_error io (gone, rc, b) e = Some (if e_running ?n \<and> b \<noteq> None then call SubmitIn ?n else ?n)"
    using assms(1) by (cases b) (simp_all add: usb_error_def on_usb_in_def Let_def)
  moreover have "e_usb_hard_fails (call SubmitIn ?n) = e_usb_hard_fails ?n" "e_state (call SubmitIn ?n) = e_state ?n"
    by (simp_all add: call_def)
  ultimately show ?thesis
    using note_fail_state [of ?e gone] assms(2,3) unfolding f by simp
qed

lemma usb_errors_count:
  "list_all (\<lambda>(gone, rc, b). rc < 0) evs \<Longrightarrow> e_state e \<noteq> AT_STATE_STOPPING \<Longrightarrow>
   (e_state e = AT_STATE_ERROR \<longleftrightarrow> 8 \<le> e_usb_hard_fails e) \<Longrightarrow>
   \<exists>e'. run (usb_error io) evs e = Some e' \<and>
     e_state e' = (if 8 \<le> e_usb_hard_fails e + int (length evs) then AT_STATE_ERROR else e_state e)"
proof (induction evs arbitrary: e)
  case (Cons ev evs)
  obtain gone rc b where ev: "ev = (gone, rc, b)" by (cases ev) auto
  obtain e1 where e1: "usb_error io ev e = Some e1" "e_usb_hard_fails e1 = e_usb_hard_fails e + 1"
    "e_state e1 = (if 8 \<le> e_usb_hard_fails e + 1 then AT_STATE_ERROR else e_state e)"
    using usb_error_step [of rc e io gone b] Cons.prems ev by auto
  have "e_state e1 \<noteq> AT_STATE_STOPPING" "e_state e1 = AT_STATE_ERROR \<longleftrightarrow> 8 \<le> e_usb_hard_fails e1"
    using e1 Cons.prems by auto
  then obtain e2 where e2: "run (usb_error io) evs e1 = Some e2"
     "e_state e2 = (if 8 \<le> e_usb_hard_fails e1 + int (length evs) then AT_STATE_ERROR else e_state e1)"
    using Cons.IH [of e1] Cons.prems(1) by auto
  show ?case using e1 e2 Cons.prems(3) by (auto simp: algebra_simps)
qed auto



end
