(* ===== verification/TunPath.thy ===== *)
theory TunPath
  imports RxPath
begin

text \<open>
  The transmit path of \<open>tether_engine.c\<close>: the thread that reads packets from the tunnel, completes
  their checksums, puts an Ethernet header in front and queues them for the phone. One iteration of
  the loop is one step; \<open>pr\<close> and \<open>r\<close> are what \<open>poll\<close> and \<open>read\<close> return in it.
\<close>

unbundle bit_operations_syntax

section \<open>Operations\<close>

definition wrap_ip_eth :: "at_engine \<Rightarrow> buf \<Rightarrow> nat \<Rightarrow> buf \<Rightarrow> (nat \<times> buf) option" where
  "wrap_ip_eth e ip ip_len eth =
     (if 14 + ip_len > length eth then Some (0, eth) else do {
        dst \<leftarrow> load_bytes eth 0 6; src \<leftarrow> load_bytes eth 6 6;
        (dst, src) \<leftarrow> at_mac_snapshot_pair (e_gw_mac e) (e_host_mac e) dst src;
        eth \<leftarrow> store_bytes eth 0 dst;
        eth \<leftarrow> store_bytes eth 6 src;
        ip0 \<leftarrow> load8 ip 0;
        (let ver = drop_bit 4 ip0 in do {
           eth \<leftarrow> store_bytes eth 12 (if ver = 6 then [0x86, 0xDD] else [0x08, 0x00]);
           p \<leftarrow> load_bytes ip 0 ip_len;
           eth \<leftarrow> store_bytes eth 14 p;
           Some (14 + ip_len, eth) }) })"

text \<open>The two local buffers of 2048 bytes and the timeout of the next read.\<close>

record tun_local =
  t_ip :: buf
  t_eth :: buf
  t_wait_ms :: int

definition utun_rx_iter ::
  "int \<Rightarrow> sys_read \<Rightarrow> at_engine \<times> tun_local \<Rightarrow> (at_engine \<times> tun_local) option" where
  "utun_rx_iter pr r = (\<lambda>(e, l). do {
     (rc, ip, len, family) \<leftarrow> at_utun_read pr r (t_ip l) 0 AF_INET;
     (let l = l\<lparr>t_ip := ip\<rparr> in
      if rc = AT_UTUN_READ_DROP then Some (add_tx_err e, l\<lparr>t_wait_ms := 0\<rparr>)
      else if rc \<noteq> 0 \<or> len < 20 then Some (e, l\<lparr>t_wait_ms := 1\<rparr>)
      else let l = l\<lparr>t_wait_ms := 0\<rparr> in
        if family = AF_INET6 then Some (e, l)
        else if \<not> e_lease_applied e then Some (e, l)
        else do {
          ip \<leftarrow> (if family = AF_INET then do {
                  p \<leftarrow> load_bytes ip 0 len;
                  (ret, p) \<leftarrow> at_ip4_fix_checksums p;
                  store_bytes ip 0 p }
                else Some ip);
          (elen, eth) \<leftarrow> wrap_ip_eth e ip len (t_eth l);
          (let l = l\<lparr>t_ip := ip, t_eth := eth\<rparr> in
           if elen = 0 then Some (add_tx_err e, l)
           else do {
             m \<leftarrow> load_bytes eth 0 elen;
             (ret, e) \<leftarrow> send_eth_usb e m;
             Some (e, l) }) }) })"

fun utun_rx_thread ::
  "(int \<times> sys_read) list \<Rightarrow> at_engine \<times> tun_local \<Rightarrow> (at_engine \<times> tun_local) option" where
  "utun_rx_thread [] (e, l) = Some (e, l)"
| "utun_rx_thread ((pr, r) # io) (e, l) =
     (if e_running e then utun_rx_iter pr r (e, l) \<bind> utun_rx_thread io else Some (e, l))"

section \<open>What is forwarded\<close>

definition sys_read_ok :: "sys_read \<Rightarrow> bool" where
  "sys_read_ok r = (case r of ReadData dat \<Rightarrow> length dat \<le> 4096 | ReadErr _ \<Rightarrow> True)"

definition tun_inv :: "at_engine \<times> tun_local \<Rightarrow> bool" where
  "tun_inv = (\<lambda>(e, l). engine_inv e \<and> length (t_ip l) = 2048 \<and> length (t_eth l) = 2048)"

text \<open>The datagram the kernel delivers: address family and packet.\<close>

definition delivered :: "int \<Rightarrow> sys_read \<Rightarrow> (int \<times> buf) option" where
  "delivered pr r =
     (case r of ReadErr _ \<Rightarrow> None
      | ReadData dat \<Rightarrow>
          if pr > 0 \<and> 5 \<le> length dat \<and> length dat \<le> 2052
          then Some (sint (ntohl (word_at dat 0)), drop 4 dat) else None)"

definition fixed_packet :: "int \<Rightarrow> buf \<Rightarrow> buf" where
  "fixed_packet family p =
     (if family = AF_INET then case at_ip4_fix_checksums p of Some (_, q) \<Rightarrow> q | None \<Rightarrow> p else p)"

definition eth_of :: "at_engine \<Rightarrow> buf \<Rightarrow> buf" where
  "eth_of e p = e_gw_mac e @ e_host_mac e @
     (if drop_bit 4 (p ! 0) = 6 then [0x86, 0xDD] else [0x08, 0x00]) @ p"

definition forwards :: "at_engine \<Rightarrow> int \<Rightarrow> sys_read \<Rightarrow> buf list" where
  "forwards e pr r =
     (case delivered pr r of None \<Rightarrow> []
      | Some (family, p) \<Rightarrow>
          if 20 \<le> length p \<and> length p \<le> 2034 \<and> family \<noteq> AF_INET6 \<and> e_lease_applied e
          then [eth_of e (fixed_packet family p)] else [])"

lemma wrap_ip_eth_eq:
  assumes "length (e_gw_mac e) = 6" "length (e_host_mac e) = 6" "length eth = 2048" "0 < n" "n \<le> length ip"
  shows "wrap_ip_eth e ip n eth =
     (if n > 2034 then Some (0, eth) else Some (14 + n, eth_of e (take n ip) @ drop (14 + n) eth))"
proof (cases "n > 2034")
  case False
  have s: "at_mac_snapshot_pair (e_gw_mac e) (e_host_mac e) (field eth 0 6) (field eth 6 6) = Some (e_gw_mac e, e_host_mac e)"
    using assms by (simp add: at_mac_snapshot_pair_def load_bytes_Some store_bytes_Some splice_at_def)
  have b: "load8 ip 0 = Some (ip ! 0)" using assms(4,5) by (intro load8_Some) linarith
  show ?thesis
    using False assms s b
    by (simp add: wrap_ip_eth_def Let_def load_bytes_field store_bytes_Some splice_at_def eth_of_def)
      (simp add: field_def)
qed (use assms in \<open>simp add: wrap_ip_eth_def\<close>)

lemma delivered_read:
  assumes "sys_read_ok r" "length ip = 2048"
  obtains (data) family p where "delivered pr r = Some (family, p)" "0 < length p" "length p \<le> 2048"
      "at_utun_read pr r ip 0 AF_INET = Some (0, p @ drop (length p) ip, length p, family)"
  | (nodata) rc len where "delivered pr r = None" "rc \<noteq> 0" "at_utun_read pr r ip 0 AF_INET = Some (rc, ip, len, AF_INET)"
proof (cases r)
  case (ReadErr b)
  show ?thesis
  proof (rule nodata)
    show "delivered pr r = None" by (simp add: delivered_def ReadErr)
    show "at_utun_read pr r ip 0 AF_INET = Some (if pr \<le> 0 \<or> b then 1 else -1, ip, 0, AF_INET)"
      by (simp add: at_utun_read_def ReadErr)
  qed simp
next
  case (ReadData dat)
  then have len: "length dat \<le> 4096" using assms(1) by (simp add: sys_read_ok_def)
  show ?thesis
  proof (cases "pr > 0 \<and> 5 \<le> length dat \<and> length dat \<le> 2052")
    case True
    show ?thesis
    proof (rule data)
      show "delivered pr r = Some (sint (ntohl (word_at dat 0)), drop 4 dat)"
        using True by (simp add: delivered_def ReadData)
      show "at_utun_read pr r ip 0 AF_INET =
          Some (0, drop 4 dat @ drop (length (drop 4 dat)) ip, length (drop 4 dat), sint (ntohl (word_at dat 0)))"
        unfolding ReadData utun_read_eq [OF len] using True assms(2) by auto
    qed (use True in auto)
  next
    case False
    then have d: "delivered pr r = None" by (auto simp: delivered_def ReadData)
    show ?thesis
    proof (cases "pr \<le> 0 \<or> length dat < 5")
      case True
      have e: "at_utun_read pr r ip 0 AF_INET = Some (1, ip, 0, AF_INET)"
        unfolding ReadData utun_read_eq [OF len] using True by simp
      show ?thesis by (rule nodata) (use d e in auto)
    next
      case c: False
      then have "length dat > 2052" using False by auto
      then have e: "at_utun_read pr r ip 0 AF_INET = Some (AT_UTUN_READ_DROP, ip, 0, AF_INET)"
        unfolding ReadData utun_read_eq [OF len] using c assms(2) by auto
      show ?thesis by (rule nodata) (use d e in auto)
    qed
  qed
qed

lemma fixed_packet_length [simp]: "length (fixed_packet family p) = length p"
  by (simp add: fixed_packet_def fix_checksums_eq with_l4_frame with_header_same with_header_frame)

lemma fixed_packet_run:
  "(if family = AF_INET then do {
      p \<leftarrow> load_bytes (p @ z) 0 (length p);
      (ret, p) \<leftarrow> at_ip4_fix_checksums p;
      store_bytes (p0 @ z) 0 p }
    else Some (p0 @ z)) = Some (fixed_packet family p @ z)" if "p0 = p"
proof (cases "family = AF_INET")
  case True
  obtain rc q where q: "at_ip4_fix_checksums p = Some (rc, q)" "fixed_packet family p = q"
    using True by (cases "at_ip4_fix_checksums p") (auto simp: fixed_packet_def fix_checksums_eq)
  have "length q = length p" using fixed_packet_length [of family p] q(2) by simp
  then show ?thesis using True q that by (simp add: load_bytes_prefix store_bytes_Some)
qed (simp add: fixed_packet_def that)

lemma length_eth_of: "length (e_gw_mac e) = 6 \<Longrightarrow> length (e_host_mac e) = 6 \<Longrightarrow> length (eth_of e p) = 14 + length p"
  by (simp add: eth_of_def)

text \<open>The result of one iteration: either nothing is sent, or \<open>forwards\<close> is handed to \<open>send_eth_usb\<close>.\<close>

lemma utun_rx_iter_spec:
  assumes "tun_inv (e, l)" "sys_read_ok r"
  obtains (skip) e' l' where "utun_rx_iter pr r (e, l) = Some (e', l')" "tun_inv (e', l')"
      "e' = e \<or> e' = add_tx_err e" "forwards e pr r = []"
  | (send) f rc e' l' where "forwards e pr r = [f]" "14 < length f" "length f \<le> 2048"
      "send_eth_usb e f = Some (rc, e')" "utun_rx_iter pr r (e, l) = Some (e', l')" "tun_inv (e', l')"
proof -
  have l: "length (t_ip l) = 2048" "length (t_eth l) = 2048" and inv: "engine_inv e"
    and mac: "length (e_gw_mac e) = 6" "length (e_host_mac e) = 6"
    using assms(1) by (simp_all add: tun_inv_def engine_inv_def)
  from assms(2) l(1) show ?thesis
  proof (cases rule: delivered_read [where pr = pr])
    case (nodata rc len)
    have run: "utun_rx_iter pr r (e, l) =
        Some (if rc = AT_UTUN_READ_DROP then add_tx_err e else e,
              l\<lparr>t_wait_ms := if rc = AT_UTUN_READ_DROP then 0 else 1\<rparr>)"
      using nodata by (simp add: utun_rx_iter_def)
    show ?thesis
      by (rule skip [OF run]) (use nodata(1) l inv in \<open>simp_all add: tun_inv_def forwards_def\<close>)
  next
    case (data family p)
    let ?ip = "p @ drop (length p) (t_ip l)"
    have lip: "length ?ip = 2048" using data(3) l by simp
    consider (idle) "length p < 20 \<or> family = AF_INET6 \<or> \<not> e_lease_applied e"
      | (big) "20 \<le> length p" "family \<noteq> AF_INET6" "e_lease_applied e" "length p > 2034"
      | (ok) "20 \<le> length p" "family \<noteq> AF_INET6" "e_lease_applied e" "length p \<le> 2034" by linarith
    then show ?thesis
    proof cases
      case idle
      have run: "utun_rx_iter pr r (e, l) = Some (e, l\<lparr>t_ip := ?ip, t_wait_ms := if length p < 20 then 1 else 0\<rparr>)"
        using data(4) idle by (auto simp: utun_rx_iter_def Let_def)
      show ?thesis
        by (rule skip [OF run]) (use data(1) idle l inv lip in \<open>auto simp: tun_inv_def forwards_def\<close>)
    next
      case big
      let ?q = "fixed_packet family p @ drop (length p) (t_ip l)"
      have w: "wrap_ip_eth e ?q (length p) (t_eth l) = Some (0, t_eth l)"
        using wrap_ip_eth_eq [OF mac l(2), of "length p" ?q] big(1,4) data(2,3) by simp
      have run: "utun_rx_iter pr r (e, l) = Some (add_tx_err e, l\<lparr>t_ip := ?q, t_wait_ms := 0, t_eth := t_eth l\<rparr>)"
        using data(4) big w fixed_packet_run [OF refl, of family p "drop (length p) (t_ip l)"]
        by (simp add: utun_rx_iter_def Let_def)
      show ?thesis
        by (rule skip [OF run]) (use data(1) big l inv data(3) in \<open>simp_all add: tun_inv_def forwards_def\<close>)
    next
      case ok
      let ?q = "fixed_packet family p @ drop (length p) (t_ip l)"
      let ?f = "eth_of e (fixed_packet family p)"
      have lf: "length ?f = 14 + length p" using mac by (simp add: length_eth_of)
      have w: "wrap_ip_eth e ?q (length p) (t_eth l) = Some (14 + length p, ?f @ drop (14 + length p) (t_eth l))"
        using wrap_ip_eth_eq [OF mac l(2), of "length p" ?q] ok(1,4) data(2,3) by simp
      obtain rc e' where s: "send_eth_usb e ?f = Some (rc, e')" "step_ok wakes e e'"
        using send_step [OF inv, of ?f] lf ok(4) by auto
      have m: "load_bytes (?f @ z) 0 (14 + length p) = Some ?f" for z
        by (rule load_bytes_prefix [OF lf])
      show ?thesis
      proof (rule send)
        show "forwards e pr r = [?f]" using data(1) ok by (simp add: forwards_def)
        show "send_eth_usb e ?f = Some (rc, e')" by (rule s(1))
        show "utun_rx_iter pr r (e, l) =
            Some (e', l\<lparr>t_ip := ?q, t_wait_ms := 0, t_eth := ?f @ drop (14 + length p) (t_eth l)\<rparr>)"
          using data(4) ok w m s(1) fixed_packet_run [OF refl, of family p "drop (length p) (t_ip l)"]
          by (simp add: utun_rx_iter_def Let_def)
        show "tun_inv (e', l\<lparr>t_ip := ?q, t_wait_ms := 0, t_eth := ?f @ drop (14 + length p) (t_eth l)\<rparr>)"
          using step_ok_inv [OF s(2) inv] lf l data(3) ok(4) by (simp add: tun_inv_def)
      qed (use lf ok in auto)
    qed
  qed
qed

lemma forwards_frame:
  assumes "e_gw_mac e' = e_gw_mac e" "e_host_mac e' = e_host_mac e" "e_lease_applied e' = e_lease_applied e"
  shows "forwards e' pr r = forwards e pr r"
  using assms by (simp add: forwards_def eth_of_def split: option.splits)

text \<open>What stays the same while the tunnel thread works.\<close>

definition same_path :: "at_engine \<Rightarrow> at_engine \<Rightarrow> bool" where
  "same_path e e' \<longleftrightarrow> e_gw_mac e' = e_gw_mac e \<and> e_host_mac e' = e_host_mac e \<and>
     e_lease_applied e' = e_lease_applied e \<and> e_align e' = e_align e \<and> e_running e' = e_running e"

lemma send_effect:
  assumes "txq_inv e" "14 < length f" "length f \<le> 2048" "send_eth_usb e f = Some (rc, e')"
  shows "same_path e e' \<and> txq_msgs e' = txq_msgs e @ (if e_txq_n e < 128 then [packet f (e_align e)] else [])"
proof -
  have k: "packet_size f (e_align e) \<le> 4096" "f \<noteq> []"
    using packet_size_bounds(2) [of f "e_align e"] assms(2,3) by (auto simp: length_pad_eth split: if_splits)
  have eq: "send_eth_usb e f = Some (if e_txq_n e \<ge> 128 then (-1, add_tx_err e) else (0, txq_put (packet f (e_align e)) e))"
    using assms(1,3) k by (simp add: send_eq)
  show ?thesis
  proof (cases "e_txq_n e < 128")
    case True
    have "txq_msgs (txq_put (packet f (e_align e)) e) = txq_msgs e @ [packet f (e_align e)]"
      using ring_put_props [OF assms(1) True, of "packet f (e_align e)"] k by (simp add: txq_put_def)
    then show ?thesis using eq assms(4) True
      by (auto simp: same_path_def) (simp_all add: txq_put_def ring_put_def call_def)
  next
    case False
    then show ?thesis using eq assms(4) by (auto simp: same_path_def) (simp_all add: add_tx_err_def)
  qed
qed

lemma iter_effect:
  assumes "tun_inv (e, l)" "sys_read_ok r"
  shows "\<exists>e' l'. utun_rx_iter pr r (e, l) = Some (e', l') \<and> tun_inv (e', l') \<and> same_path e e' \<and>
    txq_msgs e' = txq_msgs e @ (if e_txq_n e < 128 then map (\<lambda>f. packet f (e_align e)) (forwards e pr r) else [])"
  using assms
proof (rule utun_rx_iter_spec [where pr = pr])
  fix e' l' assume a: "utun_rx_iter pr r (e, l) = Some (e', l')" "tun_inv (e', l')"
    "e' = e \<or> e' = add_tx_err e" "forwards e pr r = []"
  have "same_path e e'" using a(3) by (auto simp: same_path_def) (simp_all add: add_tx_err_def)
  then show ?thesis using a by auto
next
  fix f rc e' l' assume a: "forwards e pr r = [f]" "14 < length f" "length f \<le> 2048"
      "send_eth_usb e f = Some (rc, e')" "utun_rx_iter pr r (e, l) = Some (e', l')" "tun_inv (e', l')"
  have "txq_inv e" using assms(1) by (simp add: tun_inv_def)
  from send_effect [OF this a(2-4)] show ?thesis using a by simp
qed

text \<open>
  C9: the tunnel thread never has undefined behaviour and, while the queue has room, queues for the
  phone exactly the packets that came whole from the kernel, in order, each with its checksums
  completed and behind the Ethernet header of the gateway. IPv6, packets under 20 or over 2034
  bytes and everything that arrives while no lease is applied are dropped.
\<close>

theorem tunnel_forwards:
  assumes "tun_inv (e, l)" "list_all (\<lambda>(pr, r). sys_read_ok r) io" "e_running e"
    "length (txq_msgs e) + length io \<le> 128"
  shows "\<exists>e' l'. utun_rx_thread io (e, l) = Some (e', l') \<and> tun_inv (e', l') \<and>
    txq_msgs e' = txq_msgs e @ map (\<lambda>f. packet f (e_align e)) (concat (map (\<lambda>(pr, r). forwards e pr r) io))"
  using assms
proof (induction io arbitrary: e l)
  case (Cons x io)
  obtain pr r where x: "x = (pr, r)" by (cases x)
  have n: "e_txq_n e < 128" using Cons.prems(4) by auto
  obtain e1 l1 where s: "utun_rx_iter pr r (e, l) = Some (e1, l1)" "tun_inv (e1, l1)" "same_path e e1"
    "txq_msgs e1 = txq_msgs e @ map (\<lambda>f. packet f (e_align e)) (forwards e pr r)"
    using iter_effect [OF Cons.prems(1), of r pr] Cons.prems(2) n x by auto
  have f: "forwards e1 p q = forwards e p q" for p q
    using s(3) by (intro forwards_frame) (simp_all add: same_path_def)
  have "length (forwards e pr r) \<le> 1" by (simp add: forwards_def split: option.split)
  then have "length (txq_msgs e1) + length io \<le> 128"
    unfolding s(4) using Cons.prems(4) by simp
  then obtain e2 l2 where "utun_rx_thread io (e1, l1) = Some (e2, l2)" "tun_inv (e2, l2)"
    "txq_msgs e2 = txq_msgs e1 @ map (\<lambda>f. packet f (e_align e1)) (concat (map (\<lambda>(pr, r). forwards e1 pr r) io))"
    using Cons.IH [OF s(2)] Cons.prems(2,3) s(3) by (auto simp: same_path_def)
  then show ?case using s Cons.prems(3) by (simp add: x f same_path_def)
qed simp

definition forwarding :: at_engine where
  "forwarding = started\<lparr>e_running := True, e_lease_applied := True, e_saw_lease := True,
     e_gw_mac := [2, 0, 0, 0, 0, 1], e_host_mac := [2, 0, 0, 0, 0, 2]\<rparr>"

definition fresh_local :: tun_local where
  "fresh_local = \<lparr>t_ip = replicate 2048 0, t_eth = replicate 2048 0, t_wait_ms = 1\<rparr>"

lemma forwarding_inv: "tun_inv (forwarding, fresh_local)" "txq_msgs forwarding = []"
proof -
  have "txq_inv forwarding = txq_inv started" "txq_msgs forwarding = txq_msgs started"
    by (rule ring_frame(1,2); simp add: forwarding_def)+
  then show "tun_inv (forwarding, fresh_local)" "txq_msgs forwarding = []"
    using started_inv
    by (simp_all add: tun_inv_def engine_inv_def fresh_local_def)
      (simp add: forwarding_def started_def engine_zero_def)
qed

definition icmp_in :: buf where
  "icmp_in = [0, 0, 0, 2] @ sample_tcp"

theorem tunnel_forwards_witness:
  "\<exists>e' l'. utun_rx_thread [(1, ReadData icmp_in), (0, ReadErr True), (1, ReadData (replicate 4096 0))]
      (forwarding, fresh_local) = Some (e', l') \<and> tun_inv (e', l') \<and>
    txq_msgs e' = map (\<lambda>f. packet f 2) (concat (map (\<lambda>(pr, r). forwards forwarding pr r)
       [(1, ReadData icmp_in), (0, ReadErr True), (1, ReadData (replicate 4096 0))]))"
proof -
  have a: "e_align forwarding = 2" by (simp add: forwarding_def started_def)
  have "list_all (\<lambda>(pr, r). sys_read_ok r)
      [(1 :: int, ReadData icmp_in), (0, ReadErr True), (1, ReadData (replicate 4096 0))]"
    by (simp add: sys_read_ok_def icmp_in_def sample_tcp_def)
  then show ?thesis
    using tunnel_forwards [OF forwarding_inv(1)] forwarding_inv(2) a
    by (fastforce simp: forwarding_def simp del: utun_rx_thread.simps)
qed

end
