(* ===== verification/Lease.thy ===== *)
theory Lease
  imports TunPath
begin

text \<open>
  The control side of \<open>tether_engine.c\<close>: bringing a lease up (\<open>apply_lease_now\<close>) and the
  maintenance thread, which polls the DHCP client, watches the phone and takes the data path down.
  One round of the thread is cut where it takes and releases the engine's mutex, so that the other
  threads can run in between. The results of the calls into the USB and network layers and the
  clock are fields of \<open>maint_env\<close>. The throughput log is dropped, its two counters are kept.
\<close>

unbundle bit_operations_syntax

section \<open>Applying a lease\<close>

text \<open>
  \<open>inet_aton\<close> on the dotted quads \<open>inet_ntop\<close> prints; no other text reaches it here.
\<close>

definition inet_aton :: "string \<Rightarrow> u32 option" where
  "inet_aton s = (case inet_pton4 s of
     Some [a, b, c, d] \<Rightarrow> Some (word32 (of_nat a) (of_nat b) (of_nat c) (of_nat d)) | _ \<Rightarrow> None)"

definition send_arp_request :: "buf \<Rightarrow> u32 \<Rightarrow> u32 \<Rightarrow> at_engine \<Rightarrow> at_engine option" where
  "send_arp_request host_mac host_ip gw_ip e = do {
     (n, arp) \<leftarrow> build_arp (replicate 64 0) host_mac host_ip None gw_ip 1;
     (if n \<noteq> 0 then do { m \<leftarrow> load_bytes arp 0 n; map_option snd (send_eth_usb e m) } else Some e) }"

definition fill_dns :: "at_net_info \<Rightarrow> at_net_info" where
  "fill_dns lease =
     (if ni_dns lease = '''' \<and> ni_gateway lease \<noteq> ''''
      then lease\<lparr>ni_dns := strlcpy 128 (ni_gateway lease)\<rparr> else lease)"

text \<open>\<open>rc\<close> is the result of \<open>at_net_apply_lease\<close>.\<close>

definition apply_lease_now :: "int \<Rightarrow> at_net_info \<Rightarrow> at_engine \<Rightarrow> (int \<times> at_engine) option" where
  "apply_lease_now rc lease e =
     (let ifname = at_utun_name (e_utun e); filled = fill_dns lease;
          e = call (ApplyLease ifname filled (e_prefer_default_route e)) e in
      if rc \<noteq> 0 then Some (-1, e) else
      let e = (case inet_aton (ni_ip filled) of Some a \<Rightarrow> e\<lparr>e_host_ip := a\<rparr> | None \<Rightarrow> e);
          e = (if ni_gateway filled \<noteq> ''''
               then case inet_aton (ni_gateway filled) of Some a \<Rightarrow> e\<lparr>e_gw_ip := a\<rparr> | None \<Rightarrow> e
               else e) in do {
        d \<leftarrow> load_bytes (e_device_mac e) 0 6;
        g \<leftarrow> store_bytes (e_gw_mac e) 0 d;
        (let e = e\<lparr>e_gw_mac := g, e_net := filled\<rparr>; host_ip = e_host_ip e; gw_ip = e_gw_ip e in do {
           host_mac \<leftarrow> load_bytes (e_host_mac e) 0 6;
           (let e = e\<lparr>e_gw_mac_ok := False, e_lease_applied := True, e_saw_lease := True,
                      e_state := AT_STATE_CONNECTED\<rparr>;
                e = (if e_prefer_default_route e then
                       let e = (if ni_gateway filled \<noteq> ''''
                                then call (PreferDefaultRoute ifname (ni_gateway filled)) e else e) in
                       call DisableWifi e
                     else e) in do {
              e \<leftarrow> (if gw_ip \<noteq> 0 \<and> host_ip \<noteq> 0 then send_arp_request host_mac host_ip gw_ip e else Some e);
              Some (0, e) }) }) })"

section \<open>One round of the maintenance thread\<close>

record maint_st =
  ms_ticks :: int
  ms_prev_rx :: u64
  ms_prev_tx :: u64
  ms_ka_fails :: int
  ms_ka_rx :: u64
  ms_ka_tx :: u64
  ms_lost :: int

record maint_env =
  me_gone :: bool
  me_poll :: int
  me_ka :: int
  me_gone2 :: bool
  me_now :: u64
  me_tv :: timeval
  me_eth :: buf
  me_apply :: int

text \<open>What the round takes out of the locked section.\<close>

record maint_job =
  mj_frame :: buf
  mj_just_bound :: bool
  mj_lease :: at_net_info
  mj_leased :: bool
  mj_bound :: bool
  mj_gw_ip :: u32
  mj_host_ip :: u32
  mj_host_mac :: buf

abbreviation (input) AT_DHCP_RENEW_FAIL_TICKS :: int where "AT_DHCP_RENEW_FAIL_TICKS \<equiv> 24"
abbreviation (input) AT_KA_FAIL_LIMIT :: int where "AT_KA_FAIL_LIMIT \<equiv> 3"

definition keepalive_failed :: "bool \<Rightarrow> maint_st \<times> at_engine \<Rightarrow> maint_st \<times> at_engine" where
  "keepalive_failed gone2 = (\<lambda>(s, e).
     let s = (if ms_ka_fails s = 0 then s\<lparr>ms_ka_rx := e_rx_bytes e, ms_ka_tx := e_tx_bytes e\<rparr> else s);
         s = s\<lparr>ms_ka_fails := ms_ka_fails s + 1\<rparr> in
     if e_lease_applied e \<and> ms_ka_fails s \<ge> AT_KA_FAIL_LIMIT \<and>
        e_rx_bytes e = ms_ka_rx s \<and> e_tx_bytes e = ms_ka_tx s
     then (s, engine_fail (Some (if gone2 then AT_MSG_USB_GONE else AT_MSG_TETHER_OFF)) e)
     else (s, e))"

text \<open>Up to the lock. \<open>None\<close> in the first component: the loop is left.\<close>

definition maint_check :: "maint_env \<Rightarrow> maint_st \<times> at_engine \<Rightarrow> maint_st option \<times> at_engine" where
  "maint_check v = (\<lambda>(s, e).
     let s = s\<lparr>ms_ticks := ms_ticks s + 1\<rparr> in
     if me_gone v then (None, engine_fail (Some AT_MSG_USB_GONE) e) else
     let e = (if \<not> e_lease_applied e \<and> ms_ticks s mod 2 = 0 then
                let e = call PollInterrupt e in if me_poll v > 0 then call HandleControl e else e
              else e) in
     if ms_ticks s mod 10 = 0 then
       let e = call Keepalive e in
       if me_ka v \<noteq> 0 then (let (s, e) = keepalive_failed (me_gone2 v) (s, e) in (Some s, e))
       else (Some (s\<lparr>ms_ka_fails := 0\<rparr>), e)
     else (Some s, e))"

definition maint_dhcp :: "maint_env \<Rightarrow> at_engine \<Rightarrow> (maint_job \<times> at_engine) option" where
  "maint_dhcp v e =
     (let leased = e_lease_applied e in do {
        (frame, bound, lease, just, e) \<leftarrow>
          (case e_dhcp e of
             None \<Rightarrow> Some ([], False, net_info_zero, False, e)
           | Some d \<Rightarrow> do {
               (n, d, eth) \<leftarrow> at_dhcp_want_tx (me_now v) (me_tv v) d (me_eth v);
               frame \<leftarrow> load_bytes eth 0 n;
               (let bound = at_dhcp_bound d in
                if bound then
                  let lease = at_dhcp_lease d;
                      just = (if \<not> leased then True
                              else if ni_ip lease \<noteq> '''' \<and> ni_ip (e_net e) \<noteq> ni_ip lease then True
                              else False)
                  in Some (frame, True, lease, just, e\<lparr>e_dhcp := Some d\<rparr>)
                else Some (frame, False, net_info_zero, False, e\<lparr>e_dhcp := Some d\<rparr>)) });
        host_mac \<leftarrow> load_bytes (e_host_mac e) 0 6;
        Some (\<lparr>mj_frame = frame, mj_just_bound = just, mj_lease = lease, mj_leased = leased,
               mj_bound = bound, mj_gw_ip = e_gw_ip e, mj_host_ip = e_host_ip e, mj_host_mac = host_mac\<rparr>, e) })"

definition maint_apply :: "maint_env \<Rightarrow> maint_job \<Rightarrow> at_engine \<Rightarrow> at_engine option" where
  "maint_apply v j e = do {
     e \<leftarrow> (if mj_frame j \<noteq> [] then map_option snd (send_eth_usb e (mj_frame j)) else Some e);
     (if mj_just_bound j then do {
        (rc, e) \<leftarrow> apply_lease_now (me_apply v) (mj_lease j) e;
        Some (if rc \<noteq> 0
              then engine_fail (Some ''Could not apply the DHCP lease to the interface'') e else e) }
      else Some e) }"

definition maint_tail :: "maint_job \<Rightarrow> maint_st \<times> at_engine \<Rightarrow> (maint_st \<times> at_engine) option" where
  "maint_tail j = (\<lambda>(s, e).
     let e = (if mj_leased j \<and> \<not> mj_bound j \<and> e_lease_applied e then pause_datapath e else e);
         (s, e) =
           (if e_saw_lease e \<and> \<not> e_lease_applied e \<and> e_state e = AT_STATE_CONNECTING then
              let s = s\<lparr>ms_lost := ms_lost s + 1\<rparr> in
              (s, if ms_lost s \<ge> AT_DHCP_RENEW_FAIL_TICKS
                  then engine_fail (Some ''Could not renew the DHCP lease'') e else e)
            else (s\<lparr>ms_lost := 0\<rparr>, e)) in do {
       e \<leftarrow> (if e_lease_applied e \<and> mj_gw_ip j \<noteq> 0 \<and> \<not> e_gw_mac_ok e \<and> ms_ticks s mod 4 = 0
             then send_arp_request (mj_host_mac j) (mj_host_ip j) (mj_gw_ip j) e else Some e);
       (let e = (if e_lease_applied e \<and> e_prefer_default_route e \<and> ms_ticks s mod 20 = 0
                 then call DropIpv6Default e else e);
            s = (if e_lease_applied e \<and> ms_ticks s mod 4 = 0
                 then s\<lparr>ms_prev_rx := e_rx_bytes e, ms_prev_tx := e_tx_bytes e\<rparr> else s)
        in Some (s, e)) })"

text \<open>A round without interference, and the thread: it ends when the engine stops running.\<close>

definition maint_round :: "maint_env \<Rightarrow> maint_st \<times> at_engine \<Rightarrow> (maint_st option \<times> at_engine) option" where
  "maint_round v = (\<lambda>(s, e).
     case maint_check v (s, e) of
       (None, e) \<Rightarrow> Some (None, e)
     | (Some s, e) \<Rightarrow> do {
         (j, e) \<leftarrow> maint_dhcp v e;
         e \<leftarrow> maint_apply v j e;
         (s, e) \<leftarrow> maint_tail j (s, e);
         Some (Some s, e) })"

fun maint_thread :: "maint_env list \<Rightarrow> maint_st \<times> at_engine \<Rightarrow> at_engine option" where
  "maint_thread [] (s, e) = Some e"
| "maint_thread (v # vs) (s, e) =
     (if e_running e then do {
        (s', e) \<leftarrow> maint_round v (s, e);
        (case s' of None \<Rightarrow> Some e | Some s \<Rightarrow> maint_thread vs (s, e)) }
      else Some e)"

definition maint_zero :: maint_st where
  "maint_zero = \<lparr>ms_ticks = 0, ms_prev_rx = 0, ms_prev_tx = 0, ms_ka_fails = 0, ms_ka_rx = 0,
     ms_ka_tx = 0, ms_lost = 0\<rparr>"

section \<open>A lease as the client prints it\<close>

lemma aton_ntop [simp]: "inet_aton (inet_ntop4 a) = Some a"
  unfolding inet_aton_def pton_ntop by (simp add: bytes32_def word32_bytes)

lemma ntop_nonempty [simp]: "inet_ntop4 a \<noteq> ''''"
  using ntop_length by blast

lemma lease_fields:
  assumes "lease_active d"
  shows "ni_ip (at_dhcp_lease d) = inet_ntop4 (d_yiaddr d)"
    "ni_netmask (at_dhcp_lease d) = inet_ntop4 (d_netmask d)"
    "ni_gateway (at_dhcp_lease d) = (if d_router d \<noteq> 0 then inet_ntop4 (d_router d) else '''')"
    "ni_ready (at_dhcp_lease d) = 1"
  using assms by (auto simp: at_dhcp_lease_def net_info_zero_def Let_def)

lemma fill_dns_fields [simp]:
  "ni_ip (fill_dns l) = ni_ip l" "ni_netmask (fill_dns l) = ni_netmask l"
  "ni_gateway (fill_dns l) = ni_gateway l" "ni_ready (fill_dns l) = ni_ready l"
  by (simp_all add: fill_dns_def)

lemma send_arp_request_step:
  assumes "engine_inv e" "length hm = 6"
  obtains e' where "send_arp_request hm hip gip e = Some e'" "step_ok wakes e e'"
    "only_tx e e'"
proof -
  let ?r = "arp_frame hm hip None gip 1"
  have l: "length ?r = 42" using assms(2) by simp
  obtain rc e' where s: "send_eth_usb e ?r = Some (rc, e')" "step_ok wakes e e'"
    using send_step [OF assms(1), of ?r] l by auto
  have "build_arp (replicate 64 0) hm hip None gip 1 = Some (42, ?r @ drop 42 (replicate 64 0))"
    by (rule build_arp_eq) (use assms(2) in simp_all)
  then have "send_arp_request hm hip gip e = Some e'"
    using s(1) l by (simp add: send_arp_request_def load_bytes_prefix)
  then show thesis using s that send_only_tx [OF _ _ s(1)] assms(1) l by simp
qed

text \<open>The calls a lease may cause, with and without the user's wish to use the phone as default route.\<close>

definition net_calls :: "bool \<Rightarrow> ext_call \<Rightarrow> bool" where
  "net_calls prefer c \<longleftrightarrow> wakes c \<or> (\<exists>n l. c = ApplyLease n l prefer) \<or>
     prefer \<and> (c = DisableWifi \<or> c = DropIpv6Default \<or> (\<exists>n g. c = PreferDefaultRoute n g))"

lemma net_calls_wakes: "calls_ext wakes e e' \<Longrightarrow> calls_ext (net_calls p) e e'"
  by (erule calls_ext_mono) (simp add: net_calls_def)

text \<open>The steps of a lease that comes up, before the announcement on the wire.\<close>

definition lease_addr :: "at_net_info \<Rightarrow> at_engine \<Rightarrow> at_engine" where
  "lease_addr l e =
     (let e = (case inet_aton (ni_ip l) of Some a \<Rightarrow> e\<lparr>e_host_ip := a\<rparr> | None \<Rightarrow> e) in
      if ni_gateway l \<noteq> ''''
      then case inet_aton (ni_gateway l) of Some a \<Rightarrow> e\<lparr>e_gw_ip := a\<rparr> | None \<Rightarrow> e
      else e)"

definition lease_up :: "at_net_info \<Rightarrow> at_engine \<Rightarrow> at_engine" where
  "lease_up l e = e\<lparr>e_gw_mac := e_device_mac e, e_net := l, e_gw_mac_ok := False, e_lease_applied := True,
     e_saw_lease := True, e_state := AT_STATE_CONNECTED\<rparr>"

definition lease_wish :: "string \<Rightarrow> at_net_info \<Rightarrow> at_engine \<Rightarrow> at_engine" where
  "lease_wish ifname l e =
     (if e_prefer_default_route e
      then call DisableWifi (if ni_gateway l \<noteq> '''' then call (PreferDefaultRoute ifname (ni_gateway l)) e else e)
      else e)"

definition lease_set :: "at_net_info \<Rightarrow> at_engine \<Rightarrow> at_engine" where
  "lease_set l e = lease_wish (at_utun_name (e_utun e)) l (lease_up l (lease_addr l
     (call (ApplyLease (at_utun_name (e_utun e)) l (e_prefer_default_route e)) e)))"

definition lease_calls :: "at_engine \<Rightarrow> at_net_info \<Rightarrow> ext_call list" where
  "lease_calls e l = ApplyLease (at_utun_name (e_utun e)) l (e_prefer_default_route e) #
     (if e_prefer_default_route e then
        (if ni_gateway l \<noteq> '''' then [PreferDefaultRoute (at_utun_name (e_utun e)) (ni_gateway l)] else []) @ [DisableWifi]
      else [])"

lemma lease_addr_same [simp]:
  "e_gw_mac (lease_addr l e) = e_gw_mac e" "e_device_mac (lease_addr l e) = e_device_mac e"
  "e_host_mac (lease_addr l e) = e_host_mac e" "e_dhcp (lease_addr l e) = e_dhcp e"
  "e_calls (lease_addr l e) = e_calls e" "e_prefer_default_route (lease_addr l e) = e_prefer_default_route e"
  "e_utun (lease_addr l e) = e_utun e" "e_running (lease_addr l e) = e_running e"
  "e_usb_hard_fails (lease_addr l e) = e_usb_hard_fails e" "txq_inv (lease_addr l e) = txq_inv e"
proof -
  show "txq_inv (lease_addr l e) = txq_inv e"
    by (rule ring_frame) (simp_all add: lease_addr_def Let_def split: option.split)
qed (simp_all add: lease_addr_def Let_def split: option.split)

lemma lease_set_calls: "e_calls (lease_set l e) = e_calls e @ lease_calls e l"
  by (simp add: lease_set_def lease_wish_def lease_up_def lease_calls_def call_def)

lemma lease_set_fields:
  "e_state (lease_set l e) = AT_STATE_CONNECTED" "e_lease_applied (lease_set l e)" "e_saw_lease (lease_set l e)"
  "\<not> e_gw_mac_ok (lease_set l e)" "e_net (lease_set l e) = l" "e_gw_mac (lease_set l e) = e_device_mac e"
  "e_host_ip (lease_set l e) = e_host_ip (lease_addr l e)" "e_gw_ip (lease_set l e) = e_gw_ip (lease_addr l e)"
  "e_host_mac (lease_set l e) = e_host_mac e" "e_prefer_default_route (lease_set l e) = e_prefer_default_route e"
  "e_running (lease_set l e) = e_running e" "e_dhcp (lease_set l e) = e_dhcp e"
  by (simp_all add: lease_set_def lease_wish_def lease_up_def call_def)
    (simp_all add: lease_addr_def Let_def split: option.split)

lemma lease_set_inv:
  assumes "engine_inv e"
  shows "engine_inv (lease_set l e)"
proof -
  have "txq_inv (lease_up l e) = txq_inv e" for e
    by (rule ring_frame) (simp_all add: lease_up_def)
  then have "engine_inv (lease_up l e)" if "engine_inv e" for e
    using that by (simp add: engine_inv_def) (simp add: lease_up_def)
  moreover have "engine_inv (lease_addr l e)" if "engine_inv e" for e
    using that by (simp add: engine_inv_def) (simp add: lease_addr_def Let_def split: option.split)
  ultimately show ?thesis using assms by (simp add: lease_set_def lease_wish_def)
qed

lemma apply_lease_run:
  assumes "engine_inv e" and l_def: "l = fill_dns lease"
  shows "apply_lease_now 0 lease e =
     (if e_gw_ip (lease_set l e) \<noteq> 0 \<and> e_host_ip (lease_set l e) \<noteq> 0
      then map_option (Pair 0) (send_arp_request (e_host_mac e) (e_host_ip (lease_set l e)) (e_gw_ip (lease_set l e)) (lease_set l e))
      else Some (0, lease_set l e))"
proof -
  have mac: "length (e_host_mac e) = 6" "length (e_gw_mac e) = 6" "length (e_device_mac e) = 6"
    using assms(1) by (simp_all add: engine_inv_def)
  let ?e = "lease_addr l (call (ApplyLease (at_utun_name (e_utun e)) l (e_prefer_default_route e)) e)"
  have m: "e_host_mac (call c e) = e_host_mac e" "e_gw_mac (call c e) = e_gw_mac e"
    "e_device_mac (call c e) = e_device_mac e" for c
    by (simp_all add: call_def)
  define e0 where "e0 = e"
  have "apply_lease_now 0 lease e = do {
        d \<leftarrow> load_bytes (e_device_mac ?e) 0 6;
        g \<leftarrow> store_bytes (e_gw_mac ?e) 0 d;
        (let e = ?e\<lparr>e_gw_mac := g, e_net := l\<rparr>; host_ip = e_host_ip e; gw_ip = e_gw_ip e in do {
           host_mac \<leftarrow> load_bytes (e_host_mac e) 0 6;
           (let e = lease_wish (at_utun_name (e_utun e0)) l (e\<lparr>e_gw_mac_ok := False, e_lease_applied := True, e_saw_lease := True,
                      e_state := AT_STATE_CONNECTED\<rparr>) in do {
              e \<leftarrow> (if gw_ip \<noteq> 0 \<and> host_ip \<noteq> 0 then send_arp_request host_mac host_ip gw_ip e else Some e);
              Some (0, e) }) }) }"
    unfolding apply_lease_now_def l_def [symmetric] Let_def lease_addr_def lease_wish_def e0_def by simp
  also have "\<dots> = (let e' = lease_set l e in do {
      e \<leftarrow> (if e_gw_ip ?e \<noteq> 0 \<and> e_host_ip ?e \<noteq> 0 then send_arp_request (e_host_mac e) (e_host_ip ?e) (e_gw_ip ?e) e' else Some e');
      Some (0, e) })"
    using mac by (simp add: m load_bytes_Some store_bytes_Some Let_def lease_set_def lease_up_def e0_def)
  also have "\<dots> = (if e_gw_ip (lease_set l e) \<noteq> 0 \<and> e_host_ip (lease_set l e) \<noteq> 0
      then map_option (Pair 0) (send_arp_request (e_host_mac e) (e_host_ip (lease_set l e)) (e_gw_ip (lease_set l e)) (lease_set l e))
      else Some (0, lease_set l e))"
  proof -
    have g: "e_host_ip ?e = e_host_ip (lease_set l e)" "e_gw_ip ?e = e_gw_ip (lease_set l e)"
      by (simp_all add: lease_set_fields) (simp_all add: lease_addr_def call_def Let_def split: option.split)
    show ?thesis unfolding g Let_def by (simp add: map_option_case split: option.split bind_split)
  qed
  finally show ?thesis .
qed

text \<open>Whatever the result of the system call and the lease, the code returns and keeps the invariant.\<close>

lemma apply_lease_step:
  assumes "engine_inv e"
  obtains rc' e' where "apply_lease_now rc lease e = Some (rc', e')" "engine_inv e'"
    "calls_ext (net_calls (e_prefer_default_route e)) e e'" "rc \<noteq> 0 \<longrightarrow> rc' = -1"
    "rc = 0 \<longrightarrow> rc' = 0 \<and> only_tx (lease_set (fill_dns lease) e) e' \<and>
       calls_ext wakes (lease_set (fill_dns lease) e) e'"
proof (cases "rc = 0")
  case False
  let ?e = "call (ApplyLease (at_utun_name (e_utun e)) (fill_dns lease) (e_prefer_default_route e)) e"
  show thesis
  proof (rule that)
    show "apply_lease_now rc lease e = Some (-1, ?e)" using False by (simp add: apply_lease_now_def Let_def)
    show "calls_ext (net_calls (e_prefer_default_route e)) e ?e"
      by (simp add: calls_ext_def call_def net_calls_def)
  qed (use assms False in simp_all)
next
  case True
  let ?l = "fill_dns lease"
  let ?e1 = "lease_set ?l e"
  have inv: "engine_inv ?e1" by (rule lease_set_inv [OF assms])
  have mac: "length (e_host_mac e) = 6" using assms by (simp add: engine_inv_def)
  obtain e' where s: "send_arp_request (e_host_mac e) (e_host_ip ?e1) (e_gw_ip ?e1) ?e1 = Some e'"
    "step_ok wakes ?e1 e'" "only_tx ?e1 e'"
    by (rule send_arp_request_step [OF inv mac])
  have only_refl: "only_tx e e" for e by (simp add: only_tx_def)
  define r where "r = (if e_gw_ip ?e1 \<noteq> 0 \<and> e_host_ip ?e1 \<noteq> 0 then e' else ?e1)"
  have w: "calls_ext wakes ?e1 r" using s(2) by (simp add: r_def step_ok_def)
  have "calls_ext (net_calls (e_prefer_default_route e)) e ?e1"
    unfolding calls_ext_def lease_set_calls by (auto simp: lease_calls_def net_calls_def)
  then have c: "calls_ext (net_calls (e_prefer_default_route e)) e r"
    using net_calls_wakes [OF w] calls_ext_trans by blast
  show thesis
  proof (rule that)
    show "apply_lease_now rc lease e = Some (0, r)"
      using True s(1) by (simp add: apply_lease_run [OF assms refl] r_def)
    show "engine_inv r" using inv step_ok_inv [OF s(2)] by (simp add: r_def)
  qed (use True c w s(3) only_refl in \<open>simp_all add: r_def\<close>)
qed

text \<open>
  C8: applying the lease of a bound client brings the data path up with exactly the parameters the
  server gave: the client's address and router become the engine's, the gateway's MAC falls back to
  the device's until it is learned, the state is CONNECTED, and the system is configured once,
  before any frame is queued; the default route and Wi-Fi are touched only if the user asked.
\<close>

theorem lease_comes_up:
  assumes "engine_inv e" "lease_active d"
  shows "\<exists>e'. apply_lease_now 0 (at_dhcp_lease d) e = Some (0, e') \<and> engine_inv e' \<and>
     e_state e' = AT_STATE_CONNECTED \<and> e_lease_applied e' \<and> \<not> e_gw_mac_ok e' \<and>
     e_host_ip e' = d_yiaddr d \<and> (d_router d \<noteq> 0 \<longrightarrow> e_gw_ip e' = d_router d) \<and>
     e_gw_mac e' = e_device_mac e \<and> e_net e' = fill_dns (at_dhcp_lease d) \<and>
     (\<exists>ws. e_calls e' = e_calls e @ lease_calls e (e_net e') @ ws \<and> list_all wakes ws)"
proof -
  let ?l = "fill_dns (at_dhcp_lease d)"
  obtain e' where r: "apply_lease_now 0 (at_dhcp_lease d) e = Some (0, e')" "engine_inv e'"
    "only_tx (lease_set ?l e) e'" "calls_ext wakes (lease_set ?l e) e'"
    using apply_lease_step [OF assms(1), of 0 "at_dhcp_lease d"] by auto
  have a: "e_host_ip (lease_addr ?l e) = d_yiaddr d" "d_router d \<noteq> 0 \<longrightarrow> e_gw_ip (lease_addr ?l e) = d_router d"
    using lease_fields [OF assms(2)] by (simp_all add: lease_addr_def Let_def)
  show ?thesis
    using r(1,2,4) only_txD [OF r(3)] a
    by (auto simp: lease_set_fields calls_ext_def lease_set_calls)
qed

lemma bound_client_active: "lease_active bound_client"
  by (simp add: bound_client_def lease_active_def)

theorem lease_comes_up_witness:
  "\<exists>e'. apply_lease_now 0 (at_dhcp_lease bound_client) started = Some (0, e') \<and> engine_inv e' \<and>
     e_state e' = AT_STATE_CONNECTED \<and> e_host_ip e' = d_yiaddr bound_client"
  using lease_comes_up [OF started_engine_inv bound_client_active] by blast

section \<open>Every round is safe\<close>

definition maint_calls :: "bool \<Rightarrow> ext_call \<Rightarrow> bool" where
  "maint_calls prefer c \<longleftrightarrow> net_calls prefer c \<or> c = PollInterrupt \<or> c = HandleControl \<or> c = Keepalive"

definition job_ok :: "maint_job \<Rightarrow> bool" where
  "job_ok j \<longleftrightarrow> length (mj_frame j) < 2 ^ 32 \<and> length (mj_host_mac j) = 6"

lemma keepalive_failed_step: "step_ok P e (snd (keepalive_failed g (s, e)))"
  by (simp add: keepalive_failed_def Let_def)

lemma step_call: "step_ok P e0 e \<Longrightarrow> P c \<Longrightarrow> step_ok P e0 (call c e)"
  by (erule step_ok_trans) simp

lemma maint_check_step: "step_ok (maint_calls p) e (snd (maint_check v (s, e)))"
proof -
  let ?t = "ms_ticks s + 1"
  let ?e1 = "if \<not> e_lease_applied e \<and> ?t mod 2 = 0
     then if me_poll v > 0 then call HandleControl (call PollInterrupt e) else call PollInterrupt e else e"
  have s1: "step_ok (maint_calls p) e ?e1"
    by (simp add: step_call maint_calls_def)
  then have s2: "step_ok (maint_calls p) e (call Keepalive ?e1)"
    by (rule step_call) (simp add: maint_calls_def)
  have "snd (maint_check v (s, e)) =
     (if me_gone v then engine_fail (Some AT_MSG_USB_GONE) e
      else if ?t mod 10 = 0 then
        if me_ka v \<noteq> 0 then snd (keepalive_failed (me_gone2 v) (s\<lparr>ms_ticks := ?t\<rparr>, call Keepalive ?e1))
        else call Keepalive ?e1
      else ?e1)"
    by (simp add: maint_check_def Let_def split: prod.split)
  then show ?thesis
    using s1 s2 step_ok_trans [OF s2 keepalive_failed_step] by simp
qed

lemma maint_dhcp_step:
  assumes "engine_inv e"
  obtains j e' where "maint_dhcp v e = Some (j, e')" "step_ok P e e'" "job_ok j"
    "mj_just_bound j \<longrightarrow> (\<exists>d. e_dhcp e' = Some d \<and> lease_active d \<and> mj_lease j = at_dhcp_lease d)"
    "mj_bound j \<longleftrightarrow> (\<exists>d. e_dhcp e' = Some d \<and> lease_active d)" "mj_leased j = e_lease_applied e"
    "length (me_eth v) < 342 \<longrightarrow> mj_frame j = []" "e_state e' = e_state e" "e_saw_lease e' = e_saw_lease e"
    "e_lease_applied e' = e_lease_applied e" "e_running e' = e_running e"
proof -
  have mac: "load_bytes (e_host_mac e) 0 6 = Some (e_host_mac e)" "length (e_host_mac e) = 6"
    using assms by (simp_all add: engine_inv_def load_bytes_Some)
  show thesis
  proof (cases "e_dhcp e")
    case None
    have run: "maint_dhcp v e = Some (\<lparr>mj_frame = [], mj_just_bound = False, mj_lease = net_info_zero,
       mj_leased = e_lease_applied e, mj_bound = False, mj_gw_ip = e_gw_ip e, mj_host_ip = e_host_ip e,
       mj_host_mac = e_host_mac e\<rparr>, e)"
      using None mac(1) by (simp add: maint_dhcp_def Let_def)
    show thesis
      by (rule that [OF run step_ok_refl]) (use None mac in \<open>simp_all add: job_ok_def\<close>)
  next
    case (Some d)
    then have d: "dhcp_inv d" "length (d_mac d) = 6" using assms by (simp_all add: engine_inv_def dhcp_inv_def)
    have "\<exists>n d' eth'. at_dhcp_want_tx (me_now v) (me_tv v) d (me_eth v) = Some (n, d', eth') \<and>
        n \<le> length eth' \<and> n \<le> 342 \<and> (length (me_eth v) < 342 \<longrightarrow> n = 0)"
      using d(2)
    proof (rule want_tx_spec [OF _ refl, where eth = "me_eth v" and now = "me_now v" and tv = "me_tv v"])
      fix eth'
      assume "342 \<le> length (me_eth v)" "length eth' = length (me_eth v)"
        "at_dhcp_want_tx (me_now v) (me_tv v) d (me_eth v) =
           Some (342, tx_sent (me_tv v) (advance_renew_state (me_now v) d), eth')"
      then show ?thesis by simp
    qed simp
    then obtain n d' eth' where w: "at_dhcp_want_tx (me_now v) (me_tv v) d (me_eth v) = Some (n, d', eth')"
      "n \<le> length eth'" "n \<le> 342" "length (me_eth v) < 342 \<longrightarrow> n = 0" by blast
    have d': "dhcp_inv d'" using want_tx_inv [OF d(1) w(1)] .
    let ?e = "e\<lparr>e_dhcp := Some d'\<rparr>"
    have "txq_inv ?e = txq_inv e" by (rule ring_frame) simp_all
    then have st: "step_ok P e ?e" using d' by (simp add: step_ok_def calls_ext_def) (simp add: engine_inv_def)
    let ?just = "lease_active d' \<and> (\<not> e_lease_applied e \<or>
       ni_ip (at_dhcp_lease d') \<noteq> '''' \<and> ni_ip (e_net e) \<noteq> ni_ip (at_dhcp_lease d'))"
    let ?j = "\<lparr>mj_frame = take n eth', mj_just_bound = ?just,
       mj_lease = if lease_active d' then at_dhcp_lease d' else net_info_zero, mj_leased = e_lease_applied e,
       mj_bound = lease_active d', mj_gw_ip = e_gw_ip e, mj_host_ip = e_host_ip e, mj_host_mac = e_host_mac e\<rparr>"
    have run: "maint_dhcp v e = Some (?j, ?e)"
      using Some w(1,2) mac by (simp add: maint_dhcp_def Let_def load_bytes_Some at_dhcp_bound_def)
    show thesis
      by (rule that [OF run st]) (use w(3,4) mac(2) in \<open>simp_all add: job_ok_def\<close>)
  qed
qed

text \<open>A send with its result ignored.\<close>

lemma send_ignored:
  assumes "engine_inv e" "length m < 2 ^ 32"
  obtains e' where "map_option snd (send_eth_usb e m) = Some e'" "step_ok wakes e e'" "only_tx e e'"
proof -
  obtain rc e' where s: "send_eth_usb e m = Some (rc, e')" "step_ok wakes e e'"
    using send_step [OF assms] by blast
  show thesis using that [of e'] s send_only_tx [OF _ assms(2) s(1)] assms(1) by simp
qed

lemma calls_ext_step: "step_ok P e e' \<Longrightarrow> calls_ext P e e'"
  by (simp add: step_ok_def)

lemma maint_apply_step:
  assumes "engine_inv e" "job_ok j"
  obtains e' where "maint_apply v j e = Some e'" "engine_inv e'"
    "calls_ext (net_calls (e_prefer_default_route e)) e e'"
    "e_prefer_default_route e' = e_prefer_default_route e" "e_running e' \<longrightarrow> e_running e"
    "\<not> mj_just_bound j \<longrightarrow> step_ok wakes e e' \<and> only_tx e e'"
proof -
  let ?P = "net_calls (e_prefer_default_route e)"
  have only_refl: "only_tx e e" by (simp add: only_tx_def)
  obtain e1 where e1: "(if mj_frame j \<noteq> [] then map_option snd (send_eth_usb e (mj_frame j)) else Some e) = Some e1"
    "step_ok wakes e e1" "only_tx e e1"
  proof (cases "mj_frame j = []")
    case True
    then show thesis using only_refl by (intro that) simp_all
  next
    case False
    have l: "length (mj_frame j) < 2 ^ 32" using assms(2) by (simp add: job_ok_def)
    show thesis using False by (rule_tac send_ignored [OF assms(1) l]) (auto intro: that)
  qed
  have inv: "engine_inv e1" using step_ok_inv [OF e1(2) assms(1)] .
  have c1: "calls_ext ?P e e1" by (rule net_calls_wakes [OF calls_ext_step [OF e1(2)]])
  show thesis
  proof (cases "mj_just_bound j")
    case False
    then show thesis using e1 inv c1 only_txD [OF e1(3)]
      by (intro that) (simp_all add: maint_apply_def)
  next
    case True
    obtain rc' e2 where e2: "apply_lease_now (me_apply v) (mj_lease j) e1 = Some (rc', e2)" "engine_inv e2"
      "calls_ext (net_calls (e_prefer_default_route e1)) e1 e2"
      "me_apply v \<noteq> 0 \<longrightarrow> rc' = -1"
      "me_apply v = 0 \<longrightarrow> rc' = 0 \<and> only_tx (lease_set (fill_dns (mj_lease j)) e1) e2 \<and>
         calls_ext wakes (lease_set (fill_dns (mj_lease j)) e1) e2"
      by (rule apply_lease_step [OF inv])
    have pr: "e_prefer_default_route e2 = e_prefer_default_route e1" "e_running e2 = e_running e1"
    proof -
      have "e_prefer_default_route e2 = e_prefer_default_route e1 \<and> e_running e2 = e_running e1"
      proof (cases "me_apply v = 0")
        case True
        then show ?thesis using e2(5) only_txD lease_set_fields by metis
      next
        case False
        then have "e2 = call (ApplyLease (at_utun_name (e_utun e1)) (fill_dns (mj_lease j)) (e_prefer_default_route e1)) e1"
          using e2(1) by (simp add: apply_lease_now_def Let_def)
        then show ?thesis by (simp add: call_def)
      qed
      then show "e_prefer_default_route e2 = e_prefer_default_route e1" "e_running e2 = e_running e1" by simp_all
    qed
    let ?e3 = "if rc' \<noteq> 0 then engine_fail (Some ''Could not apply the DHCP lease to the interface'') e2 else e2"
    have s3: "step_ok ?P e2 ?e3" by simp
    have p1: "e_prefer_default_route e1 = e_prefer_default_route e" using only_txD [OF e1(3)] by simp
    show thesis
    proof (rule that)
      show "maint_apply v j e = Some ?e3"
        unfolding maint_apply_def e1(1) using True e2(1) by simp
      show "engine_inv ?e3" using step_ok_inv [OF s3 e2(2)] .
      show "calls_ext ?P e ?e3"
        using c1 e2(3) calls_ext_step [OF s3] unfolding p1 by (blast intro: calls_ext_trans)
      show "e_prefer_default_route ?e3 = e_prefer_default_route e" using s3 pr(1) p1 by (simp add: step_ok_def)
      show "e_running ?e3 \<longrightarrow> e_running e" using s3 pr(2) e1(2) by (auto simp: step_ok_def)
    qed (use True in simp)
  qed
qed

text \<open>The watch over a lost lease, as a function of its own: the middle of \<open>maint_tail\<close>.\<close>

definition lost_watch :: "maint_st \<times> at_engine \<Rightarrow> maint_st \<times> at_engine" where
  "lost_watch = (\<lambda>(s, e).
     if e_saw_lease e \<and> \<not> e_lease_applied e \<and> e_state e = AT_STATE_CONNECTING then
       let s = s\<lparr>ms_lost := ms_lost s + 1\<rparr> in
       (s, if ms_lost s \<ge> AT_DHCP_RENEW_FAIL_TICKS then engine_fail (Some ''Could not renew the DHCP lease'') e else e)
     else (s\<lparr>ms_lost := 0\<rparr>, e))"

lemma lost_watch_step: "step_ok P e (snd (lost_watch (s, e)))"
  by (simp add: lost_watch_def Let_def)

lemma maint_tail_eq:
  "maint_tail j (s, e) =
     (let e = (if mj_leased j \<and> \<not> mj_bound j \<and> e_lease_applied e then pause_datapath e else e);
          (s, e) = lost_watch (s, e) in do {
       e \<leftarrow> (if e_lease_applied e \<and> mj_gw_ip j \<noteq> 0 \<and> \<not> e_gw_mac_ok e \<and> ms_ticks s mod 4 = 0
             then send_arp_request (mj_host_mac j) (mj_host_ip j) (mj_gw_ip j) e else Some e);
       (let e = (if e_lease_applied e \<and> e_prefer_default_route e \<and> ms_ticks s mod 20 = 0
                 then call DropIpv6Default e else e);
            s = (if e_lease_applied e \<and> ms_ticks s mod 4 = 0
                 then s\<lparr>ms_prev_rx := e_rx_bytes e, ms_prev_tx := e_tx_bytes e\<rparr> else s)
        in Some (s, e)) })"
  unfolding maint_tail_def lost_watch_def Let_def prod.case by (rule refl)

lemma maint_tail_step:
  assumes "engine_inv e" "job_ok j"
  obtains s' e' where "maint_tail j (s, e) = Some (s', e')" "step_ok (net_calls (e_prefer_default_route e)) e e'"
    "ms_ticks s' = ms_ticks s"
proof -
  let ?P = "net_calls (e_prefer_default_route e)"
  let ?e1 = "if mj_leased j \<and> \<not> mj_bound j \<and> e_lease_applied e then pause_datapath e else e"
  obtain s2 e2 where w: "lost_watch (s, ?e1) = (s2, e2)" by fastforce
  have t: "ms_ticks s2 = ms_ticks s" using w by (auto simp: lost_watch_def Let_def split: if_splits)
  have s2: "step_ok ?P e e2"
    by (rule step_ok_trans [where ?e1.0 = ?e1]) (use lost_watch_step [of ?P ?e1 s] w in simp_all)
  have inv: "engine_inv e2" using step_ok_inv [OF s2 assms(1)] .
  have hm: "length (mj_host_mac j) = 6" using assms(2) by (simp add: job_ok_def)
  obtain e3 where e3: "send_arp_request (mj_host_mac j) (mj_host_ip j) (mj_gw_ip j) e2 = Some e3"
    "step_ok wakes e2 e3"
    by (rule send_arp_request_step [OF inv hm])
  define e4 where "e4 = (if e_lease_applied e2 \<and> mj_gw_ip j \<noteq> 0 \<and> \<not> e_gw_mac_ok e2 \<and> ms_ticks s2 mod 4 = 0 then e3 else e2)"
  have "step_ok ?P e2 e4"
    using step_ok_mono [OF e3(2), of ?P] by (simp add: e4_def net_calls_def)
  then have s4: "step_ok ?P e e4" by (rule step_ok_trans [OF s2])
  have pr: "e_prefer_default_route e4 = e_prefer_default_route e" using s4 by (simp add: step_ok_def)
  let ?e5 = "if e_lease_applied e4 \<and> e_prefer_default_route e4 \<and> ms_ticks s2 mod 20 = 0 then call DropIpv6Default e4 else e4"
  have d: "step_ok ?P e (call DropIpv6Default e4)" if "e_prefer_default_route e4"
    by (rule step_call [OF s4]) (use that pr in \<open>simp add: net_calls_def\<close>)
  have s5: "step_ok ?P e ?e5"
    by (cases "e_lease_applied e4 \<and> e_prefer_default_route e4 \<and> ms_ticks s2 mod 20 = 0")
      (simp_all only: if_True if_False d s4 simp_thms)
  have h: "(if e_lease_applied e2 \<and> mj_gw_ip j \<noteq> 0 \<and> \<not> e_gw_mac_ok e2 \<and> ms_ticks s2 mod 4 = 0
      then send_arp_request (mj_host_mac j) (mj_host_ip j) (mj_gw_ip j) e2 else Some e2) = Some e4"
    using e3(1) by (simp add: e4_def)
  have run: "maint_tail j (s, e) = Some (if e_lease_applied ?e5 \<and> ms_ticks s2 mod 4 = 0
      then s2\<lparr>ms_prev_rx := e_rx_bytes ?e5, ms_prev_tx := e_tx_bytes ?e5\<rparr> else s2, ?e5)"
    unfolding maint_tail_eq Let_def w prod.case h Option.bind.bind_lunit by (rule refl)
  show thesis by (rule that [OF run s5]) (simp add: t)
qed

text \<open>One undisturbed round.\<close>

lemma maint_round_step:
  assumes "engine_inv e"
  obtains s' e' where "maint_round v (s, e) = Some (s', e')" "engine_inv e'"
    "calls_ext (maint_calls (e_prefer_default_route e)) e e'"
    "e_prefer_default_route e' = e_prefer_default_route e" "e_running e' \<longrightarrow> e_running e"
proof -
  let ?p = "e_prefer_default_route e"
  obtain o1 e1 where c: "maint_check v (s, e) = (o1, e1)" by fastforce
  have s1: "step_ok (maint_calls ?p) e e1" using maint_check_step [of ?p e v s] c by simp
  have i1: "engine_inv e1" using step_ok_inv [OF s1 assms] .
  show thesis
  proof (cases o1)
    case None
    show thesis
      by (rule that [of None e1]) (use None c s1 i1 in \<open>simp_all add: maint_round_def step_ok_def\<close>)
  next
    case (Some s1')
    obtain j e2 where e2: "maint_dhcp v e1 = Some (j, e2)" "step_ok (maint_calls ?p) e1 e2" "job_ok j"
      by (rule maint_dhcp_step [OF i1])
    have i2: "engine_inv e2" using step_ok_inv [OF e2(2) i1] .
    obtain e3 where e3: "maint_apply v j e2 = Some e3" "engine_inv e3"
      "calls_ext (net_calls (e_prefer_default_route e2)) e2 e3"
      "e_prefer_default_route e3 = e_prefer_default_route e2" "e_running e3 \<longrightarrow> e_running e2"
      by (rule maint_apply_step [OF i2 e2(3)])
    obtain s4 e4 where e4: "maint_tail j (s1', e3) = Some (s4, e4)" "step_ok (net_calls (e_prefer_default_route e3)) e3 e4"
      by (rule maint_tail_step [OF e3(2) e2(3)])
    have p: "e_prefer_default_route e2 = ?p" "e_prefer_default_route e3 = ?p"
      using s1 e2(2) e3(4) by (simp_all add: step_ok_def)
    have c3: "calls_ext (net_calls ?p) e2 e3" using e3(3) by (simp only: p)
    have c4: "calls_ext (net_calls ?p) e3 e4" using calls_ext_step [OF e4(2)] by (simp only: p)
    have mono: "calls_ext (net_calls ?p) a b \<Longrightarrow> calls_ext (maint_calls ?p) a b" for a b
      by (erule calls_ext_mono) (simp add: maint_calls_def)
    show thesis
    proof (rule that)
      show "maint_round v (s, e) = Some (Some s4, e4)"
        using c Some e2(1) e3(1) e4(1) by (simp add: maint_round_def)
      show "engine_inv e4" using step_ok_inv [OF e4(2) e3(2)] .
      show "calls_ext (maint_calls ?p) e e4"
        using calls_ext_step [OF s1] calls_ext_step [OF e2(2)] mono [OF c3] mono [OF c4]
        by (blast intro: calls_ext_trans)
      show "e_prefer_default_route e4 = ?p" using e4(2) p by (simp add: step_ok_def)
      show "e_running e4 \<longrightarrow> e_running e" using s1 e2(2) e3(5) e4(2) by (auto simp: step_ok_def)
    qed
  qed
qed

text \<open>
  The maintenance thread never has undefined behaviour and keeps the engine's invariant, for any
  answers of the phone and the system; and unless the user asked for the phone as default
  connection it leaves the system's default route, Wi-Fi and IPv6 alone.
\<close>

theorem maint_thread_safe:
  assumes "engine_inv e"
  shows "\<exists>e'. maint_thread vs (s, e) = Some e' \<and> engine_inv e' \<and>
    calls_ext (maint_calls (e_prefer_default_route e)) e e'"
  using assms
proof (induction vs arbitrary: s e)
  case (Cons v vs)
  show ?case
  proof (cases "e_running e")
    case True
    obtain s1 e1 where e1: "maint_round v (s, e) = Some (s1, e1)" "engine_inv e1"
      "calls_ext (maint_calls (e_prefer_default_route e)) e e1"
      "e_prefer_default_route e1 = e_prefer_default_route e"
      by (rule maint_round_step [OF Cons.prems])
    show ?thesis
    proof (cases s1)
      case None
      then show ?thesis using True e1 by simp
    next
      case (Some s2)
      from Cons.IH [OF e1(2), of s2] obtain e2 where "maint_thread vs (s2, e1) = Some e2" "engine_inv e2"
        "calls_ext (maint_calls (e_prefer_default_route e)) e1 e2" unfolding e1(4) by blast
      then show ?thesis using True e1 Some by (auto intro: calls_ext_trans)
    qed
  qed (use Cons.prems in simp)
qed simp

definition quiet_env :: maint_env where
  "quiet_env = \<lparr>me_gone = False, me_poll = 0, me_ka = 0, me_gone2 = False, me_now = 9000, me_tv = tv_zero,
     me_eth = replicate 1518 0, me_apply = 0\<rparr>"

theorem maint_thread_safe_witness:
  "\<exists>e'. maint_thread (replicate 30 quiet_env) (maint_zero, started) = Some e' \<and> engine_inv e' \<and>
    calls_ext (maint_calls (e_prefer_default_route started)) started e'"
  by (rule maint_thread_safe [OF started_engine_inv])

section \<open>A lost lease\<close>

definition waiting :: "at_engine \<Rightarrow> bool" where
  "waiting e \<longleftrightarrow> e_saw_lease e \<and> \<not> e_lease_applied e \<and> e_state e = AT_STATE_CONNECTING"

lemma tail_waiting:
  assumes "\<not> e_lease_applied e"
  shows "maint_tail j (s, e) = Some (lost_watch (s, e))"
proof -
  obtain s1 e1 where w: "lost_watch (s, e) = (s1, e1)" by fastforce
  have "step_ok wakes e e1" using lost_watch_step [of wakes e s] w by simp
  then have "\<not> e_lease_applied e1" using assms by (auto simp: step_ok_def)
  then show ?thesis using assms by (simp add: maint_tail_eq Let_def w)
qed

lemma lost_watch_waiting:
  assumes "waiting e"
  shows "lost_watch (s, e) = (s\<lparr>ms_lost := ms_lost s + 1\<rparr>,
    if ms_lost s + 1 \<ge> 24 then engine_fail (Some ''Could not renew the DHCP lease'') e else e)"
  using assms by (simp add: lost_watch_def waiting_def Let_def)

lemma failed_not_applied:
  "e_lease_applied (engine_fail m e) = e_lease_applied e"
  by (cases rule: engine_fail_cases [of e m]) simp_all

lemma lost_watch_error:
  assumes "e_state e = AT_STATE_ERROR"
  shows "lost_watch (s, e) = (s\<lparr>ms_lost := 0\<rparr>, e)"
  using assms by (simp add: lost_watch_def)

lemma tail_error:
  assumes "\<not> e_lease_applied e" "e_state e = AT_STATE_ERROR"
  shows "\<exists>s'. run maint_tail js (s, e) = Some (s', e)"
proof (induction js arbitrary: s)
  case (Cons j js)
  then show ?case by (simp add: tail_waiting [OF assms(1)] lost_watch_error [OF assms(2)])
qed simp

lemma lost_rounds:
  assumes "waiting e" "0 \<le> ms_lost s" "ms_lost s < 24"
  shows "\<exists>s' e'. run maint_tail js (s, e) = Some (s', e') \<and>
    e_state e' = (if ms_lost s + int (length js) < 24 then AT_STATE_CONNECTING else AT_STATE_ERROR)"
  using assms(2,3)
proof (induction js arbitrary: s)
  case Nil
  then show ?case using assms(1) by (simp add: waiting_def)
next
  case (Cons j js)
  have na: "\<not> e_lease_applied e" using assms(1) by (simp add: waiting_def)
  let ?s = "s\<lparr>ms_lost := ms_lost s + 1\<rparr>"
  let ?f = "engine_fail (Some ''Could not renew the DHCP lease'') e"
  show ?case
  proof (cases "ms_lost s + 1 < 24")
    case True
    then have "run maint_tail (j # js) (s, e) = run maint_tail js (?s, e)"
      by (simp add: tail_waiting [OF na] lost_watch_waiting [OF assms(1)])
    then show ?thesis using Cons.IH [of ?s] Cons.prems True by (auto simp: algebra_simps)
  next
    case False
    have st: "e_state ?f = AT_STATE_ERROR"
      using assms(1) by (cases rule: engine_fail_cases [of e "Some ''Could not renew the DHCP lease''"])
        (simp_all add: waiting_def)
    have "run maint_tail (j # js) (s, e) = run maint_tail js (?s, ?f)"
      using False by (simp add: tail_waiting [OF na] lost_watch_waiting [OF assms(1)])
    moreover obtain s' where "run maint_tail js (?s, ?f) = Some (s', ?f)"
      using tail_error [of ?f js ?s] na st by (auto simp: failed_not_applied)
    ultimately show ?thesis using st False by simp
  qed
qed

text \<open>
  C15: after a lease was lost the engine waits for a new one, for exactly 24 rounds (about twelve
  seconds): with fewer rounds it is still CONNECTING, and from the 24th on it is in the ERROR state,
  whatever else the rounds bring as long as no lease is applied.
\<close>

theorem lost_lease_gives_up:
  assumes "e_saw_lease e" "\<not> e_lease_applied e" "e_state e = AT_STATE_CONNECTING" "ms_lost s = 0"
  shows "\<exists>s' e'. run maint_tail js (s, e) = Some (s', e') \<and>
    e_state e' = (if length js < 24 then AT_STATE_CONNECTING else AT_STATE_ERROR)"
  using lost_rounds [of e s js] assms by (auto simp: waiting_def)

definition idle_job :: maint_job where
  "idle_job = \<lparr>mj_frame = [], mj_just_bound = False, mj_lease = net_info_zero, mj_leased = False,
     mj_bound = False, mj_gw_ip = 0, mj_host_ip = 0, mj_host_mac = replicate 6 0\<rparr>"

theorem lost_lease_gives_up_witness:
  "\<exists>s' e'. run maint_tail (replicate 24 idle_job)
      (maint_zero, started\<lparr>e_saw_lease := True, e_state := AT_STATE_CONNECTING\<rparr>) = Some (s', e') \<and>
    e_state e' = AT_STATE_ERROR"
proof -
  have "\<not> e_lease_applied started" by (simp add: started_def engine_zero_def)
  then show ?thesis
    using lost_lease_gives_up [of "started\<lparr>e_saw_lease := True, e_state := AT_STATE_CONNECTING\<rparr>" maint_zero
        "replicate 24 idle_job"]
    by (simp add: maint_zero_def del: run.simps)
qed

section \<open>A dead gadget\<close>

lemma keepalive_failed_eq:
  "keepalive_failed g (s, e) =
     (let rx = (if ms_ka_fails s = 0 then e_rx_bytes e else ms_ka_rx s);
          tx = (if ms_ka_fails s = 0 then e_tx_bytes e else ms_ka_tx s) in
      (s\<lparr>ms_ka_rx := rx, ms_ka_tx := tx, ms_ka_fails := ms_ka_fails s + 1\<rparr>,
       if e_lease_applied e \<and> ms_ka_fails s + 1 \<ge> 3 \<and> e_rx_bytes e = rx \<and> e_tx_bytes e = tx
       then engine_fail (Some (if g then AT_MSG_USB_GONE else AT_MSG_TETHER_OFF)) e else e))"
  by (simp add: keepalive_failed_def Let_def)

text \<open>
  While a lease is applied and no byte moves, two failed keepalives are tolerated and the third
  one stops the engine with the reason that fits: unplugged, or tethering switched off.
\<close>

theorem keepalive_third_failure:
  assumes "e_lease_applied e" "e_state e = AT_STATE_CONNECTED" "ms_ka_fails s = 0"
  defines "r \<equiv> \<lambda>g n. snd ((keepalive_failed g ^^ n) (s, e))"
  shows "r g 1 = e \<and> r g 2 = e \<and> e_state (r g 3) = AT_STATE_ERROR \<and> \<not> e_running (r g 3) \<and>
    e_error (r g 3) = (if g then AT_MSG_USB_GONE else AT_MSG_TETHER_OFF)"
proof -
  let ?m = "if g then AT_MSG_USB_GONE else AT_MSG_TETHER_OFF"
  have m: "strlcpy 256 (strlcpy 256 ?m) = ?m" "?m \<noteq> ''''"
    by (simp_all add: strlcpy_def AT_MSG_USB_GONE_def AT_MSG_TETHER_OFF_def)
  have f: "engine_fail (Some ?m) e = e\<lparr>e_state := AT_STATE_ERROR, e_error := ?m, e_running := False\<rparr>"
    using assms(2) m unfolding engine_fail_def Let_def option.case by simp
  have "r g 1 = e" "r g 2 = e" "r g 3 = engine_fail (Some ?m) e"
    using assms(1,3) by (simp_all add: r_def numeral_3_eq_3 numeral_2_eq_2 keepalive_failed_eq Let_def)
  then show ?thesis by (simp add: f)
qed

theorem keepalive_third_failure_witness:
  "e_error (snd ((keepalive_failed True ^^ 3) (maint_zero, forwarding\<lparr>e_state := AT_STATE_CONNECTED\<rparr>))) =
     AT_MSG_USB_GONE"
  using keepalive_third_failure [of "forwarding\<lparr>e_state := AT_STATE_CONNECTED\<rparr>" maint_zero True]
  by (simp add: forwarding_def maint_zero_def)

text \<open>
  One byte that is still delivered after the first failed keepalive switches this detection
  off: the counts taken at the first failure are not renewed, so from then on no number of failed
  keepalives stops the engine, although nothing moves any more.
\<close>

theorem keepalive_blind_after_traffic:
  assumes "ms_ka_fails s > 0" "e_rx_bytes e \<noteq> ms_ka_rx s"
  shows "snd ((keepalive_failed g ^^ n) (s, e)) = e"
proof -
  have "snd ((keepalive_failed g ^^ n) (s, e)) = e \<and> ms_ka_fails (fst ((keepalive_failed g ^^ n) (s, e))) > 0 \<and>
      ms_ka_rx (fst ((keepalive_failed g ^^ n) (s, e))) = ms_ka_rx s"
  proof (induction n)
    case (Suc n)
    obtain s' e' where i: "(keepalive_failed g ^^ n) (s, e) = (s', e')" by fastforce
    with Suc have "e' = e" "ms_ka_fails s' > 0" "ms_ka_rx s' = ms_ka_rx s" by simp_all
    then show ?case using i assms(2) by (simp add: keepalive_failed_eq Let_def)
  qed (use assms in simp)
  then show ?thesis by blast
qed

definition blind_maint :: maint_st where
  "blind_maint = fst (keepalive_failed False (maint_zero, forwarding))"

theorem keepalive_blind_after_traffic_witness:
  "snd ((keepalive_failed True ^^ 100) (blind_maint, add_rx 60 forwarding)) = add_rx 60 forwarding"
  by (rule keepalive_blind_after_traffic)
    (simp_all add: blind_maint_def keepalive_failed_eq maint_zero_def Let_def add_rx_def forwarding_def started_def engine_zero_def)

end
