(* ===== verification/Engine.thy ===== *)
theory Engine
  imports Lease
begin

text \<open>
  The life of an engine in \<open>tether_engine.c\<close>: the USB thread with its synchronous fallback, start,
  stop and the getters, and the interleaving of the threads. A loop takes the environment of its
  rounds as a list; results of calls into the USB, tunnel, network and thread layers are arguments.
\<close>

section \<open>The USB thread\<close>

record sync_env =
  se_wrs :: "int list"
  se_gone :: bool
  se_rc :: int
  se_data :: buf
  se_gone2 :: bool
  se_io :: "nat \<Rightarrow> u64 \<times> int"

definition sync_round :: "sync_env \<Rightarrow> at_engine \<Rightarrow> (bool \<times> at_engine) option" where
  "sync_round v e = do {
     e \<leftarrow> usb_drain_tx (se_wrs v) e;
     (if se_gone v then Some (False, engine_fail (Some AT_MSG_USB_GONE) e)
      else let e = call BulkRead e; rc = se_rc v; got = length (se_data v) in
        if rc < 0 then Some (True, note_usb_hard_fail (se_gone2 v) (add_rx_err e))
        else if rc = 0 \<and> got > 0 then
          map_option (Pair True) (unwrap_transfer (se_io v) (se_data v) got (e\<lparr>e_usb_hard_fails := 0\<rparr>))
        else Some (True, e)) }"

fun usb_io_sync_fallback :: "sync_env list \<Rightarrow> int list \<Rightarrow> at_engine \<Rightarrow> at_engine option" where
  "usb_io_sync_fallback [] wrs e = usb_drain_tx wrs e"
| "usb_io_sync_fallback (v # vs) wrs e =
     (if e_running e then do {
        (go_on, e) \<leftarrow> sync_round v e;
        (if go_on then usb_io_sync_fallback vs wrs e else usb_drain_tx wrs e) }
      else usb_drain_tx wrs e)"

text \<open>\<open>at_usb_async_run\<close> serves completions: those of IN transfers and those of the OUT transfer.\<close>

datatype async_event =
    InDone "nat \<Rightarrow> u64 \<times> int" bool int int nat "buf option"
  | OutDone int

fun serve_event :: "async_event \<Rightarrow> at_engine \<Rightarrow> at_engine option" where
  "serve_event (InDone io gone sub rc got b) e = on_usb_in io gone sub rc got b e"
| "serve_event (OutDone rc) e = on_usb_out rc e"

record async_env =
  ae_gone :: bool
  ae_events :: "async_event list"
  ae_busy :: bool
  ae_wr1 :: int
  ae_wr2 :: int

definition async_round :: "async_env \<Rightarrow> at_engine \<Rightarrow> (bool \<times> at_engine) option" where
  "async_round v e =
     (if ae_gone v then Some (False, engine_fail (Some AT_MSG_USB_GONE) e)
      else do {
        e \<leftarrow> run serve_event (ae_events v) (call RunLoop e);
        (e, m) \<leftarrow> usb_try_start_out (ae_busy v) (ae_wr1 v) (ae_wr2 v) e;
        Some (True, e) })"

fun async_rounds :: "async_env list \<Rightarrow> at_engine \<Rightarrow> at_engine option" where
  "async_rounds [] e = Some e"
| "async_rounds (v # vs) e =
     (if e_running e then do {
        (go_on, e) \<leftarrow> async_round v e;
        (if go_on then async_rounds vs e else Some e) }
      else Some e)"

text \<open>
  \<open>m1\<close>, \<open>m2\<close>: the two buffers could be allocated; \<open>att\<close>: result of the attach; \<open>s1\<close>, \<open>s2\<close>: results
  of the two submissions; \<open>late\<close>: completions after the aborts; \<open>wrs\<close>: writes of the last drain.
\<close>

definition usb_io_thread ::
  "bool \<Rightarrow> bool \<Rightarrow> int \<Rightarrow> int \<Rightarrow> int \<Rightarrow> sync_env list \<Rightarrow> async_env list \<Rightarrow> async_event list \<Rightarrow> int list \<Rightarrow>
   at_engine \<Rightarrow> at_engine option" where
  "usb_io_thread m1 m2 att s1 s2 syncs asyncs late wrs e =
     (let e = e\<lparr>e_inbuf := True\<rparr> in
      if \<not> m1 \<or> \<not> m2 then
        Some (engine_fail (Some ''Could not allocate the USB receive buffer'') (call FreeInbuf (e\<lparr>e_inbuf := False\<rparr>)))
      else let e = call Attach e in
      if att \<noteq> 0 then do {
        e \<leftarrow> usb_io_sync_fallback syncs wrs e;
        Some (call FreeInbuf (e\<lparr>e_inbuf := False\<rparr>)) }
      else
        let e = call SubmitIn (call SubmitIn e);
            primed = (if s1 = 0 then 1 else 0) + (if s2 = 0 then 1 else (0 :: int)) in
        if primed = 0 then do {
          e \<leftarrow> usb_io_sync_fallback syncs wrs (call Detach e);
          Some (call FreeInbuf (e\<lparr>e_inbuf := False\<rparr>)) }
        else do {
          e \<leftarrow> async_rounds asyncs e;
          e \<leftarrow> run serve_event late (call RunLoop (call AbortOut (call AbortIn e)));
          e \<leftarrow> usb_drain_tx wrs (call Detach e);
          Some (call FreeInbuf (e\<lparr>e_inbuf := False\<rparr>)) })"

section \<open>Start and stop\<close>

text \<open>\<open>gone\<close> is \<open>at_usb_is_gone\<close>. The engine is returned as it was when it was freed.\<close>

definition stop_abort :: "at_engine \<Rightarrow> at_engine" where
  "stop_abort e = (if e_usb e then call AbortIn (call AsyncWake e) else e)"

definition stop_join :: "at_engine \<Rightarrow> at_engine" where
  "stop_join e =
     (let e = (if e_usb_rx_ok e then call (Join 1) e else e);
          e = (if e_utun_rx_ok e then call (Join 2) e else e)
      in if e_maint_ok e then call (Join 3) e else e)"

definition stop_net :: "at_engine \<Rightarrow> at_engine" where
  "stop_net e =
     (if e_utun e \<noteq> None then call (ClearDhcp (at_utun_name (e_utun e))) e else call EndSession e)"

definition stop_usb :: "bool \<Rightarrow> at_engine \<Rightarrow> at_engine" where
  "stop_usb gone e =
     (if e_usb e then
        let e = (if \<not> gone then call RndisHalt e else e) in (call UsbClose e)\<lparr>e_usb := False\<rparr>
      else e)"

definition stop_utun :: "at_engine \<Rightarrow> at_engine" where
  "stop_utun e = (if e_utun e \<noteq> None then (call UtunClose e)\<lparr>e_utun := None\<rparr> else e)"

definition at_engine_stop :: "bool \<Rightarrow> at_engine \<Rightarrow> at_engine" where
  "at_engine_stop gone e =
     (let e = call RestoreWifi (e\<lparr>e_state := AT_STATE_STOPPING, e_running := False\<rparr>);
          e = stop_join (stop_abort e);
          e = (stop_net e)\<lparr>e_dhcp := None\<rparr>;
          e = stop_utun (stop_usb gone e)
      in call FreeEngine ((call FreeTxq e)\<lparr>e_txq_flat := None\<rparr>))"

record start_env =
  st_mem :: bool
  st_txq :: "buf option"
  st_usb :: bool
  st_align :: u32
  st_init :: int
  st_mac :: buf
  st_mbps :: u32
  st_utun :: "at_utun option"
  st_dhcp :: "bool \<times> u32 \<times> u32"
  st_begin :: int
  st_t1 :: bool
  st_t2 :: bool
  st_now :: u64
  st_tv :: timeval
  st_eth :: buf
  st_t3 :: bool
  st_gone :: bool

text \<open>
  \<open>g_start_err\<close>, the engine handed to the caller, and the engine as it is at the end (freed when the
  start failed).
\<close>

definition fail_start :: "bool \<Rightarrow> at_engine option \<Rightarrow> string \<Rightarrow> string \<times> at_engine option \<times> at_engine option" where
  "fail_start gone e msg =
     (strlcpy 256 (if msg \<noteq> '''' then msg else ''Could not start the engine''), None,
      map_option (at_engine_stop gone) e)"

definition host_mac_of :: "buf \<Rightarrow> buf option" where
  "host_mac_of mac = do {
     m \<leftarrow> load_bytes mac 0 6;
     b0 \<leftarrow> load8 m 0; m \<leftarrow> store_bytes m 0 [(b0 OR 0x02) AND NOT 0x01];
     b5 \<leftarrow> load8 m 5; store_bytes m 5 [b5 XOR 0x5A] }"

definition start_zero :: "start_env \<Rightarrow> bool \<Rightarrow> at_engine" where
  "start_zero v prefer = engine_zero\<lparr>e_prefer_default_route := prefer, e_running := True,
     e_state := AT_STATE_CONNECTING, e_txq_flat := st_txq v\<rparr>"

definition start_open :: "start_env \<Rightarrow> at_engine \<Rightarrow> at_engine" where
  "start_open v e = (call UsbOpen e)\<lparr>e_usb := st_usb v, e_align := st_align v\<rparr>"

definition start_usb :: "start_env \<Rightarrow> at_engine \<Rightarrow> at_engine option" where
  "start_usb v e = do {
     d \<leftarrow> load_bytes (st_mac v) 0 6;
     h \<leftarrow> host_mac_of d;
     Some (e\<lparr>e_device_mac := d, e_host_mac := h, e_gw_mac := d, e_link_mbps := st_mbps v\<rparr>) }"

definition start_tun :: "start_env \<Rightarrow> at_engine \<Rightarrow> at_engine" where
  "start_tun v e = (call UtunOpen e)\<lparr>e_utun := st_utun v\<rparr>"

definition start_dhcp :: "start_env \<Rightarrow> at_engine \<Rightarrow> at_engine" where
  "start_dhcp v e = e\<lparr>e_dhcp :=
     (case st_dhcp v of (mem, pid, time) \<Rightarrow> at_dhcp_create mem pid time (Some (e_host_mac e)))\<rparr>"

definition start_threads :: "start_env \<Rightarrow> at_engine \<Rightarrow> at_engine" where
  "start_threads v e =
     (let e = (if st_t1 v then (call (Spawn 1) e)\<lparr>e_usb_rx_ok := True\<rparr> else e) in
      if st_t2 v then (call (Spawn 2) e)\<lparr>e_utun_rx_ok := True\<rparr> else e)"

definition first_dhcp :: "start_env \<Rightarrow> at_engine \<Rightarrow> at_engine option" where
  "first_dhcp v e =
     (case e_dhcp e of None \<Rightarrow> Some e
      | Some d \<Rightarrow> do {
          (n, d, eth) \<leftarrow> at_dhcp_want_tx (st_now v) (st_tv v) d (st_eth v);
          (let e = e\<lparr>e_dhcp := Some d\<rparr> in
           if n \<noteq> 0 then do { m \<leftarrow> load_bytes eth 0 n; map_option snd (send_eth_usb e m) } else Some e) })"

definition at_engine_start ::
  "start_env \<Rightarrow> bool option \<Rightarrow> (string \<times> at_engine option \<times> at_engine option) option" where
  "at_engine_start v opts =
     (let fail = fail_start (st_gone v) in
      case opts of None \<Rightarrow> Some (fail None ''Engine options are missing'')
      | Some prefer \<Rightarrow>
      if \<not> st_mem v then Some (fail None ''Out of memory'') else
      let e = start_zero v prefer in
      if st_txq v = None then Some (fail (Some e) ''Could not allocate the transmit buffer'') else
      let e = start_open v e in
      if \<not> st_usb v then Some (fail (Some e) ''Could not open the USB RNDIS device'') else
      let e = call RndisInit e in
      if st_init v \<noteq> 0 then Some (fail (Some e) ''RNDIS initialization failed'') else do {
        e \<leftarrow> start_usb v e;
        (let e = start_tun v e in
         if st_utun v = None
         then Some (fail (Some e) ''Could not open the utun tunnel (administrator access required)'') else
         let e = start_dhcp v e in
         if e_dhcp e = None then Some (fail (Some e) ''Could not create the DHCP client'') else
         let e = call BeginSession e in
         if st_begin v \<noteq> 0
         then Some (fail (Some e) ''Could not start the network session (route backup failed)'') else
         let e = start_threads v e in
         if \<not> st_t1 v \<or> \<not> st_t2 v then Some (fail (Some e) ''Could not start worker threads'') else
         let e = call (RegisterService (at_utun_name (e_utun e))) e in do {
           e \<leftarrow> first_dhcp v e;
           (if \<not> st_t3 v then Some (fail (Some e) ''Could not start worker threads'')
            else let e = (call (Spawn 3) e)\<lparr>e_maint_ok := True\<rparr> in Some ('''', Some e, Some e)) }) })"

section \<open>What main sees\<close>

record at_stats =
  st_rx_bytes :: u64
  st_tx_bytes :: u64
  st_rx_frames :: u64
  st_tx_frames :: u64
  st_rx_errors :: u64
  st_tx_errors :: u64

definition at_engine_state :: "at_engine option \<Rightarrow> at_state" where
  "at_engine_state e = (case e of None \<Rightarrow> AT_STATE_IDLE | Some e \<Rightarrow> e_state e)"

definition at_engine_stats :: "at_engine option \<Rightarrow> at_stats" where
  "at_engine_stats e = (case e of
       None \<Rightarrow> \<lparr>st_rx_bytes = 0, st_tx_bytes = 0, st_rx_frames = 0, st_tx_frames = 0, st_rx_errors = 0, st_tx_errors = 0\<rparr>
     | Some e \<Rightarrow> \<lparr>st_rx_bytes = e_rx_bytes e, st_tx_bytes = e_tx_bytes e, st_rx_frames = e_rx_frames e,
         st_tx_frames = e_tx_frames e, st_rx_errors = e_rx_errors e, st_tx_errors = e_tx_errors e\<rparr>)"

definition at_engine_net :: "at_engine option \<Rightarrow> at_net_info" where
  "at_engine_net e = (case e of None \<Rightarrow> net_info_zero | Some e \<Rightarrow> e_net e)"

definition at_engine_iface :: "at_engine option \<Rightarrow> string" where
  "at_engine_iface e = (case e of None \<Rightarrow> '''' | Some e \<Rightarrow> at_utun_name (e_utun e))"

definition at_engine_error :: "at_engine option \<Rightarrow> string" where
  "at_engine_error e = (case e of None \<Rightarrow> '''' | Some e \<Rightarrow> strlcpy 256 (e_error e))"

definition at_engine_mac :: "at_engine option \<Rightarrow> buf option" where
  "at_engine_mac e = (case e of None \<Rightarrow> Some (replicate 6 0) | Some e \<Rightarrow> load_bytes (e_host_mac e) 0 6)"

definition at_engine_link_mbps :: "at_engine option \<Rightarrow> u32" where
  "at_engine_link_mbps e = (case e of None \<Rightarrow> 0 | Some e \<Rightarrow> e_link_mbps e)"

section \<open>Stopping\<close>

definition joins_of :: "at_engine \<Rightarrow> nat list" where
  "joins_of e = (if e_usb_rx_ok e then [1] else []) @ (if e_utun_rx_ok e then [2] else []) @
     (if e_maint_ok e then [3] else [])"

text \<open>Calls that take something away from the threads.\<close>

fun releases :: "ext_call \<Rightarrow> bool" where
  "releases UsbClose = True"
| "releases RndisHalt = True"
| "releases UtunClose = True"
| "releases (ClearDhcp _) = True"
| "releases EndSession = True"
| "releases FreeTxq = True"
| "releases FreeEngine = True"
| "releases _ = False"

definition stop_first :: "at_engine \<Rightarrow> ext_call list" where
  "stop_first e = RestoreWifi # (if e_usb e then [AsyncWake, AbortIn] else [])"

definition stop_last :: "bool \<Rightarrow> at_engine \<Rightarrow> ext_call list" where
  "stop_last gone e =
     [if e_utun e \<noteq> None then ClearDhcp (at_utun_name (e_utun e)) else EndSession] @
     (if e_usb e then (if gone then [] else [RndisHalt]) @ [UsbClose] else []) @
     (if e_utun e \<noteq> None then [UtunClose] else []) @ [FreeTxq, FreeEngine]"

lemma stop_abort_simps [simp]:
  "e_calls (stop_abort e) = e_calls e @ (if e_usb e then [AsyncWake, AbortIn] else [])"
  "e_usb (stop_abort e) = e_usb e" "e_utun (stop_abort e) = e_utun e" "joins_of (stop_abort e) = joins_of e"
  "e_state (stop_abort e) = e_state e" "e_running (stop_abort e) = e_running e"
  by (simp_all add: stop_abort_def call_def joins_of_def)

lemma stop_join_simps [simp]:
  "e_calls (stop_join e) = e_calls e @ map Join (joins_of e)"
  "e_usb (stop_join e) = e_usb e" "e_utun (stop_join e) = e_utun e"
  "e_state (stop_join e) = e_state e" "e_running (stop_join e) = e_running e"
  by (simp_all add: stop_join_def call_def joins_of_def Let_def)

lemma stop_net_simps [simp]:
  "e_calls (stop_net e) = e_calls e @ [if e_utun e \<noteq> None then ClearDhcp (at_utun_name (e_utun e)) else EndSession]"
  "e_usb (stop_net e) = e_usb e" "e_utun (stop_net e) = e_utun e"
  "e_state (stop_net e) = e_state e" "e_running (stop_net e) = e_running e"
  by (simp_all add: stop_net_def call_def)

lemma stop_usb_simps [simp]:
  "e_calls (stop_usb gone e) = e_calls e @ (if e_usb e then (if gone then [] else [RndisHalt]) @ [UsbClose] else [])"
  "\<not> e_usb (stop_usb gone e)" "e_utun (stop_usb gone e) = e_utun e" "e_dhcp (stop_usb gone e) = e_dhcp e"
  "e_state (stop_usb gone e) = e_state e" "e_running (stop_usb gone e) = e_running e"
  by (simp_all add: stop_usb_def call_def Let_def)

lemma stop_utun_simps [simp]:
  "e_calls (stop_utun e) = e_calls e @ (if e_utun e \<noteq> None then [UtunClose] else [])"
  "e_usb (stop_utun e) = e_usb e" "e_utun (stop_utun e) = None" "e_dhcp (stop_utun e) = e_dhcp e"
  "e_state (stop_utun e) = e_state e" "e_running (stop_utun e) = e_running e"
  by (simp_all add: stop_utun_def call_def)

lemma call_simps:
  "e_calls (call c e) = e_calls e @ [c]" "e_utun (call c e) = e_utun e" "e_state (call c e) = e_state e"
  "e_running (call c e) = e_running e" "e_dhcp (call c e) = e_dhcp e" "e_txq_flat (call c e) = e_txq_flat e"
  "joins_of (call c e) = joins_of e"
  by (simp_all add: call_def joins_of_def)

lemma joins_of_state [simp]: "joins_of (e\<lparr>e_state := a, e_running := b\<rparr>) = joins_of e"
  by (simp add: joins_of_def)

lemma stop_calls:
  "e_calls (at_engine_stop gone e) = e_calls e @ stop_first e @ map Join (joins_of e) @ stop_last gone e"
  by (simp add: at_engine_stop_def Let_def call_simps stop_first_def stop_last_def)

lemma stop_state:
  "\<not> e_usb (at_engine_stop gone e)" "e_utun (at_engine_stop gone e) = None"
  "e_dhcp (at_engine_stop gone e) = None" "e_txq_flat (at_engine_stop gone e) = None"
  "e_state (at_engine_stop gone e) = AT_STATE_STOPPING" "\<not> e_running (at_engine_stop gone e)"
  by (simp_all add: at_engine_stop_def Let_def call_simps)

text \<open>
  C14: stopping an engine in whatever state first brings Wi-Fi back, joins exactly the threads that were
  started before it releases anything they use, halts the phone's RNDIS function only if the phone is
  still there, closes each of USB and tunnel exactly when it was open, and frees the engine last.
\<close>

theorem stop_order:
  "\<exists>before after. e_calls (at_engine_stop gone e) = e_calls e @ before @ map Join (joins_of e) @ after \<and>
     hd before = RestoreWifi \<and> before \<noteq> [] \<and> list_all (\<lambda>c. \<not> releases c) before \<and>
     (\<forall>k. Join k \<notin> set before \<and> Join k \<notin> set after) \<and>
     count_list after UsbClose = (if e_usb e then 1 else 0) \<and>
     count_list after UtunClose = (if e_utun e \<noteq> None then 1 else 0) \<and>
     count_list after RndisHalt = (if e_usb e \<and> \<not> gone then 1 else 0) \<and>
     count_list after FreeTxq = 1 \<and> count_list after FreeEngine = 1 \<and> last after = FreeEngine \<and>
     \<not> e_usb (at_engine_stop gone e) \<and> e_utun (at_engine_stop gone e) = None \<and>
     e_txq_flat (at_engine_stop gone e) = None"
proof (intro exI conjI)
  show "e_calls (at_engine_stop gone e) = e_calls e @ stop_first e @ map Join (joins_of e) @ stop_last gone e"
    by (rule stop_calls)
  show "\<forall>k. Join k \<notin> set (stop_first e) \<and> Join k \<notin> set (stop_last gone e)"
    by (auto simp: stop_first_def stop_last_def)
qed (auto simp: stop_first_def stop_last_def stop_state)

section \<open>Starting\<close>

lemma host_mac_of_eq:
  assumes "length m = 6"
  shows "host_mac_of m = Some (m[0 := (m ! 0 OR 2) AND NOT 1, 5 := m ! 5 XOR 0x5A])"
  using assms
  by (simp add: host_mac_of_def load_bytes_Some load8_Some store_bytes_Some splice_at_one del: splice_at_zero)

lemma host_mac_differs:
  fixes m :: buf
  assumes "length m = 6"
  shows "m[0 := b, 5 := m ! 5 XOR 0x5A] \<noteq> m"
proof
  assume "m[0 := b, 5 := m ! 5 XOR 0x5A] = m"
  then have "m[0 := b, 5 := m ! 5 XOR 0x5A] ! 5 = m ! 5" by simp
  then have "m ! 5 XOR 0x5A = m ! 5" using assms by simp
  then have "m ! 5 XOR (m ! 5 XOR 0x5A) = m ! 5 XOR m ! 5" by simp
  moreover have "m ! 5 XOR (m ! 5 XOR 0x5A) = 0x5A" by (simp flip: xor.assoc)
  ultimately show False by simp
qed

text \<open>What the engine holds against what it acquired: the calls so far and the flags agree.\<close>

definition start_inv :: "start_env \<Rightarrow> at_engine \<Rightarrow> bool" where
  "start_inv v e \<longleftrightarrow>
     list_all (\<lambda>c. \<not> releases c \<and> (\<forall>k\<in>{1, 2, 3}. c \<noteq> Join k)) (e_calls e) \<and>
     (\<forall>k\<in>{1, 2, 3}. count_list (e_calls e) (Spawn k) = count_list (joins_of e) k) \<and>
     (e_usb e \<longleftrightarrow> UsbOpen \<in> set (e_calls e) \<and> st_usb v) \<and>
     (e_utun e \<noteq> None \<longleftrightarrow> UtunOpen \<in> set (e_calls e) \<and> st_utun v \<noteq> None)"

definition released :: "start_env \<Rightarrow> at_engine \<Rightarrow> bool" where
  "released v e \<longleftrightarrow>
     (\<forall>k\<in>{1, 2, 3}. count_list (e_calls e) (Join k) = count_list (e_calls e) (Spawn k)) \<and>
     count_list (e_calls e) UsbClose = (if UsbOpen \<in> set (e_calls e) \<and> st_usb v then 1 else 0) \<and>
     count_list (e_calls e) UtunClose = (if UtunOpen \<in> set (e_calls e) \<and> st_utun v \<noteq> None then 1 else 0) \<and>
     e_txq_flat e = None \<and> last (e_calls e) = FreeEngine"

lemma count_join: "count_list (map Join ks) (Join k) = count_list ks k"
  by (induction ks) auto

lemma count_other: "(\<And>k. c \<noteq> Join k) \<Longrightarrow> count_list (map Join ks) c = 0"
  by (induction ks) auto

lemma stop_released:
  assumes "start_inv v e"
  shows "released v (at_engine_stop gone e)"
proof -
  have none: "count_list (e_calls e) UsbClose = 0" "count_list (e_calls e) UtunClose = 0"
    "\<And>k. k \<in> {1, 2, 3} \<Longrightarrow> count_list (e_calls e) (Join k) = 0"
  proof -
    have l: "\<And>c. c \<in> set (e_calls e) \<Longrightarrow> \<not> releases c \<and> (\<forall>k\<in>{1, 2, 3}. c \<noteq> Join k)"
      using assms unfolding start_inv_def list_all_iff by blast
    show "count_list (e_calls e) UsbClose = 0" "count_list (e_calls e) UtunClose = 0"
      using l [of UsbClose] l [of UtunClose] by (auto intro: count_notin)
    show "count_list (e_calls e) (Join k) = 0" if "k \<in> {1, 2, 3}" for k
    proof (rule count_notin)
      show "Join k \<notin> set (e_calls e)" using l [of "Join k"] that by metis
    qed
  qed
  have sl: "count_list (stop_last gone e) (Join k) = 0" "count_list (stop_last gone e) (Spawn k) = 0"
    "count_list (stop_last gone e) UsbClose = (if e_usb e then 1 else 0)"
    "count_list (stop_last gone e) UtunClose = (if e_utun e \<noteq> None then 1 else 0)"
    "UsbOpen \<notin> set (stop_last gone e)" "UtunOpen \<notin> set (stop_last gone e)"
    "last (stop_last gone e) = FreeEngine" "stop_last gone e \<noteq> []" for k
    by (simp_all add: stop_last_def)
  have sf: "count_list (stop_first e) (Join k) = 0" "count_list (stop_first e) (Spawn k) = 0"
    "count_list (stop_first e) UsbClose = 0" "count_list (stop_first e) UtunClose = 0"
    "UsbOpen \<notin> set (stop_first e)" "UtunOpen \<notin> set (stop_first e)" for k
    by (simp_all add: stop_first_def)
  have f: "e_usb e \<longleftrightarrow> UsbOpen \<in> set (e_calls e) \<and> st_usb v"
    "e_utun e \<noteq> None \<longleftrightarrow> UtunOpen \<in> set (e_calls e) \<and> st_utun v \<noteq> None"
    "\<And>k. k \<in> {1, 2, 3} \<Longrightarrow> count_list (e_calls e) (Spawn k) = count_list (joins_of e) k"
    using assms unfolding start_inv_def by blast+
  have j: "UsbOpen \<notin> set (map Join ks)" "UtunOpen \<notin> set (map Join ks)"
    "count_list (map Join ks) (Spawn k) = 0" "count_list (map Join ks) UsbClose = 0"
    "count_list (map Join ks) UtunClose = 0" for ks k
    by (auto intro: count_other)
  show ?thesis
    unfolding released_def
  proof (intro conjI ballI)
    fix k :: nat assume k: "k \<in> {1, 2, 3}"
    show "count_list (e_calls (at_engine_stop gone e)) (Join k) = count_list (e_calls (at_engine_stop gone e)) (Spawn k)"
      unfolding stop_calls count_list_append sl sf j count_join none(3) [OF k] f(3) [OF k] by simp
  next
    show "count_list (e_calls (at_engine_stop gone e)) UsbClose =
        (if UsbOpen \<in> set (e_calls (at_engine_stop gone e)) \<and> st_usb v then 1 else 0)"
      unfolding stop_calls count_list_append set_append Un_iff sl(1-4) sf(1-4) j none f(1) using sl(5) sf(5) by auto
    show "count_list (e_calls (at_engine_stop gone e)) UtunClose =
        (if UtunOpen \<in> set (e_calls (at_engine_stop gone e)) \<and> st_utun v \<noteq> None then 1 else 0)"
      unfolding stop_calls count_list_append set_append Un_iff sl(1-4) sf(1-4) j none f(2) using sl(6) sf(6) by auto
    show "last (e_calls (at_engine_stop gone e)) = FreeEngine"
      unfolding stop_calls using sl(7,8) by simp
  qed (rule stop_state)
qed

text \<open>A stage that only adds calls of no account to the ledger.\<close>

fun neutral :: "ext_call \<Rightarrow> bool" where
  "neutral (Join _) = False"
| "neutral (Spawn _) = False"
| "neutral UsbOpen = False"
| "neutral UtunOpen = False"
| "neutral c = (\<not> releases c)"

lemma neutralD:
  assumes "list_all neutral cs"
  shows "list_all (\<lambda>c. \<not> releases c \<and> (\<forall>k\<in>{1, 2, 3}. c \<noteq> Join k)) cs"
    "count_list cs (Spawn k) = 0" "UsbOpen \<notin> set cs" "UtunOpen \<notin> set cs"
proof -
  have n: "c \<in> set cs \<Longrightarrow> neutral c" for c using assms by (simp add: list_all_iff)
  have r: "neutral c \<Longrightarrow> \<not> releases c \<and> (\<forall>k. c \<noteq> Join k)" for c by (cases c) auto
  show "list_all (\<lambda>c. \<not> releases c \<and> (\<forall>k\<in>{1, 2, 3}. c \<noteq> Join k)) cs"
    using n r by (simp add: list_all_iff)
  show "count_list cs (Spawn k) = 0" "UsbOpen \<notin> set cs" "UtunOpen \<notin> set cs"
    using n [of "Spawn k"] n [of UsbOpen] n [of UtunOpen] by (auto intro: count_notin)
qed

lemma start_inv_ext:
  assumes "start_inv v e" "e_calls e' = e_calls e @ cs" "list_all neutral cs"
    "e_usb e' = e_usb e" "e_utun e' = e_utun e" "joins_of e' = joins_of e"
  shows "start_inv v e'"
  using assms(1) neutralD [OF assms(3)]
  unfolding start_inv_def assms(2,4-6) list_all_append count_list_append set_append Un_iff by simp

definition start_ok :: "start_env \<Rightarrow> at_engine \<Rightarrow> bool" where
  "start_ok v e \<longleftrightarrow> start_inv v e \<and> engine_inv e \<and> e_running e \<and> e_state e = AT_STATE_CONNECTING"

lemma start_ok_call:
  assumes "start_ok v e" "neutral c"
  shows "start_ok v (call c e)"
proof -
  have "start_inv v (call c e)"
    by (rule start_inv_ext [where cs = "[c]" and e = e])
      (use assms in \<open>simp_all add: start_ok_def call_def joins_of_def\<close>)
  then show ?thesis using assms(1) by (simp add: start_ok_def call_simps)
qed

lemma start_zero_ok:
  assumes "st_txq v = Some flat" "length flat = 524288"
  shows "start_ok v (start_zero v prefer)"
  using assms
  by (simp add: start_ok_def start_inv_def engine_inv_def txq_inv_def start_zero_def engine_zero_def
      joins_of_def list_all_length)

lemma start_open_ok:
  assumes "start_ok v e" "UsbOpen \<notin> set (e_calls e)"
  shows "start_ok v (start_open v e)"
proof -
  have "engine_inv (start_open v e) = engine_inv e"
    by (rule engine_inv_frame, rule ring_frame) (simp_all add: start_open_def call_def)
  moreover have "start_inv v (start_open v e)"
    using assms unfolding start_ok_def start_inv_def start_open_def
    by (simp add: call_def joins_of_def)
  ultimately show ?thesis using assms(1) by (simp add: start_ok_def) (simp add: start_open_def call_def)
qed

lemma start_tun_ok:
  assumes "start_ok v e" "UtunOpen \<notin> set (e_calls e)"
  shows "start_ok v (start_tun v e)"
proof -
  have "engine_inv (start_tun v e) = engine_inv e"
    by (rule engine_inv_frame, rule ring_frame) (simp_all add: start_tun_def call_def)
  moreover have "start_inv v (start_tun v e)"
    using assms unfolding start_ok_def start_inv_def start_tun_def
    by (simp add: call_def joins_of_def)
  ultimately show ?thesis using assms(1) by (simp add: start_ok_def) (simp add: start_tun_def call_def)
qed

lemma start_usb_ok:
  assumes "start_ok v e" "length (st_mac v) = 6"
  obtains e' where "start_usb v e = Some e'" "start_ok v e'" "e_calls e' = e_calls e" "e_utun e' = e_utun e"
    "e_device_mac e' = st_mac v" "e_host_mac e' \<noteq> st_mac v"
proof -
  let ?h = "(st_mac v)[0 := (st_mac v ! 0 OR 2) AND NOT 1, 5 := st_mac v ! 5 XOR 0x5A]"
  let ?e = "e\<lparr>e_device_mac := st_mac v, e_host_mac := ?h, e_gw_mac := st_mac v, e_link_mbps := st_mbps v\<rparr>"
  have run: "start_usb v e = Some ?e"
    using assms(2) host_mac_of_eq [OF assms(2)] by (simp add: start_usb_def load_bytes_Some)
  have i: "engine_inv e" using assms(1) by (simp add: start_ok_def)
  have "txq_inv ?e = txq_inv e" by (rule ring_frame) simp_all
  then have "engine_inv ?e" using i assms(2) by (simp add: engine_inv_def)
  moreover have "start_inv v ?e"
    by (rule start_inv_ext [where cs = "[]" and e = e]) (use assms in \<open>simp_all add: start_ok_def joins_of_def\<close>)
  ultimately have "start_ok v ?e" using assms(1) by (simp add: start_ok_def)
  then show thesis using host_mac_differs [OF assms(2)] by (intro that [OF run]) simp_all
qed

lemma start_dhcp_ok:
  assumes "start_ok v e" "e_dhcp (start_dhcp v e) \<noteq> None"
  shows "start_ok v (start_dhcp v e)"
proof -
  obtain mem pid time where t: "st_dhcp v = (mem, pid, time)" by (cases "st_dhcp v") auto
  then obtain d where d: "at_dhcp_create mem pid time (Some (e_host_mac e)) = Some d"
    using assms(2) by (auto simp: start_dhcp_def)
  then have "dhcp_inv d" using dhcp_create_inv assms(1) by (simp add: start_ok_def engine_inv_def)
  moreover have "txq_inv (start_dhcp v e) = txq_inv e" by (rule ring_frame) (simp_all add: start_dhcp_def)
  moreover have "engine_inv e" using assms(1) by (simp add: start_ok_def)
  ultimately have "engine_inv (start_dhcp v e)"
    using d t by (simp add: engine_inv_def) (simp add: start_dhcp_def)
  moreover have "start_inv v (start_dhcp v e)"
    by (rule start_inv_ext [where cs = "[]" and e = e])
      (use assms in \<open>simp_all add: start_ok_def start_dhcp_def joins_of_def\<close>)
  ultimately show ?thesis using assms(1) by (simp add: start_ok_def) (simp add: start_dhcp_def)
qed

lemma start_threads_ok:
  assumes "start_ok v e" "joins_of e = []"
  shows "start_ok v (start_threads v e)" "\<not> e_maint_ok (start_threads v e)"
    "st_t1 v \<Longrightarrow> st_t2 v \<Longrightarrow> joins_of (start_threads v e) = [1, 2]"
proof -
  have f: "\<not> e_usb_rx_ok e" "\<not> e_utun_rx_ok e" "\<not> e_maint_ok e"
    using assms(2) by (auto simp: joins_of_def split: if_splits)
  have "txq_inv (start_threads v e) = txq_inv e"
    by (rule ring_frame) (simp_all add: start_threads_def call_def Let_def)
  then have "engine_inv (start_threads v e) = engine_inv e"
    by (rule engine_inv_frame) (simp_all add: start_threads_def call_def Let_def)
  moreover have "start_inv v (start_threads v e)"
    using assms f unfolding start_ok_def start_inv_def start_threads_def
    by (cases "st_t1 v"; cases "st_t2 v") (simp_all add: call_def joins_of_def Let_def)
  ultimately show "start_ok v (start_threads v e)"
    using assms(1) by (simp add: start_ok_def) (simp add: start_threads_def call_def Let_def)
  show "\<not> e_maint_ok (start_threads v e)"
    using f by (simp add: start_threads_def call_def Let_def)
  show "st_t1 v \<Longrightarrow> st_t2 v \<Longrightarrow> joins_of (start_threads v e) = [1, 2]"
    using f by (simp add: start_threads_def call_def Let_def joins_of_def)
qed

lemma start_maint_ok:
  assumes "start_ok v e" "\<not> e_maint_ok e"
  shows "start_ok v ((call (Spawn 3) e)\<lparr>e_maint_ok := True\<rparr>)"
proof -
  let ?e = "(call (Spawn 3) e)\<lparr>e_maint_ok := True\<rparr>"
  have "txq_inv ?e = txq_inv e" by (rule ring_frame) (simp_all add: call_def)
  then have "engine_inv ?e = engine_inv e" by (rule engine_inv_frame) (simp_all add: call_def)
  moreover have "start_inv v ?e"
    using assms unfolding start_ok_def start_inv_def by (simp add: call_def joins_of_def)
  ultimately show ?thesis using assms(1) by (simp add: start_ok_def) (simp add: call_def)
qed

lemma same_flags:
  assumes "only_tx e e'"
  shows "e_usb e' = e_usb e" "e_utun e' = e_utun e" "joins_of e' = joins_of e" "e_maint_ok e' = e_maint_ok e"
    "e_device_mac e' = e_device_mac e"
proof -
  from assms obtain a b c w n k where "e' = e\<lparr>e_tx_errors := a, e_txq_flat := b, e_txq_len := c,
      e_txq_w := w, e_txq_n := n, e_calls := k\<rparr>"
    unfolding only_tx_def by blast
  then show "e_usb e' = e_usb e" "e_utun e' = e_utun e" "joins_of e' = joins_of e" "e_maint_ok e' = e_maint_ok e"
    "e_device_mac e' = e_device_mac e"
    by (simp_all add: joins_of_def)
qed

lemma first_dhcp_ok:
  assumes "start_ok v e"
  obtains e' where "first_dhcp v e = Some e'" "start_ok v e'" "e_maint_ok e' = e_maint_ok e"
    "joins_of e' = joins_of e" "e_host_mac e' = e_host_mac e" "e_device_mac e' = e_device_mac e"
    "(e_dhcp e' = None) = (e_dhcp e = None)"
proof (cases "e_dhcp e")
  case None
  then show thesis using assms by (intro that [of e]) (simp_all add: first_dhcp_def)
next
  case (Some d)
  have inv: "engine_inv e" using assms by (simp add: start_ok_def)
  then have di: "dhcp_inv d" using Some by (simp add: engine_inv_def)
  have dm: "length (d_mac d) = 6" using di by (simp add: dhcp_inv_def)
  have "\<exists>n d' eth'. at_dhcp_want_tx (st_now v) (st_tv v) d (st_eth v) = Some (n, d', eth') \<and>
        n \<le> length eth' \<and> n \<le> 342"
    using dm
  proof (rule want_tx_spec [OF _ refl, where eth = "st_eth v" and now = "st_now v" and tv = "st_tv v"])
    fix eth'
    assume "342 \<le> length (st_eth v)" "length eth' = length (st_eth v)"
      "at_dhcp_want_tx (st_now v) (st_tv v) d (st_eth v) =
         Some (342, tx_sent (st_tv v) (advance_renew_state (st_now v) d), eth')"
    then show ?thesis by simp
  qed simp
  then obtain n d' eth' where w: "at_dhcp_want_tx (st_now v) (st_tv v) d (st_eth v) = Some (n, d', eth')"
    "n \<le> length eth'" "n \<le> 342" by blast
  have d': "dhcp_inv d'" using want_tx_inv [OF di w(1)] .
  let ?e = "e\<lparr>e_dhcp := Some d'\<rparr>"
  have "txq_inv ?e = txq_inv e" by (rule ring_frame) simp_all
  then have i1: "engine_inv ?e" using inv d' by (simp add: engine_inv_def)
  have s1: "start_inv v ?e"
    by (rule start_inv_ext [where cs = "[]" and e = e]) (use assms in \<open>simp_all add: start_ok_def joins_of_def\<close>)
  have ok: "start_ok v ?e" using i1 s1 assms by (simp add: start_ok_def)
  have j: "joins_of ?e = joins_of e" by (simp add: joins_of_def)
  show thesis
  proof (cases "n = 0")
    case True
    then show thesis using Some w(1) ok j by (intro that [of ?e]) (simp_all add: first_dhcp_def)
  next
    case False
    have l: "length (take n eth') < 2 ^ 32" using w(3) by simp
    obtain e' where e': "map_option snd (send_eth_usb ?e (take n eth')) = Some e'" "step_ok wakes ?e e'" "only_tx ?e e'"
      by (rule send_ignored [OF i1 l])
    have run: "first_dhcp v e = Some e'"
      using Some w(1,2) False e'(1) by (simp add: first_dhcp_def load_bytes_Some)
    obtain cs where cs: "e_calls e' = e_calls ?e @ cs" "list_all wakes cs"
      using e'(2) by (auto simp: step_ok_def calls_ext_def)
    have "list_all neutral cs" using cs(2) by (auto simp: list_all_iff wakes_def)
    then have "start_inv v e'"
      using same_flags [OF e'(3)] by (intro start_inv_ext [OF s1 cs(1)]) simp_all
    then have "start_ok v e'"
      using step_ok_inv [OF e'(2) i1] only_txD [OF e'(3)] assms by (simp add: start_ok_def)
    then show thesis
      using same_flags [OF e'(3)] only_txD [OF e'(3)] Some j by (intro that [OF run]) simp_all
  qed
qed

lemma start_usb_joins: "start_usb v e = Some e' \<Longrightarrow> joins_of e' = joins_of e"
  by (auto simp: start_usb_def joins_of_def split: bind_splits)

text \<open>What a finished start may look like.\<close>

definition start_result :: "start_env \<Rightarrow> string \<times> at_engine option \<times> at_engine option \<Rightarrow> bool" where
  "start_result v = (\<lambda>(err, out, last_e).
     case out of
       Some e \<Rightarrow> err = '''' \<and> engine_inv e \<and> e_running e \<and> e_state e = AT_STATE_CONNECTING \<and>
         joins_of e = [1, 2, 3] \<and> e_dhcp e \<noteq> None \<and> e_host_mac e \<noteq> e_device_mac e
     | None \<Rightarrow> err \<noteq> '''' \<and> (case last_e of None \<Rightarrow> True | Some e \<Rightarrow> released v e))"

lemma fail_result:
  assumes "start_inv v e" "msg \<noteq> ''''"
  shows "start_result v (fail_start gone (Some e) msg)"
proof -
  have "strlcpy 256 msg \<noteq> ''''" using assms(2) by (intro strlcpy_nonempty) simp_all
  moreover have "released v (at_engine_stop gone e)"
    using assms(1) by (rule stop_released)
  ultimately show ?thesis using assms(2) by (simp add: start_result_def fail_start_def)
qed


definition good_start :: start_env where
  "good_start = \<lparr>st_mem = True, st_txq = Some (replicate 524288 0), st_usb = True, st_align = 2, st_init = 0,
     st_mac = [2, 0, 0, 0, 0, 1], st_mbps = 480, st_utun = Some \<lparr>u_fd = 5, u_name = ''utun5''\<rparr>,
     st_dhcp = (True, 1, 1), st_begin = 0, st_t1 = True, st_t2 = True, st_now = 9000,
     st_tv = \<lparr>tv_sec = 9, tv_usec = 0\<rparr>, st_eth = replicate 1518 0, st_t3 = False, st_gone = False\<rparr>"


section \<open>The threads together\<close>

text \<open>
  Where the maintenance thread is in its round: before it, at the lock, after the locked section,
  before the end, or gone. The other threads may take steps at each of these points. A completion
  handler, an iteration of the tunnel thread and a stretch of the maintenance thread between two of
  these points are atomic.
\<close>

datatype maint_pc = MIdle | MLock | MApply maint_job | MTail maint_job | MDone

record sys =
  s_eng :: at_engine
  s_tun :: tun_local
  s_ms :: maint_st
  s_pc :: maint_pc

inductive engine_step :: "sys \<Rightarrow> sys \<Rightarrow> bool" where
  usb_in: "on_usb_in io gone sub rc got b (s_eng s) = Some e \<Longrightarrow>
    (case b of Some x \<Rightarrow> got \<le> length x | None \<Rightarrow> True) \<Longrightarrow> engine_step s (s\<lparr>s_eng := e\<rparr>)"
| usb_out: "on_usb_out rc (s_eng s) = Some e \<Longrightarrow> engine_step s (s\<lparr>s_eng := e\<rparr>)"
| usb_start: "usb_try_start_out busy wr1 wr2 (s_eng s) = Some (e, m) \<Longrightarrow> engine_step s (s\<lparr>s_eng := e\<rparr>)"
| usb_gone: "e_running (s_eng s) \<Longrightarrow>
    engine_step s (s\<lparr>s_eng := engine_fail (Some AT_MSG_USB_GONE) (s_eng s)\<rparr>)"
| tunnel: "e_running (s_eng s) \<Longrightarrow> sys_read_ok r \<Longrightarrow> utun_rx_iter pr r (s_eng s, s_tun s) = Some (e, l) \<Longrightarrow>
    engine_step s (s\<lparr>s_eng := e, s_tun := l\<rparr>)"
| check: "s_pc s = MIdle \<Longrightarrow> e_running (s_eng s) \<Longrightarrow> maint_check v (s_ms s, s_eng s) = (Some m, e) \<Longrightarrow>
    engine_step s (s\<lparr>s_eng := e, s_ms := m, s_pc := MLock\<rparr>)"
| leave: "s_pc s = MIdle \<Longrightarrow> e_running (s_eng s) \<Longrightarrow> maint_check v (s_ms s, s_eng s) = (None, e) \<Longrightarrow>
    engine_step s (s\<lparr>s_eng := e, s_pc := MDone\<rparr>)"
| locked: "s_pc s = MLock \<Longrightarrow> maint_dhcp v (s_eng s) = Some (j, e) \<Longrightarrow>
    engine_step s (s\<lparr>s_eng := e, s_pc := MApply j\<rparr>)"
| applying: "s_pc s = MApply j \<Longrightarrow> maint_apply v j (s_eng s) = Some e \<Longrightarrow>
    engine_step s (s\<lparr>s_eng := e, s_pc := MTail j\<rparr>)"
| tail: "s_pc s = MTail j \<Longrightarrow> maint_tail j (s_ms s, s_eng s) = Some (m, e) \<Longrightarrow>
    engine_step s (s\<lparr>s_eng := e, s_ms := m, s_pc := MIdle\<rparr>)"

inductive_cases engine_stepE
  [consumes 1, case_names usb_in usb_out usb_start usb_gone tunnel check leave locked applying tail]:
  "engine_step s s'"

definition pc_job :: "maint_pc \<Rightarrow> maint_job option" where
  "pc_job pc = (case pc of MApply j \<Rightarrow> Some j | MTail j \<Rightarrow> Some j | _ \<Rightarrow> None)"

definition sys_inv :: "bool \<Rightarrow> sys \<Rightarrow> bool" where
  "sys_inv prefer s \<longleftrightarrow> tun_inv (s_eng s, s_tun s) \<and>
     (case pc_job (s_pc s) of Some j \<Rightarrow> job_ok j | None \<Rightarrow> True) \<and>
     e_prefer_default_route (s_eng s) = prefer"

text \<open>Calls that change how the Mac is connected apart from the tunnel itself.\<close>

definition wish_call :: "ext_call \<Rightarrow> bool" where
  "wish_call c \<longleftrightarrow> c = DisableWifi \<or> c = DropIpv6Default \<or> (\<exists>n g. c = PreferDefaultRoute n g)"

definition no_wish :: "bool \<Rightarrow> at_engine \<Rightarrow> at_engine \<Rightarrow> bool" where
  "no_wish prefer e e' \<longleftrightarrow> calls_ext (\<lambda>c. wish_call c \<longrightarrow> prefer) e e'"

lemma no_wish_step: "step_ok P e e' \<Longrightarrow> (\<And>c. P c \<Longrightarrow> wish_call c \<Longrightarrow> prefer) \<Longrightarrow> no_wish prefer e e'"
  unfolding no_wish_def by (erule calls_ext_mono [OF calls_ext_step]) blast

lemma maint_calls_wish: "maint_calls p c \<Longrightarrow> wish_call c \<Longrightarrow> p"
  by (auto simp: maint_calls_def net_calls_def wish_call_def wakes_def)

lemma net_calls_wish: "net_calls p c \<Longrightarrow> wish_call c \<Longrightarrow> p"
  by (auto simp: net_calls_def wish_call_def wakes_def)

lemma no_wish_trans: "no_wish p e e1 \<Longrightarrow> no_wish p e1 e2 \<Longrightarrow> no_wish p e e2"
  unfolding no_wish_def by (rule calls_ext_trans)

lemma tun_inv_eng: "tun_inv (e, l) \<Longrightarrow> engine_inv e' \<Longrightarrow> tun_inv (e', l)"
  by (simp add: tun_inv_def)

text \<open>What one step of any thread keeps, given what it does to the engine.\<close>

lemma sys_step_keeps:
  assumes "sys_inv p s" "step_ok P (s_eng s) e" "\<And>c. P c \<Longrightarrow> wish_call c \<Longrightarrow> p"
    "length (t_ip l) = 2048" "length (t_eth l) = 2048" "case pc_job pc of Some j \<Rightarrow> job_ok j | None \<Rightarrow> True"
  shows "sys_inv p (s\<lparr>s_eng := e, s_tun := l, s_ms := m, s_pc := pc\<rparr>) \<and> no_wish p (s_eng s) e"
  using assms no_wish_step [OF assms(2)]
  by (auto simp: sys_inv_def tun_inv_def step_ok_def)

lemma iter_wakes:
  assumes "tun_inv (e, l)" "sys_read_ok r" "utun_rx_iter pr r (e, l) = Some (e', l')"
  shows "step_ok wakes e e' \<and> tun_inv (e', l')"
  using assms(1,2)
proof (rule utun_rx_iter_spec [where pr = pr])
  fix e1 l1 assume "utun_rx_iter pr r (e, l) = Some (e1, l1)" "tun_inv (e1, l1)" "e1 = e \<or> e1 = add_tx_err e"
  then show ?thesis using assms(3) by auto
next
  fix f rc e1 l1 assume a: "length f \<le> 2048" "send_eth_usb e f = Some (rc, e1)"
    "utun_rx_iter pr r (e, l) = Some (e1, l1)" "tun_inv (e1, l1)"
  have "engine_inv e" using assms(1) by (simp add: tun_inv_def)
  from send_step [OF this, of f] a show ?thesis using assms(3) by auto
qed

lemma engine_step_keeps:
  assumes "engine_step s s'" "sys_inv p s"
  shows "sys_inv p s' \<and> no_wish p (s_eng s) (s_eng s')"
proof -
  have inv: "engine_inv (s_eng s)" and l: "length (t_ip (s_tun s)) = 2048" "length (t_eth (s_tun s)) = 2048"
    and pr: "e_prefer_default_route (s_eng s) = p"
    and job: "case pc_job (s_pc s) of Some j \<Rightarrow> job_ok j | None \<Rightarrow> True"
    using assms(2) by (simp_all add: sys_inv_def tun_inv_def)
  note keep = sys_step_keeps [OF assms(2)]
  have keep_eng: "step_ok P (s_eng s) e \<Longrightarrow> (\<And>c. P c \<Longrightarrow> wish_call c \<Longrightarrow> p) \<Longrightarrow>
      sys_inv p (s\<lparr>s_eng := e\<rparr>) \<and> no_wish p (s_eng s) e" for P e
    using keep [of P e "s_tun s" "s_pc s" "s_ms s"] l job by simp
  have out: "out_calls c \<Longrightarrow> wish_call c \<Longrightarrow> p" for c by (auto simp: out_calls_def wish_call_def)
  from assms(1) show ?thesis
  proof (cases rule: engine_stepE)
    case (usb_in io gone sub rc got b e)
    obtain e' where e': "on_usb_in io gone sub rc got b (s_eng s) = Some e'"
      "step_ok (usb_in_calls (e_lease_applied (s_eng s)) (frames_of b got)) (s_eng s) e'"
      using usb_in_step [OF inv usb_in(3)] by blast
    have "usb_in_calls a fs c \<Longrightarrow> wish_call c \<Longrightarrow> p" for a fs c
      by (auto simp: usb_in_calls_def injects_def wish_call_def wakes_def)
    then show ?thesis using keep_eng [OF e'(2)] usb_in e'(1) by auto
  next
    case (usb_out rc e)
    obtain e' where "on_usb_out rc (s_eng s) = Some e'" "step_ok out_calls (s_eng s) e'"
      by (rule out_done_step [OF inv])
    then show ?thesis using keep_eng [OF _ out] usb_out by auto
  next
    case (usb_start busy wr1 wr2 e m)
    obtain e' m' where "usb_try_start_out busy wr1 wr2 (s_eng s) = Some (e', m')" "step_ok out_calls (s_eng s) e'"
      by (rule try_start_step [OF inv])
    then show ?thesis using keep_eng [OF _ out] usb_start by auto
  next
    case usb_gone
    then show ?thesis using keep_eng [where P = "\<lambda>_. False"] by auto
  next
    case (tunnel r pr e l)
    have "step_ok wakes (s_eng s) e \<and> tun_inv (e, l)"
      by (rule iter_wakes [OF _ tunnel(3,4)]) (use inv l in \<open>simp add: tun_inv_def\<close>)
    then show ?thesis using keep [of wakes e l "s_pc s" "s_ms s"] job tunnel(1)
      by (auto simp: tun_inv_def wakes_def wish_call_def)
  next
    case (check v m e)
    have st: "step_ok (maint_calls p) (s_eng s) e" using maint_check_step [of p "s_eng s" v "s_ms s"] check by simp
    show ?thesis using keep [OF st maint_calls_wish l, where pc = MLock and m = m] check by (simp add: pc_job_def)
  next
    case (leave v e)
    have st: "step_ok (maint_calls p) (s_eng s) e" using maint_check_step [of p "s_eng s" v "s_ms s"] leave by simp
    show ?thesis using keep [OF st maint_calls_wish l, where pc = MDone and m = "s_ms s"] leave by (simp add: pc_job_def)
  next
    case (locked v j e)
    obtain j' e' where "maint_dhcp v (s_eng s) = Some (j', e')" "step_ok (\<lambda>_. False) (s_eng s) e'" "job_ok j'"
      by (rule maint_dhcp_step [OF inv])
    then show ?thesis using keep [of "\<lambda>_. False" e "s_tun s" "MApply j" "s_ms s"] l locked
      by (simp add: pc_job_def)
  next
    case (applying j v e)
    then have j: "job_ok j" using job by (simp add: pc_job_def)
    obtain e' where e': "maint_apply v j (s_eng s) = Some e'" "engine_inv e'"
      "calls_ext (net_calls (e_prefer_default_route (s_eng s))) (s_eng s) e'"
      "e_prefer_default_route e' = e_prefer_default_route (s_eng s)"
      by (rule maint_apply_step [OF inv j])
    have "no_wish p (s_eng s) e'"
      using e'(3) unfolding no_wish_def pr by (rule calls_ext_mono) (blast dest: net_calls_wish)
    then show ?thesis using applying e' l j pr by (simp add: sys_inv_def tun_inv_def pc_job_def)
  next
    case (tail j m e)
    then have j: "job_ok j" using job by (simp add: pc_job_def)
    obtain m' e' where e': "maint_tail j (s_ms s, s_eng s) = Some (m', e')"
      "step_ok (net_calls (e_prefer_default_route (s_eng s))) (s_eng s) e'"
      by (rule maint_tail_step [OF inv j])
    then have st: "step_ok (net_calls p) (s_eng s) e" using tail pr by simp
    show ?thesis using keep [OF st net_calls_wish l, where pc = MIdle and m = m] tail by (simp add: pc_job_def)
  qed
qed

definition sys_init :: "at_engine \<Rightarrow> sys" where
  "sys_init e = \<lparr>s_eng = e, s_tun = fresh_local, s_ms = maint_zero, s_pc = MIdle\<rparr>"

lemma sys_init_inv: "engine_inv e \<Longrightarrow> sys_inv (e_prefer_default_route e) (sys_init e)"
  by (simp add: sys_inv_def sys_init_def tun_inv_def fresh_local_def pc_job_def)

lemma engine_reachable:
  assumes "engine_step\<^sup>*\<^sup>* s0 s" "sys_inv p s0"
  shows "sys_inv p s \<and> no_wish p (s_eng s0) (s_eng s)"
  using assms(1)
proof (induction rule: rtranclp_induct)
  case base
  then show ?case using assms(2) by (simp add: no_wish_def)
next
  case (step y z)
  then show ?case using engine_step_keeps [of y z p] no_wish_trans by blast
qed


definition live :: at_engine where
  "live = started\<lparr>e_running := True, e_state := AT_STATE_CONNECTING\<rparr>"

lemma live_inv: "engine_inv live"
proof -
  have "txq_inv live = txq_inv started" by (rule ring_frame) (simp_all add: live_def)
  then show ?thesis
    using started_engine_inv by (simp add: engine_inv_def) (simp add: live_def started_def engine_zero_def)
qed

lemma failed_state:
  assumes "e_state e = AT_STATE_CONNECTING \<or> e_state e = AT_STATE_CONNECTED" "m \<noteq> ''''" "length m < 255"
  shows "engine_fail (Some m) e = e\<lparr>e_state := AT_STATE_ERROR, e_error := m, e_running := False\<rparr>"
  using assms by (auto simp: engine_fail_def Let_def strlcpy_def)

lemma gone_text: "AT_MSG_USB_GONE \<noteq> ''''" "length AT_MSG_USB_GONE < 255"
  by (simp_all add: AT_MSG_USB_GONE_def)




section \<open>A lost error\<close>

text \<open>
  C17: \<open>apply_lease_now\<close> stores CONNECTED without looking at the state. If the phone is unplugged between
  the locked section in which the maintenance thread saw a fresh lease and that store, the ERROR
  state is overwritten: the engine reports CONNECTED although all its threads have been told to stop.
\<close>

theorem error_is_overwritten:
  assumes "sys_inv p s" "s_pc s = MApply j" "mj_just_bound j" "e_running (s_eng s)"
    "e_state (s_eng s) = AT_STATE_CONNECTING \<or> e_state (s_eng s) = AT_STATE_CONNECTED"
  shows "\<exists>s1 s2. engine_step s s1 \<and> e_state (s_eng s1) = AT_STATE_ERROR \<and> engine_step s1 s2 \<and>
    e_state (s_eng s2) = AT_STATE_CONNECTED \<and> \<not> e_running (s_eng s2) \<and> e_error (s_eng s2) = AT_MSG_USB_GONE"
proof -
  let ?f = "engine_fail (Some AT_MSG_USB_GONE) (s_eng s)"
  let ?s1 = "s\<lparr>s_eng := ?f\<rparr>"
  have st1: "engine_step s ?s1" by (rule engine_step.usb_gone [OF assms(4)])
  have f: "?f = (s_eng s)\<lparr>e_state := AT_STATE_ERROR, e_error := AT_MSG_USB_GONE, e_running := False\<rparr>"
    by (rule failed_state [OF assms(5) gone_text])
  have i1: "engine_inv ?f" "job_ok j"
    using assms(1,2) step_ok_inv [OF fail_step] by (simp_all add: sys_inv_def tun_inv_def pc_job_def)
  let ?v = "quiet_env"
  let ?e1 = "\<lambda>e1. (if mj_frame j \<noteq> [] then map_option snd (send_eth_usb ?f (mj_frame j)) else Some ?f) = Some e1"
  have "\<exists>e1. ?e1 e1 \<and> step_ok wakes ?f e1 \<and> only_tx ?f e1"
  proof (cases "mj_frame j = []")
    case True
    then show ?thesis by (simp add: only_tx_def)
  next
    case False
    have l: "length (mj_frame j) < 2 ^ 32" using i1(2) by (simp add: job_ok_def)
    obtain e1 where "map_option snd (send_eth_usb ?f (mj_frame j)) = Some e1" "step_ok wakes ?f e1" "only_tx ?f e1"
      by (rule send_ignored [OF i1(1) l])
    then show ?thesis using False by auto
  qed
  then obtain e1 where e1: "?e1 e1" "step_ok wakes ?f e1" "only_tx ?f e1" by blast
  obtain rc e2 where e2: "apply_lease_now 0 (mj_lease j) e1 = Some (rc, e2)"
    "rc = 0 \<and> only_tx (lease_set (fill_dns (mj_lease j)) e1) e2"
    by (rule apply_lease_step [OF step_ok_inv [OF e1(2) i1(1)], of 0 "mj_lease j"]) simp
  have run: "maint_apply ?v j ?f = Some e2"
    unfolding maint_apply_def e1(1) using assms(3) e2 by (simp add: quiet_env_def)
  have st2: "engine_step ?s1 (?s1\<lparr>s_eng := e2, s_pc := MTail j\<rparr>)"
    by (rule engine_step.applying [where v = ?v]) (use assms(2) run in simp_all)
  have "e_state e2 = AT_STATE_CONNECTED" "e_running e2 = e_running e1" "e_error e2 = e_error (lease_set (fill_dns (mj_lease j)) e1)"
    using only_txD [OF conjunct2 [OF e2(2)]] by (simp_all add: lease_set_fields)
  moreover have "e_error (lease_set l e1) = e_error e1" for l
    by (simp add: lease_set_def lease_wish_def lease_up_def call_def lease_addr_def Let_def split: option.split)
  moreover have "e_running e1 = False" "e_error e1 = AT_MSG_USB_GONE" using only_txD [OF e1(3)] by (simp_all add: f)
  ultimately show ?thesis using st1 st2 by (intro exI conjI) (assumption | simp add: f)+
qed

definition racing :: sys where
  "racing = (sys_init live)\<lparr>s_pc := MApply (idle_job\<lparr>mj_just_bound := True, mj_lease := at_dhcp_lease bound_client\<rparr>)\<rparr>"

theorem error_is_overwritten_witness:
  "\<exists>s1 s2. engine_step racing s1 \<and> e_state (s_eng s1) = AT_STATE_ERROR \<and> engine_step s1 s2 \<and>
    e_state (s_eng s2) = AT_STATE_CONNECTED \<and> \<not> e_running (s_eng s2) \<and> e_error (s_eng s2) = AT_MSG_USB_GONE"
proof (rule error_is_overwritten)
  show "sys_inv (e_prefer_default_route live) racing"
    using live_inv by (simp add: racing_def sys_init_def sys_inv_def tun_inv_def fresh_local_def pc_job_def job_ok_def idle_job_def)
  show "s_pc racing = MApply (idle_job\<lparr>mj_just_bound := True, mj_lease := at_dhcp_lease bound_client\<rparr>)"
    by (simp add: racing_def)
qed (simp_all add: racing_def sys_init_def live_def)

section \<open>The USB thread ends in order\<close>

definition usb_thread_call :: "ext_call \<Rightarrow> bool" where
  "usb_thread_call c \<longleftrightarrow> \<not> wish_call c \<and> \<not> releases c \<and> c \<noteq> FreeInbuf"

lemma usb_thread_calls:
  "out_calls c \<Longrightarrow> usb_thread_call c" "usb_in_calls a fs c \<Longrightarrow> usb_thread_call c" "wakes c \<Longrightarrow> usb_thread_call c"
  by (auto simp: usb_thread_call_def out_calls_def usb_in_calls_def injects_def wish_call_def wakes_def split: ext_call.splits)

lemma sync_round_step:
  assumes "engine_inv e"
  obtains b e' where "sync_round v e = Some (b, e')" "step_ok usb_thread_call e e'"
proof -
  obtain e1 where e1: "usb_drain_tx (se_wrs v) e = Some e1" "step_ok out_calls e e1" by (rule drain_step [OF assms])
  have s1: "step_ok usb_thread_call e e1" using e1(2) by (rule step_ok_mono) (rule usb_thread_calls)
  let ?e2 = "call BulkRead e1"
  have s2: "step_ok usb_thread_call e ?e2"
    by (rule step_call [OF s1]) (simp add: usb_thread_call_def wish_call_def)
  let ?e3 = "?e2\<lparr>e_usb_hard_fails := 0\<rparr>"
  have s3: "step_ok usb_thread_call e ?e3" by (rule step_ok_trans [OF s2 reset_fails_step])
  have i3: "engine_inv ?e3" using step_ok_inv [OF s3 assms] .
  obtain e4 where e4: "unwrap_transfer (se_io v) (se_data v) (length (se_data v)) ?e3 = Some e4"
    "step_ok (usb_in_calls (e_lease_applied ?e3) (walk (take (length (se_data v)) (se_data v)))) ?e3 e4"
    using unwrap_transfer_step [OF i3, of "length (se_data v)" "se_data v" "se_io v"] by auto
  have s4: "step_ok usb_thread_call e e4"
    by (rule step_ok_trans [OF s3 step_ok_mono [OF e4(2)]]) (rule usb_thread_calls)
  have s5: "step_ok usb_thread_call e (note_usb_hard_fail (se_gone2 v) (add_rx_err ?e2))"
    by (rule step_ok_trans [OF add_rx_err_after [OF s2] hard_fail_step])
  have s6: "step_ok usb_thread_call e (engine_fail (Some AT_MSG_USB_GONE) e1)"
    by (rule step_ok_trans [OF s1]) simp
  consider "se_gone v" | "\<not> se_gone v" "se_rc v < 0" | "\<not> se_gone v" "se_rc v = 0" "se_data v \<noteq> []"
    | "\<not> se_gone v" "\<not> se_rc v < 0" "se_rc v \<noteq> 0 \<or> se_data v = []" by linarith
  then show thesis
  proof cases
    case 1
    then show thesis using e1(1) s6 by (intro that [of False]) (simp_all add: sync_round_def)
  next
    case 2
    then show thesis using e1(1) s5 by (intro that [of True]) (simp_all add: sync_round_def Let_def)
  next
    case 3
    then show thesis using e1(1) e4(1) s4 by (intro that [of True]) (simp_all add: sync_round_def Let_def)
  next
    case 4
    then show thesis using e1(1) s2 by (intro that [of True "call BulkRead e1"]) (auto simp: sync_round_def Let_def)
  qed
qed

lemma sync_fallback_step:
  assumes "engine_inv e"
  obtains e' where "usb_io_sync_fallback vs wrs e = Some e'" "step_ok usb_thread_call e e'"
proof -
  have drain: "\<exists>e'. usb_drain_tx wrs e = Some e' \<and> step_ok usb_thread_call e e'" if "engine_inv e" for e
    using drain_step [OF that, of wrs] usb_thread_calls(1) step_ok_mono by metis
  have "engine_inv e \<Longrightarrow> \<exists>e'. usb_io_sync_fallback vs wrs e = Some e' \<and> step_ok usb_thread_call e e'" for e
  proof (induction vs arbitrary: e)
    case Nil
    then show ?case using drain by simp
  next
    case (Cons v vs)
    show ?case
    proof (cases "e_running e")
      case True
      obtain b e1 where e1: "sync_round v e = Some (b, e1)" "step_ok usb_thread_call e e1"
        by (rule sync_round_step [OF Cons.prems])
      have i: "engine_inv e1" using step_ok_inv [OF e1(2) Cons.prems] .
      show ?thesis using True e1 Cons.IH [OF i] drain [OF i] step_ok_trans [OF e1(2)] by (cases b) auto
    qed (use drain [OF Cons.prems] in simp)
  qed
  then show thesis using that assms by blast
qed

fun event_ok :: "async_event \<Rightarrow> bool" where
  "event_ok (InDone io gone sub rc got b) = (case b of Some x \<Rightarrow> got \<le> length x | None \<Rightarrow> True)"
| "event_ok (OutDone rc) = True"

lemma events_step:
  "engine_inv e \<Longrightarrow> list_all event_ok evs \<Longrightarrow> \<exists>e'. run serve_event evs e = Some e' \<and> step_ok usb_thread_call e e'"
proof (induction evs arbitrary: e)
  case (Cons ev evs)
  have "\<exists>e1. serve_event ev e = Some e1 \<and> step_ok usb_thread_call e e1"
  proof (cases ev)
    case (InDone io gone sub rc got b)
    then have "case b of Some x \<Rightarrow> got \<le> length x | None \<Rightarrow> True" using Cons.prems(2) by simp
    from usb_in_step [OF Cons.prems(1) this, of io gone sub rc] show ?thesis
      using InDone step_ok_mono [OF _ usb_thread_calls(2)] by fastforce
  next
    case (OutDone rc)
    obtain e1 where "on_usb_out rc e = Some e1" "step_ok out_calls e e1" by (rule out_done_step [OF Cons.prems(1)])
    then show ?thesis using OutDone step_ok_mono [OF _ usb_thread_calls(1)] by fastforce
  qed
  then obtain e1 where e1: "serve_event ev e = Some e1" "step_ok usb_thread_call e e1" by blast
  have i: "engine_inv e1" using step_ok_inv [OF e1(2) Cons.prems(1)] .
  from Cons.IH [OF i] Cons.prems(2) obtain e2 where "run serve_event evs e1 = Some e2" "step_ok usb_thread_call e1 e2"
    by auto
  then show ?case using e1 step_ok_trans [OF e1(2)] by auto
qed simp

lemma async_rounds_step:
  "engine_inv e \<Longrightarrow> list_all (\<lambda>v. list_all event_ok (ae_events v)) vs \<Longrightarrow>
   \<exists>e'. async_rounds vs e = Some e' \<and> step_ok usb_thread_call e e'"
proof (induction vs arbitrary: e)
  case (Cons v vs)
  have rl: "step_ok usb_thread_call e (call RunLoop e)" by (simp add: usb_thread_call_def wish_call_def)
  have i0: "engine_inv (call RunLoop e)" using Cons.prems(1) by simp
  obtain e1 where e1: "run serve_event (ae_events v) (call RunLoop e) = Some e1" "step_ok usb_thread_call (call RunLoop e) e1"
    using events_step [OF i0] Cons.prems(2) by auto
  have s1: "step_ok usb_thread_call e e1" by (rule step_ok_trans [OF rl e1(2)])
  have i1: "engine_inv e1" using step_ok_inv [OF s1 Cons.prems(1)] .
  obtain e2 m where e2: "usb_try_start_out (ae_busy v) (ae_wr1 v) (ae_wr2 v) e1 = Some (e2, m)" "step_ok out_calls e1 e2"
    by (rule try_start_step [OF i1])
  have s2: "step_ok usb_thread_call e e2"
    by (rule step_ok_trans [OF s1 step_ok_mono [OF e2(2)]]) (rule usb_thread_calls)
  have i2: "engine_inv e2" using step_ok_inv [OF s2 Cons.prems(1)] .
  obtain e3 where e3: "async_rounds vs e2 = Some e3" "step_ok usb_thread_call e2 e3"
    using Cons.IH [OF i2] Cons.prems(2) by auto
  have "async_round v e = (if ae_gone v then Some (False, engine_fail (Some AT_MSG_USB_GONE) e) else Some (True, e2))"
    using e1(1) e2(1) by (simp add: async_round_def)
  then show ?case using e3(1) step_ok_trans [OF s2 e3(2)] by auto
qed simp

lemma free_inbuf:
  assumes "step_ok usb_thread_call e e'"
  shows "engine_inv e \<Longrightarrow> engine_inv (call FreeInbuf (e'\<lparr>e_inbuf := False\<rparr>))"
    "\<exists>cs. e_calls (call FreeInbuf (e'\<lparr>e_inbuf := False\<rparr>)) = e_calls e @ cs @ [FreeInbuf] \<and> list_all usb_thread_call cs"
    "\<not> e_inbuf (call FreeInbuf (e'\<lparr>e_inbuf := False\<rparr>))"
proof -
  have "txq_inv (e'\<lparr>e_inbuf := False\<rparr>) = txq_inv e'" by (rule ring_frame) simp_all
  then have "engine_inv (e'\<lparr>e_inbuf := False\<rparr>) = engine_inv e'" by (rule engine_inv_frame) simp_all
  then show "engine_inv e \<Longrightarrow> engine_inv (call FreeInbuf (e'\<lparr>e_inbuf := False\<rparr>))"
    using step_ok_inv [OF assms] by simp
  show "\<exists>cs. e_calls (call FreeInbuf (e'\<lparr>e_inbuf := False\<rparr>)) = e_calls e @ cs @ [FreeInbuf] \<and> list_all usb_thread_call cs"
    using assms by (auto simp: step_ok_def calls_ext_def call_def)
  show "\<not> e_inbuf (call FreeInbuf (e'\<lparr>e_inbuf := False\<rparr>))" by (simp add: call_def)
qed

lemma inbuf_step: "step_ok P e (e\<lparr>e_inbuf := b\<rparr>)"
proof -
  have "txq_inv (e\<lparr>e_inbuf := b\<rparr>) = txq_inv e" by (rule ring_frame) simp_all
  then have "engine_inv (e\<lparr>e_inbuf := b\<rparr>) = engine_inv e" by (rule engine_inv_frame) simp_all
  then show ?thesis by (simp add: step_ok_def calls_ext_def)
qed

text \<open>
  The USB thread has no undefined behaviour in either of its modes, keeps the invariant, leaves the
  Mac's network settings and the engine's resources alone, and frees its receive buffers exactly
  once, as its last call, on every way out.
\<close>

theorem usb_thread_ends:
  assumes "engine_inv e" "list_all (\<lambda>v. list_all event_ok (ae_events v)) asyncs" "list_all event_ok late"
  shows "\<exists>e' cs. usb_io_thread m1 m2 att s1 s2 syncs asyncs late wrs e = Some e' \<and> engine_inv e' \<and>
    e_calls e' = e_calls e @ cs @ [FreeInbuf] \<and> list_all usb_thread_call cs \<and> \<not> e_inbuf e'"
proof -
  let ?C = "usb_thread_call"
  have C: "?C Attach" "?C SubmitIn" "?C Detach" "?C RunLoop" "?C AbortIn" "?C AbortOut"
    by (simp_all add: usb_thread_call_def wish_call_def)
  let ?e1 = "call Attach (e\<lparr>e_inbuf := True\<rparr>)"
  have s0: "step_ok ?C e (e\<lparr>e_inbuf := True\<rparr>)" by (rule inbuf_step)
  have s1: "step_ok ?C e ?e1" by (rule step_call [OF s0 C(1)])
  let ?e2 = "call SubmitIn (call SubmitIn ?e1)"
  have s2: "step_ok ?C e ?e2" by (rule step_call [OF step_call [OF s1 C(2)] C(2)])
  have s3: "step_ok ?C e (call Detach ?e2)" by (rule step_call [OF s2 C(3)])
  note i = step_ok_inv [OF s1 assms(1)] step_ok_inv [OF s2 assms(1)] step_ok_inv [OF s3 assms(1)]
  obtain f1 where f1: "usb_io_sync_fallback syncs wrs ?e1 = Some f1" "step_ok ?C ?e1 f1"
    by (rule sync_fallback_step [OF i(1)])
  obtain f2 where f2: "usb_io_sync_fallback syncs wrs (call Detach ?e2) = Some f2" "step_ok ?C (call Detach ?e2) f2"
    by (rule sync_fallback_step [OF i(3)])
  obtain a1 where a1: "async_rounds asyncs ?e2 = Some a1" "step_ok ?C ?e2 a1"
    using async_rounds_step [OF i(2) assms(2)] by blast
  let ?a2 = "call RunLoop (call AbortOut (call AbortIn a1))"
  have sa: "step_ok ?C e ?a2"
    by (rule step_call [OF step_call [OF step_call [OF step_ok_trans [OF s2 a1(2)] C(5)] C(6)] C(4)])
  obtain a3 where a3: "run serve_event late ?a2 = Some a3" "step_ok ?C ?a2 a3"
    using events_step [OF step_ok_inv [OF sa assms(1)] assms(3)] by blast
  have sd: "step_ok ?C e (call Detach a3)" by (rule step_call [OF step_ok_trans [OF sa a3(2)] C(3)])
  obtain a4 where a4: "usb_drain_tx wrs (call Detach a3) = Some a4" "step_ok out_calls (call Detach a3) a4"
    by (rule drain_step [OF step_ok_inv [OF sd assms(1)]])
  have s4: "step_ok ?C e a4"
    by (rule step_ok_trans [OF sd step_ok_mono [OF a4(2)]]) (rule usb_thread_calls)
  define last where "last = (if att \<noteq> 0 then f1 else if s1 \<noteq> 0 \<and> s2 \<noteq> 0 then f2 else a4)"
  have sl: "step_ok ?C e last"
    using step_ok_trans [OF s1 f1(2)] step_ok_trans [OF s3 f2(2)] s4 by (simp add: last_def)
  show ?thesis
  proof (cases "m1 \<and> m2")
    case True
    have "usb_io_thread m1 m2 att s1 s2 syncs asyncs late wrs e = Some (call FreeInbuf (last\<lparr>e_inbuf := False\<rparr>))"
      using True f1(1) f2(1) a1(1) a3(1) a4(1) by (simp add: usb_io_thread_def Let_def last_def)
    then show ?thesis using free_inbuf [OF sl] assms(1) by blast
  next
    case False
    let ?f = "engine_fail (Some ''Could not allocate the USB receive buffer'') (call FreeInbuf (e\<lparr>e_inbuf := False\<rparr>))"
    have sf: "step_ok ?C (call FreeInbuf (e\<lparr>e_inbuf := False\<rparr>)) ?f" by simp
    have run: "usb_io_thread m1 m2 att s1 s2 syncs asyncs late wrs e = Some ?f"
      using False by (auto simp: usb_io_thread_def Let_def)
    have "engine_inv ?f" using step_ok_inv [OF sf free_inbuf(1) [OF step_ok_refl assms(1)]] .
    moreover have "e_calls ?f = e_calls e @ [] @ [FreeInbuf]" "\<not> e_inbuf ?f"
      by (cases rule: engine_fail_cases [of "call FreeInbuf (e\<lparr>e_inbuf := False\<rparr>)"
            "Some ''Could not allocate the USB receive buffer''"]; simp add: call_def)+
    ultimately show ?thesis using run list.pred_inject(1) by blast
  qed
qed

theorem usb_thread_ends_witness:
  "\<exists>e' cs. usb_io_thread True True 0 0 1 []
      [\<lparr>ae_gone = False, ae_events = [InDone (\<lambda>_. (0, 0)) False 0 0 2 (Some [1, 2])], ae_busy = False, ae_wr1 = 0, ae_wr2 = 0\<rparr>]
      [OutDone (-1)] [] live = Some e' \<and> engine_inv e' \<and>
    e_calls e' = e_calls live @ cs @ [FreeInbuf] \<and> list_all usb_thread_call cs \<and> \<not> e_inbuf e'"
  by (rule usb_thread_ends) (simp_all add: live_inv)

end
