(* ===== verification/NetParse.thy ===== *)
theory NetParse
  imports Dhcp
begin

text \<open>
  The text parsers of \<open>engine/src/net_parse.c\<close>: what the engine reads out of the output of
  \<open>scutil\<close>, \<open>route\<close> and \<open>networksetup\<close>, and the checks every address and interface name has to pass
  before it becomes part of a command. A C string is the list of its characters before the NUL, a
  pointer that may be \<open>NULL\<close> an option. A \<open>char\<close> array the code fills is the C string it holds
  afterwards; its size is an argument. The program never calls \<open>setlocale\<close>, so the character classes
  and the case folding are those of the C locale.
\<close>

section \<open>The string functions of the C library\<close>

definition tolower :: "char \<Rightarrow> char" where
  "tolower c = (let n = of_char c :: nat in if 65 \<le> n \<and> n \<le> 90 then char_of (n + 32) else c)"

text \<open>\<open>strncasecmp(s, t, n) == 0\<close> and \<open>strcasecmp(s, t) == 0\<close>.\<close>

fun strncaseeq :: "nat \<Rightarrow> string \<Rightarrow> string \<Rightarrow> bool" where
  "strncaseeq 0 s t = True"
| "strncaseeq (Suc n) [] [] = True"
| "strncaseeq (Suc n) (c # s) (d # t) = (tolower c = tolower d \<and> strncaseeq n s t)"
| "strncaseeq (Suc n) _ _ = False"

definition strcaseeq :: "string \<Rightarrow> string \<Rightarrow> bool" where
  "strcaseeq s t = (map tolower s = map tolower t)"

text \<open>\<open>strncmp(s, t, strlen(t)) == 0\<close>, and whether \<open>strstr\<close> finds something.\<close>

definition starts_with :: "string \<Rightarrow> string \<Rightarrow> bool" where
  "starts_with s t = (take (length t) s = t)"

fun strstr :: "string \<Rightarrow> string \<Rightarrow> bool" where
  "strstr [] t = (t = [])"
| "strstr (c # s) t = (starts_with (c # s) t \<or> strstr s t)"

text \<open>The tokens of \<open>strtok_r\<close> with the separators \<open>P\<close>.\<close>

fun strtok_loop :: "(char \<Rightarrow> bool) \<Rightarrow> string \<Rightarrow> string \<Rightarrow> string list" where
  "strtok_loop P acc [] = (if acc = [] then [] else [rev acc])"
| "strtok_loop P acc (c # s) =
     (if P c then (if acc = [] then strtok_loop P [] s else rev acc # strtok_loop P [] s)
      else strtok_loop P (c # acc) s)"

definition strtok :: "(char \<Rightarrow> bool) \<Rightarrow> string \<Rightarrow> string list" where
  "strtok P s = strtok_loop P [] s"

definition rtrim :: "(char \<Rightarrow> bool) \<Rightarrow> string \<Rightarrow> string" where
  "rtrim P s = rev (dropWhile P (rev s))"

abbreviation (input) NL :: char where "NL \<equiv> CHR 0x0A"
abbreviation (input) CR :: char where "CR \<equiv> CHR 0x0D"
abbreviation (input) TAB :: char where "TAB \<equiv> CHR 0x09"

definition isspace :: "char \<Rightarrow> bool" where
  "isspace c \<longleftrightarrow> c = CHR '' '' \<or> (9 \<le> (of_char c :: nat) \<and> (of_char c :: nat) \<le> 13)"

definition isalpha :: "char \<Rightarrow> bool" where
  "isalpha c \<longleftrightarrow> (let n = of_char c :: nat in (65 \<le> n \<and> n \<le> 90) \<or> (97 \<le> n \<and> n \<le> 122))"

definition isalnum :: "char \<Rightarrow> bool" where
  "isalnum c \<longleftrightarrow> isalpha c \<or> isdigit c"

text \<open>\<open>sscanf(s, "%63s %63s", a, b)\<close>: the words it stores, at most two of at most 63 characters.\<close>

definition scan_word :: "string \<Rightarrow> (string \<times> string) option" where
  "scan_word s =
     (let s = dropWhile isspace s; w = take 63 (takeWhile (\<lambda>c. \<not> isspace c) s) in
      if w = [] then None else Some (w, drop (length w) s))"

definition scan_words2 :: "string \<Rightarrow> string list" where
  "scan_words2 s =
     (case scan_word s of None \<Rightarrow> []
      | Some (a, r) \<Rightarrow> (case scan_word r of None \<Rightarrow> [a] | Some (b, _) \<Rightarrow> [a, b]))"

section \<open>The parsers\<close>

fun contains_loop :: "string \<Rightarrow> string \<Rightarrow> bool" where
  "contains_loop needle [] = False"
| "contains_loop needle (c # s) = (strncaseeq (length needle) (c # s) needle \<or> contains_loop needle s)"

definition at_str_contains_ci :: "string option \<Rightarrow> string option \<Rightarrow> bool" where
  "at_str_contains_ci s needle =
     (case (s, needle) of (Some s, Some n) \<Rightarrow> n \<noteq> '''' \<and> contains_loop n s | _ \<Rightarrow> False)"

definition at_str_line_has_prefix :: "string option \<Rightarrow> string option \<Rightarrow> bool" where
  "at_str_line_has_prefix line pre =
     (case (line, pre) of (Some l, Some p) \<Rightarrow> starts_with l p | _ \<Rightarrow> False)"

definition at_parse_wifi_truthy :: "string option \<Rightarrow> bool" where
  "at_parse_wifi_truthy s =
     (case s of None \<Rightarrow> False
      | Some s \<Rightarrow> s \<noteq> '''' \<and> (strcaseeq s ''true'' \<or> strcaseeq s ''yes'' \<or> s = ''1'' \<or> strcaseeq s ''on''))"

definition scutil_key_at :: "string \<Rightarrow> string \<Rightarrow> bool" where
  "scutil_key_at p label =
     (strncaseeq (length label) p label \<and>
      (case drop (length label) p of [] \<Rightarrow> True
       | c # _ \<Rightarrow> c = CHR '' '' \<or> c = TAB \<or> c = CHR '':'' \<or> c = NL \<or> c = CR))"

definition at_start :: "char option \<Rightarrow> bool" where
  "at_start prev =
     (case prev of None \<Rightarrow> True
      | Some c \<Rightarrow> c = NL \<or> c = CHR '' '' \<or> c = TAB \<or> c = CHR ''{'' \<or> c = CR)"

text \<open>The value behind a label, cut to the room \<open>n\<close> and trimmed.\<close>

definition field_value :: "nat \<Rightarrow> string \<Rightarrow> string" where
  "field_value n p =
     (let p = dropWhile (\<lambda>c. c = CHR '' '' \<or> c = TAB \<or> c = CHR '':'') p;
          p = (case p of [] \<Rightarrow> p | c # cs \<Rightarrow> if c = CHR 0x22 then cs else p);
          out = take (n - 1) (takeWhile (\<lambda>c. c \<noteq> NL \<and> c \<noteq> CR \<and> c \<noteq> CHR 0x22) p)
      in rtrim (\<lambda>c. c = CHR '' '' \<or> c = TAB \<or> c = CHR ''}'') out)"

fun field_loop :: "string \<Rightarrow> nat \<Rightarrow> char option \<Rightarrow> string \<Rightarrow> string option" where
  "field_loop label n prev [] = None"
| "field_loop label n prev (c # p) =
     (if at_start prev \<and> scutil_key_at (c # p) label
      then Some (field_value n (drop (length label) (c # p)))
      else field_loop label n (Some c) p)"

definition at_parse_scutil_field :: "string option \<Rightarrow> string option \<Rightarrow> string \<Rightarrow> nat \<Rightarrow> string" where
  "at_parse_scutil_field text label out n =
     (if n = 0 then out else
      case (text, label) of
        (Some t, Some l) \<Rightarrow> (case field_loop l n None t of None \<Rightarrow> '''' | Some v \<Rightarrow> v)
      | _ \<Rightarrow> '''')"

text \<open>The Korean wording, in UTF-8.\<close>

definition KO_OFF :: "string list" where
  "KO_OFF =
    [[CHR 0xEA, CHR 0xBA, CHR 0xBC, CHR 0xEC, CHR 0xA7, CHR 0x90],
     [CHR 0xEB, CHR 0x81, CHR 0x84, CHR 0xEA, CHR 0xB8, CHR 0xB0],
     [CHR 0xEA, CHR 0xBA, CHR 0xBC, CHR 0xEC, CHR 0xA0, CHR 0xB8]]"

definition KO_ON :: "string list" where
  "KO_ON =
    [[CHR 0xEC, CHR 0xBC, CHR 0x9C, CHR 0xEC, CHR 0xA7, CHR 0x90],
     [CHR 0xEC, CHR 0xBC, CHR 0x9C, CHR 0xEA, CHR 0xB8, CHR 0xB0]]"

definition at_parse_wifi_power_text :: "string option \<Rightarrow> int" where
  "at_parse_wifi_power_text out =
     (case out of None \<Rightarrow> -1
      | Some s \<Rightarrow>
          if s = '''' then -1
          else if at_str_contains_ci (Some s) (Some ''Off'') \<or> list_ex (strstr s) KO_OFF then 0
          else if strstr s '': On'' \<or> strstr s '': on'' \<or> strstr s '':On'' \<or> list_ex (strstr s) KO_ON \<or>
                  at_str_contains_ci (Some s) (Some ''enabled'') then 1
          else if at_str_contains_ci (Some s) (Some ''On'') \<or> strstr s [CHR 0xEC, CHR 0xBC, CHR 0x9C] then 1
          else -1)"

definition KO_PORT :: string where
  "KO_PORT = [CHR 0xED, CHR 0x95, CHR 0x98, CHR 0xEB, CHR 0x93, CHR 0x9C, CHR 0xEC, CHR 0x9B, CHR 0xA8,
     CHR 0xEC, CHR 0x96, CHR 0xB4, CHR 0x20, CHR 0xED, CHR 0x8F, CHR 0xAC, CHR 0xED, CHR 0x8A, CHR 0xB8, CHR 0x3A]"

definition KO_WIFI :: string where
  "KO_WIFI = [CHR 0xEC, CHR 0x99, CHR 0x80, CHR 0xEC, CHR 0x9D, CHR 0xB4, CHR 0xED, CHR 0x8C, CHR 0x8C,
     CHR 0xEC, CHR 0x9D, CHR 0xB4]"

definition KO_DEV :: string where
  "KO_DEV = [CHR 0xEC, CHR 0x9E, CHR 0xA5, CHR 0xEC, CHR 0xB9, CHR 0x98, CHR 0x3A]"

definition is_wifi_port :: "string \<Rightarrow> bool" where
  "is_wifi_port line =
     (at_str_contains_ci (Some line) (Some ''Wi-Fi'') \<or> at_str_contains_ci (Some line) (Some ''WiFi'') \<or>
      at_str_contains_ci (Some line) (Some ''AirPort'') \<or> at_str_contains_ci (Some line) (Some KO_WIFI))"

fun device_loop :: "nat \<Rightarrow> bool \<Rightarrow> string list \<Rightarrow> int \<times> string" where
  "device_loop n want [] = (-1, '''')"
| "device_loop n want (line # rest) =
     (if at_str_line_has_prefix (Some line) (Some ''Hardware Port:'') \<or>
         at_str_line_has_prefix (Some line) (Some KO_PORT)
      then device_loop n (is_wifi_port line) rest
      else let is_dev = (at_str_line_has_prefix (Some line) (Some ''Device:'') \<or>
                         at_str_line_has_prefix (Some line) (Some KO_DEV)) in
      if \<not> want \<or> \<not> is_dev then device_loop n want rest
      else case dropWhile (\<lambda>c. c \<noteq> CHR '':'') line of
        [] \<Rightarrow> device_loop n want rest
      | _ # p \<Rightarrow>
          (let p = dropWhile (\<lambda>c. c = CHR '' '' \<or> c = TAB) p;
               dev = rtrim (\<lambda>c. c = CHR '' '' \<or> c = TAB \<or> c = CR) (take (n - 1) p)
           in (if dev \<noteq> '''' then 0 else -1, dev)))"

definition at_parse_wifi_device_text :: "string option \<Rightarrow> string \<Rightarrow> nat \<Rightarrow> int \<times> string" where
  "at_parse_wifi_device_text text dev n =
     (if n = 0 then (-1, dev) else
      case text of None \<Rightarrow> (-1, '''')
      | Some t \<Rightarrow> device_loop n False (strtok (\<lambda>c. c = NL) (take 4095 t)))"

section \<open>What may become part of a command\<close>

definition at_ipv4_dotted_ok :: "string option \<Rightarrow> bool" where
  "at_ipv4_dotted_ok s =
     (case s of None \<Rightarrow> False
      | Some s \<Rightarrow> s \<noteq> '''' \<and> list_all (\<lambda>c. c = CHR ''.'' \<or> isdigit c) s \<and> inet_pton4 s \<noteq> None)"

fun ifname_loop :: "nat \<Rightarrow> string \<Rightarrow> nat option" where
  "ifname_loop n [] = Some n"
| "ifname_loop n (c # p) =
     (if n \<ge> 15 then None else if \<not> isalnum c then None else ifname_loop (n + 1) p)"

definition at_ifname_ok :: "string option \<Rightarrow> bool" where
  "at_ifname_ok name =
     (case name of None \<Rightarrow> False
      | Some [] \<Rightarrow> False
      | Some (c # p) \<Rightarrow> isalpha c \<and> (case ifname_loop 0 (c # p) of None \<Rightarrow> False | Some n \<Rightarrow> n > 0))"

definition at_lease_addrs_ok :: "at_net_info option \<Rightarrow> bool" where
  "at_lease_addrs_ok lease =
     (case lease of None \<Rightarrow> False
      | Some l \<Rightarrow>
          at_ipv4_dotted_ok (Some (ni_ip l)) \<and>
          (ni_netmask l = '''' \<or> at_ipv4_dotted_ok (Some (ni_netmask l))) \<and>
          (ni_gateway l = '''' \<or> at_ipv4_dotted_ok (Some (ni_gateway l))) \<and>
          (ni_dns l = '''' \<or>
           (case scan_words2 (ni_dns l) of
              [] \<Rightarrow> False
            | [a] \<Rightarrow> at_ipv4_dotted_ok (Some a)
            | a # b # _ \<Rightarrow> at_ipv4_dotted_ok (Some a) \<and> at_ipv4_dotted_ok (Some b))))"

section \<open>Accepted addresses\<close>

text \<open>The dotted text of some octets.\<close>

fun dotted :: "nat list \<Rightarrow> string" where
  "dotted [] = ''''"
| "dotted [n] = dec8 n"
| "dotted (n # ns) = dec8 n @ ''.'' @ dotted ns"

lemma dec8_snoc:
  assumes "0 < n" "n * 10 + d \<le> 255" "d < 10"
  shows "dec8 (n * 10 + d) = dec8 n @ [digit d]"
proof -
  have d: "(n * 10 + d) div 10 = n" and m: "(n * 10 + d) mod 10 = d" using assms(3) by simp_all
  have "(n * 10 + d) div 100 = (n * 10 + d) div 10 div 10" by (simp add: div_mult2_eq [symmetric])
  then have "(n * 10 + d) div 100 = n div 10" by (simp only: d)
  then show ?thesis using d m assms by (simp add: dec8_def)
qed

lemma digit_of_char: "isdigit c \<Longrightarrow> digit (of_char c - 48) = c \<and> of_char c - 48 < (10 :: nat)"
  unfolding isdigit_def digit_def by auto

text \<open>
  What \<open>inet_pton\<close> accepts is exactly what \<open>inet_ntop\<close> prints: the text that is read, behind the
  digits already seen, is the dotted text of the octets that are still to come.
\<close>

lemma pton_dotted:
  assumes "pton_loop cs oc saw acc cur = Some l" "oc = length acc + (if saw then 1 else 0)"
    "length acc \<le> 3" "cur \<le> 255" "saw \<or> cur = 0"
  shows "\<exists>ns. ns \<noteq> [] \<and> l = rev acc @ ns \<and> length l = 4 \<and> (\<forall>n\<in>set ns. n \<le> 255) \<and>
    (if saw then dec8 cur @ cs else cs) = dotted ns"
  using assms
proof (induction cs oc saw acc cur arbitrary: l rule: pton_loop.induct)
  case (1 oc saw acc cur)
  then show ?case by (cases saw) (auto split: if_splits intro!: exI [of _ "[cur]"])
next
  case (2 c cs oc saw acc cur)
  show ?case
  proof (cases "isdigit c")
    case True
    define d where "d = of_char c - (48 :: nat)"
    have c: "c = digit d" "d < 10" using digit_of_char [OF True] by (simp_all add: d_def)
    have new: "\<not> (saw \<and> cur = 0)" "cur * 10 + d \<le> 255"
      using "2.prems"(1) True by (auto simp: d_def Let_def split: if_splits)
    show ?thesis
    proof (cases saw)
      case saw: True
      have p: "pton_loop cs oc saw acc (cur * 10 + d) = Some l"
        using "2.prems"(1) True saw new by (simp add: d_def Let_def)
      obtain ns where ns: "ns \<noteq> []" "l = rev acc @ ns" "length l = 4" "\<forall>n\<in>set ns. n \<le> 255"
        "dec8 (cur * 10 + d) @ cs = dotted ns"
        using "2.IH"(2) [OF True d_def [THEN arg_cong [where f = "\<lambda>d. cur * 10 + d"]], of l] p "2.prems"(2-) saw new
        by (auto simp: d_def)
      have "dec8 (cur * 10 + d) = dec8 cur @ [c]" using dec8_snoc [of cur d] new c saw by simp
      then show ?thesis using ns saw by (intro exI [of _ ns]) simp
    next
      case fresh: False
      have z: "cur = 0" using "2.prems"(5) fresh by simp
      have p: "pton_loop cs (oc + 1) True acc d = Some l"
        using "2.prems"(1) True fresh new z by (auto simp: d_def Let_def split: if_splits)
      obtain ns where ns: "ns \<noteq> []" "l = rev acc @ ns" "length l = 4" "\<forall>n\<in>set ns. n \<le> 255"
        "dec8 d @ cs = dotted ns"
        using "2.IH"(1) [OF True, of d l] p "2.prems"(2-) fresh new z
        by (auto simp: d_def split: if_splits)
      have "dec8 d = [c]" using c by (simp add: dec8_def)
      then show ?thesis using ns fresh by (intro exI [of _ ns]) simp
    qed
  next
    case False
    have c: "c = CHR ''.''" "saw" "oc \<noteq> 4" and p: "pton_loop cs oc False (cur # acc) 0 = Some l"
      using "2.prems"(1) False by (auto split: if_splits)
    obtain ns where ns: "ns \<noteq> []" "l = rev (cur # acc) @ ns" "length l = 4" "\<forall>n\<in>set ns. n \<le> 255" "cs = dotted ns"
      using "2.IH"(3) [OF False, of l] p "2.prems"(2-) c by auto
    obtain m ms where "ns = m # ms" using ns(1) by (cases ns) auto
    then have "dec8 cur @ c # cs = dotted (cur # ns)" using ns(5) c by simp
    then show ?thesis using ns c "2.prems"(4) by (intro exI [of _ "cur # ns"]) simp
  qed
qed

lemma four_octets: "length ns = 4 \<Longrightarrow> \<exists>a b c d. ns = [a, b, c, d]"
  by (simp add: numeral_eq_Suc length_Suc_conv) blast

lemma dotted4: "dotted [a, b, c, d] = dec8 a @ ''.'' @ dec8 b @ ''.'' @ dec8 c @ ''.'' @ dec8 d"
  by simp

lemma dotted_ok_iff:
  "at_ipv4_dotted_ok (Some s) = (\<exists>a. s = inet_ntop4 a)"
proof
  assume "at_ipv4_dotted_ok (Some s)"
  then obtain l where l: "pton_loop s 0 False [] 0 = Some l" by (auto simp: at_ipv4_dotted_ok_def inet_pton4_def)
  obtain ns where ns: "l = ns" "length ns = 4" "\<forall>n\<in>set ns. n \<le> 255" "s = dotted ns"
    using pton_dotted [OF l] by auto
  obtain a b c d where abcd: "ns = [a, b, c, d]" using four_octets [OF ns(2)] by blast
  have "unat (of_nat x :: byte) = x" if "x \<in> set ns" for x
    using that ns(3) by (fastforce simp: unat_of_nat take_bit_eq_mod)
  then have "s = inet_ntop4 (word32 (of_nat a) (of_nat b) (of_nat c) (of_nat d))"
    unfolding inet_ntop4_def bytes32_word32 using ns(4) abcd by (simp del: dotted.simps add: dotted4)
  then show "\<exists>a. s = inet_ntop4 a" ..
next
  assume "\<exists>a. s = inet_ntop4 a"
  then obtain a where "s = inet_ntop4 a" ..
  then show "at_ipv4_dotted_ok (Some s)"
    using ntop_chars [of a] ntop_length [of a] pton_ntop [of a] by (simp add: at_ipv4_dotted_ok_def)
qed

lemma dotted_ok_ntop [simp]: "at_ipv4_dotted_ok (Some (inet_ntop4 a))"
  by (auto simp: dotted_ok_iff)

text \<open>
  C35: the check in front of every command accepts exactly the canonical dotted text of an IPv4
  address: what \<open>inet_ntop\<close> prints, and no other string. So nothing that is accepted can carry a
  newline, a blank or any other character with a meaning for \<open>scutil\<close> or \<open>ifconfig\<close>.
\<close>

theorem ipv4_dotted_exact:
  "at_ipv4_dotted_ok (Some s) = (\<exists>a. s = inet_ntop4 a)"
  by (rule dotted_ok_iff)

text \<open>The characters of an accepted address or interface name.\<close>

definition safe_text :: "string \<Rightarrow> bool" where
  "safe_text s \<longleftrightarrow> s \<noteq> '''' \<and> length s \<le> 15 \<and> list_all (\<lambda>c. c = CHR ''.'' \<or> isalnum c) s"

lemma ifname_loop_Some:
  "ifname_loop n p = Some m \<Longrightarrow> n \<le> 15 \<Longrightarrow> m = n + length p \<and> m \<le> 15 \<and> list_all isalnum p"
proof (induction p arbitrary: n)
  case (Cons c p)
  then have "ifname_loop (n + 1) p = Some m" "n + 1 \<le> 15" "isalnum c" by (auto split: if_splits)
  then show ?case using Cons.IH [of "n + 1"] by simp
qed simp

lemma ifname_ok_safe:
  assumes "at_ifname_ok (Some s)"
  shows "safe_text s"
proof -
  obtain n where "s \<noteq> ''''" "ifname_loop 0 s = Some n"
    using assms by (cases s) (auto simp: at_ifname_ok_def simp del: ifname_loop.simps split: option.splits)
  then show ?thesis using ifname_loop_Some [of 0 s n] by (auto simp: safe_text_def list_all_iff)
qed

lemma safe_ntop [simp]: "safe_text (inet_ntop4 a)"
  using ntop_chars [of a] ntop_length [of a] by (auto simp: safe_text_def list_all_iff isalnum_def)

lemma dotted_ok_safe: "at_ipv4_dotted_ok (Some s) \<Longrightarrow> safe_text s"
  by (auto simp: dotted_ok_iff)

section \<open>The lease of the DHCP client\<close>

lemma safe_not_space: "c = CHR ''.'' \<or> isalnum c \<Longrightarrow> \<not> isspace c"
proof -
  assume "c = CHR ''.'' \<or> isalnum c"
  then have "46 \<le> (of_char c :: nat)"
    by (elim disjE) (simp, auto simp: isalnum_def isalpha_def isdigit_def Let_def)
  moreover have "isspace c \<Longrightarrow> (of_char c :: nat) \<le> 32" by (auto simp: isspace_def)
  ultimately show ?thesis by linarith
qed

lemma scan_word_word:
  assumes "safe_text w" "r = '''' \<or> isspace (hd r)"
  shows "scan_word (w @ r) = Some (w, r)"
proof -
  have ns: "\<forall>c\<in>set w. \<not> isspace c" using assms(1) safe_not_space by (auto simp: safe_text_def list_all_iff)
  have w: "w \<noteq> []" "length w \<le> 63" using assms(1) by (simp_all add: safe_text_def)
  have "dropWhile isspace (w @ r) = w @ r" using w(1) ns by (cases w) simp_all
  moreover have "takeWhile (\<lambda>c. \<not> isspace c) (w @ r) = w"
  proof -
    have "takeWhile (\<lambda>c. \<not> isspace c) r = []" using assms(2) by (cases r) simp_all
    then show ?thesis using takeWhile_append2 [of w "\<lambda>c. \<not> isspace c" r] ns by auto
  qed
  ultimately show ?thesis using w by (simp add: scan_word_def Let_def)
qed

lemma scan_word_blank: "scan_word (CHR '' '' # r) = scan_word r"
  by (simp add: scan_word_def isspace_def Let_def)

lemma scan_word_Nil [simp]: "scan_word [] = None"
  by (simp add: scan_word_def)

lemma scan_one [simp]: "safe_text a \<Longrightarrow> scan_words2 a = [a]"
  using scan_word_word [of a "[]"] by (simp add: scan_words2_def)

lemma scan_two [simp]:
  assumes "safe_text a" "safe_text b"
  shows "scan_words2 (a @ CHR '' '' # b) = [a, b]"
proof -
  have "scan_word (a @ CHR '' '' # b) = Some (a, CHR '' '' # b)"
    using assms(1) by (intro scan_word_word) (simp_all add: isspace_def)
  moreover have "scan_word (CHR '' '' # b) = Some (b, [])"
    using scan_word_word [OF assms(2), of "[]"] by (simp add: scan_word_blank)
  ultimately show ?thesis by (simp add: scan_words2_def)
qed

text \<open>
  C36: the client and the check agree: the lease of a bound client, whatever addresses the server
  put into it, is always accepted, so a valid lease is never turned away as malformed text.
\<close>

theorem dhcp_lease_accepted:
  assumes "lease_active d"
  shows "at_lease_addrs_ok (Some (at_dhcp_lease d))"
proof -
  have e: "inet_ntop4 a \<noteq> ''''" for a using ntop_length by blast
  show ?thesis
    using assms e by (simp add: at_dhcp_lease_def at_lease_addrs_ok_def net_info_zero_def Let_def)
qed

theorem dhcp_lease_accepted_witness:
  "at_lease_addrs_ok (Some (at_dhcp_lease bound_client))"
  by (rule dhcp_lease_accepted) (simp add: bound_client_def lease_active_def)

section \<open>The output of \<open>scutil show\<close>\<close>

text \<open>A dictionary as \<open>scutil\<close> prints it: one indented \<open>key : value\<close> line per entry.\<close>

definition show_line :: "string \<times> string \<Rightarrow> string" where
  "show_line = (\<lambda>(k, v). ''  '' @ k @ '' : '' @ v @ [NL])"

definition scutil_dump :: "(string \<times> string) list \<Rightarrow> string" where
  "scutil_dump kvs = ''<dictionary> {'' @ [NL] @ concat (map show_line kvs) @ ''}''"

definition key_ok :: "string \<Rightarrow> bool" where
  "key_ok k \<longleftrightarrow> k \<noteq> '''' \<and> list_all isalnum k"

text \<open>One word that does not start with a colon and is not mistaken for the key, and that fits the buffer.\<close>

definition word_ok :: "string \<Rightarrow> string \<Rightarrow> bool" where
  "word_ok label v \<longleftrightarrow> list_all (\<lambda>c. \<not> at_start (Some c) \<and> c \<noteq> CHR 0x22) v \<and>
     (case v of [] \<Rightarrow> True | c # _ \<Rightarrow> c \<noteq> CHR '':'' \<and> last v \<noteq> CHR ''}'') \<and> \<not> strncaseeq (length label) v label"

definition value_ok :: "nat \<Rightarrow> string \<Rightarrow> string \<Rightarrow> bool" where
  "value_ok n label v \<longleftrightarrow> length v < n \<and> word_ok label v"

definition entry_of :: "string \<Rightarrow> (string \<times> string) list \<Rightarrow> string" where
  "entry_of label kvs = (case find (\<lambda>(k, v). strcaseeq k label) kvs of None \<Rightarrow> '''' | Some (k, v) \<Rightarrow> v)"

lemma strncaseeq_take: "strncaseeq (length t) s t = (map tolower (take (length t) s) = map tolower t)"
proof (induction t arbitrary: s)
  case (Cons d t)
  then show ?case by (cases s) simp_all
qed simp

lemma alnum_range: "isalnum c \<Longrightarrow> isalnum (tolower c)"
  unfolding isalnum_def isalpha_def isdigit_def tolower_def Let_def by auto

lemma not_alnum [simp]: "\<not> isalnum CHR '' ''" "\<not> isalnum CHR '':''" "\<not> isalnum NL" "\<not> isalnum CR"
  "\<not> isalnum TAB" "\<not> isalnum CHR ''<''" "\<not> isalnum CHR ''{''" "\<not> isalnum CHR ''}''" "\<not> isalnum CHR 0x22"
  by (simp_all add: isalnum_def isalpha_def isdigit_def)

lemma tolower_punct:
  assumes "isalnum d" "\<not> isalnum c"
  shows "tolower c \<noteq> tolower d"
proof
  assume "tolower c = tolower d"
  then have "isalnum (tolower c)" using alnum_range [OF assms(1)] by simp
  then show False using assms(2) by (auto simp: tolower_def isalnum_def isalpha_def Let_def split: if_splits)
qed

lemma skip_punct:
  assumes "key_ok label" "list_all (\<lambda>c. \<not> isalnum c) xs" "xs \<noteq> []"
  shows "field_loop label n prev (xs @ r) = field_loop label n (Some (last xs)) r"
  using assms(2,3)
proof (induction xs arbitrary: prev)
  case (Cons c xs)
  obtain d l where l: "label = d # l" "isalnum d" using assms(1) by (cases label) (auto simp: key_ok_def)
  have "\<not> scutil_key_at (c # xs @ r) label"
    using tolower_punct [OF l(2), of c] Cons.prems(1) l(1) by (simp add: scutil_key_at_def)
  then show ?case using Cons by (cases xs) simp_all
qed simp

lemma skip_word:
  assumes "\<not> (at_start prev \<and> scutil_key_at (xs @ r) label)" "list_all (\<lambda>c. \<not> at_start (Some c)) xs" "xs \<noteq> []"
  shows "field_loop label n prev (xs @ r) = field_loop label n (Some (last xs)) r"
  using assms
proof (induction xs arbitrary: prev)
  case (Cons c xs)
  have s: "field_loop label n prev ((c # xs) @ r) = field_loop label n (Some c) (xs @ r)"
    using Cons.prems(1) by auto
  have "xs \<noteq> [] \<Longrightarrow> field_loop label n (Some c) (xs @ r) = field_loop label n (Some (last xs)) r"
    using Cons.prems(2) by (intro Cons.IH) simp_all
  then show ?case unfolding s by (cases xs) simp_all
qed simp

lemma key_at_key:
  assumes "key_ok k" "key_ok label"
  shows "scutil_key_at (k @ CHR '' '' # r) label = strcaseeq k label"
proof -
  let ?n = "length label"
  consider "?n = length k" | "?n < length k" | "length k < ?n" by linarith
  then show ?thesis
  proof cases
    case 1
    then show ?thesis unfolding scutil_key_at_def strncaseeq_take strcaseeq_def by simp
  next
    case 2
    then have "drop ?n (k @ CHR '' '' # r) = k ! ?n # drop (Suc ?n) k @ CHR '' '' # r"
      by (simp add: Cons_nth_drop_Suc [symmetric])
    moreover have "isalnum (k ! ?n)" using assms(1) 2 by (simp add: key_ok_def list_all_length)
    ultimately have "\<not> scutil_key_at (k @ CHR '' '' # r) label"
      by (auto simp: scutil_key_at_def)
    moreover have "\<not> strcaseeq k label"
      using 2 unfolding strcaseeq_def by (metis length_map less_irrefl)
    ultimately show ?thesis by simp
  next
    case 3
    have "map tolower (take ?n (k @ CHR '' '' # r)) \<noteq> map tolower label"
    proof
      assume a: "map tolower (take ?n (k @ CHR '' '' # r)) = map tolower label"
      have "tolower (CHR '' '') = tolower (label ! length k)"
        using arg_cong [OF a, of "\<lambda>l. l ! length k"] 3
        by (metis a length_map nth_append_length nth_map nth_take)
      moreover have "isalnum (label ! length k)" using assms(2) 3 by (simp add: key_ok_def list_all_length)
      ultimately show False using tolower_punct [of "label ! length k" "CHR '' ''"] by simp
    qed
    moreover have "\<not> strcaseeq k label"
      using 3 unfolding strcaseeq_def by (metis length_map less_irrefl)
    ultimately show ?thesis by (simp add: scutil_key_at_def strncaseeq_take)
  qed
qed

lemma field_value_word:
  assumes "value_ok n label v"
  shows "field_value n ('' : '' @ v @ NL # r) = v"
proof -
  have v: "list_all (\<lambda>c. \<not> at_start (Some c) \<and> c \<noteq> CHR 0x22) v" "length v < n"
    "v \<noteq> [] \<Longrightarrow> hd v \<noteq> CHR '':'' \<and> last v \<noteq> CHR ''}''"
    using assms by (cases v; simp add: value_ok_def word_ok_def)+
  have d: "dropWhile (\<lambda>c. c = CHR '' '' \<or> c = TAB \<or> c = CHR '':'') ('' : '' @ v @ NL # r) = v @ NL # r"
    using v(1,3) by (cases v) (auto simp: at_start_def)
  have q: "(case v @ NL # r of [] \<Rightarrow> v @ NL # r | c # cs \<Rightarrow> if c = CHR 0x22 then cs else v @ NL # r) = v @ NL # r"
    using v(1) by (cases v) auto
  have t: "takeWhile (\<lambda>c. c \<noteq> NL \<and> c \<noteq> CR \<and> c \<noteq> CHR 0x22) (v @ NL # r) = v"
  proof -
    have "\<forall>c\<in>set v. c \<noteq> NL \<and> c \<noteq> CR \<and> c \<noteq> CHR 0x22" using v(1) by (auto simp: list_all_iff at_start_def)
    then show ?thesis using takeWhile_append2 [of v "\<lambda>c. c \<noteq> NL \<and> c \<noteq> CR \<and> c \<noteq> CHR 0x22" "NL # r"] by auto
  qed
  have "rtrim (\<lambda>c. c = CHR '' '' \<or> c = TAB \<or> c = CHR ''}'') v = v"
  proof (cases v rule: rev_cases)
    case (snoc w c)
    then show ?thesis using v(1,3) by (auto simp: rtrim_def at_start_def)
  qed (simp add: rtrim_def)
  then show ?thesis unfolding field_value_def Let_def d q t using v(2) by simp
qed

lemma field_loop_line:
  assumes "key_ok label" "key_ok k" "word_ok label v" "strcaseeq k label \<Longrightarrow> length v < n"
  shows "field_loop label n (Some NL) (show_line (k, v) @ r) =
    (if strcaseeq k label then Some v else field_loop label n (Some NL) r)"
proof -
  let ?r1 = "CHR '' '' # CHR '':'' # CHR '' '' # v @ NL # r"
  have line: "show_line (k, v) @ r = ''  '' @ k @ ?r1" by (simp add: show_line_def)
  have a: "field_loop label n (Some NL) (show_line (k, v) @ r) = field_loop label n (Some (CHR '' '')) (k @ ?r1)"
    unfolding line by (subst skip_punct [OF assms(1)]) simp_all
  have k: "k \<noteq> []" "list_all (\<lambda>c. \<not> at_start (Some c)) k"
    using assms(2) not_alnum by (auto simp: key_ok_def list_all_iff at_start_def)
  have st: "at_start (Some (CHR '' ''))" by (simp add: at_start_def)
  show ?thesis
  proof (cases "strcaseeq k label")
    case True
    then have l: "length label = length k" unfolding strcaseeq_def by (metis length_map)
    have "field_loop label n (Some (CHR '' '')) (k @ ?r1) = Some (field_value n (drop (length label) (k @ ?r1)))"
      using k(1) key_at_key [OF assms(2,1)] True st by (cases k) auto
    then show ?thesis unfolding a using field_value_word [where n = n and label = label and v = v and r = r] assms(3,4) l True by (simp add: value_ok_def)
  next
    case False
    have b: "field_loop label n (Some (CHR '' '')) (k @ ?r1) = field_loop label n (Some (last k)) ?r1"
      by (rule skip_word) (use False k key_at_key [OF assms(2,1)] in simp_all)
    have c: "field_loop label n (Some (last k)) ?r1 = field_loop label n (Some (CHR '' '')) (v @ NL # r)"
      using skip_punct [OF assms(1), of "'' : ''" n "Some (last k)" "v @ NL # r"] by simp
    have d: "field_loop label n (Some (CHR '' '')) (v @ NL # r) = field_loop label n (Some (if v = [] then CHR '' '' else last v)) (NL # r)"
    proof (cases "v = []")
      case v: False
      have "\<not> scutil_key_at (v @ NL # r) label"
      proof
        assume "scutil_key_at (v @ NL # r) label"
        then have m: "map tolower (take (length label) (v @ NL # r)) = map tolower label"
          by (simp add: scutil_key_at_def strncaseeq_take)
        show False
        proof (cases "length label \<le> length v")
          case True
          then show ?thesis using m assms(3) by (simp add: word_ok_def strncaseeq_take)
        next
          case False
          have "tolower NL = tolower (label ! length v)"
            using arg_cong [OF m, of "\<lambda>l. l ! length v"] False
            by (metis m length_map linorder_not_le nth_append_length nth_map nth_take)
          moreover have "isalnum (label ! length v)" using assms(1) False by (simp add: key_ok_def list_all_length)
          ultimately show ?thesis using tolower_punct [of "label ! length v" NL] by simp
        qed
      qed
      then show ?thesis using v assms(3)
        by (subst skip_word) (auto simp: word_ok_def list_all_iff)
    qed simp
    have e: "field_loop label n p (NL # r) = field_loop label n (Some NL) r" for p
      using skip_punct [OF assms(1), of "[NL]" n p r] by simp
    show ?thesis unfolding a b c d e using False by simp
  qed
qed

lemma field_of_dump:
  assumes "key_ok label" "\<forall>(k, v) \<in> set kvs. key_ok k \<and> word_ok label v" "length (entry_of label kvs) < n"
  shows "at_parse_scutil_field (Some (scutil_dump kvs)) (Some label) out n = entry_of label kvs"
proof -
  have lines: "field_loop label n (Some NL) (concat (map show_line kvs) @ ''}'') =
      map_option snd (find (\<lambda>(k, v). strcaseeq k label) kvs)"
    using assms(2,3)
  proof (induction kvs)
    case Nil
    show ?case using skip_punct [OF assms(1), of "''}''" n "Some NL" "[]"] by simp
  next
    case (Cons x kvs)
    obtain k v where x: "x = (k, v)" by (cases x)
    have "key_ok k" "word_ok label v" "strcaseeq k label \<Longrightarrow> length v < n"
      using Cons.prems x by (auto simp: entry_of_def)
    then show ?case
      using field_loop_line [OF assms(1), of k v n "concat (map show_line kvs) @ ''}''"] Cons x
      by (cases "strcaseeq k label") (simp_all add: entry_of_def)
  qed
  have "''<dictionary> {'' = ''<'' @ ''dictionary>'' @ '' {''" by simp
  have "field_loop label n None (scutil_dump kvs) =
      field_loop label n (Some (CHR ''<'')) (''dictionary>'' @ '' {'' @ [NL] @ concat (map show_line kvs) @ ''}'')"
    using skip_punct [OF assms(1), of "''<''" n None] by (simp add: scutil_dump_def)
  also have "\<dots> = field_loop label n (Some (CHR ''>'')) ('' {'' @ [NL] @ concat (map show_line kvs) @ ''}'')"
    by (subst skip_word) (simp_all add: at_start_def)
  also have "\<dots> = field_loop label n (Some NL) (concat (map show_line kvs) @ ''}'')"
    using skip_punct [OF assms(1), of "'' {'' @ [NL]" n "Some (CHR ''>'')"] by simp
  finally show ?thesis
    using assms(3) lines
    by (auto simp: at_parse_scutil_field_def entry_of_def split: option.splits)
qed

text \<open>
  Reading a key back out of a dictionary as \<open>scutil show\<close> prints it gives the value of that key
  (of the first one, compared without case), whole and without the trailing line; keys that only
  start with the label, as \<open>Kind6\<close> with \<open>Kind\<close>, are passed over, and an absent key reads as empty.
\<close>

theorem scutil_field_roundtrip:
  assumes "key_ok label" "0 < n" "\<forall>(k, v) \<in> set kvs. key_ok k \<and> value_ok n label v"
  shows "at_parse_scutil_field (Some (scutil_dump kvs)) (Some label) out n = entry_of label kvs"
proof (rule field_of_dump [OF assms(1)])
  show "\<forall>(k, v) \<in> set kvs. key_ok k \<and> word_ok label v" using assms(3) by (auto simp: value_ok_def)
  show "length (entry_of label kvs) < n"
    using assms(2,3) by (auto simp: entry_of_def value_ok_def find_Some_iff split: option.splits) (metis (no_types, lifting) case_prod_conv nth_mem)
qed

theorem scutil_field_roundtrip_witness:
  "at_parse_scutil_field (Some (scutil_dump [(''Kind6'', ''ipv6''), (''Kind'', ''ipv4'')])) (Some ''Kind'') '''' 32 = ''ipv4''"
proof -
  have "at_parse_scutil_field (Some (scutil_dump [(''Kind6'', ''ipv6''), (''Kind'', ''ipv4'')])) (Some ''Kind'') '''' 32 =
      entry_of ''Kind'' [(''Kind6'', ''ipv6''), (''Kind'', ''ipv4'')]"
    by (rule scutil_field_roundtrip)
      (simp_all add: key_ok_def value_ok_def word_ok_def at_start_def isalnum_def isalpha_def isdigit_def tolower_def)
  then show ?thesis by (simp add: entry_of_def strcaseeq_def)
qed

end
