(* ===== verification/UsbInfo.thy ===== *)
theory UsbInfo
  imports NetParse
begin

text \<open>
  Discovery of the phone, the first part of \<open>engine/src/usb_rndis.c\<close>: classification of interfaces and
  devices from the properties the I/O registry shows, the list of candidate devices and the search
  for the service of a chosen one. The registry and CoreFoundation are the environment: a node is the
  function from property keys to the values it has, a device also lists the nodes below it. A number is
  given by what \<open>CFNumberGetValue\<close> stores for \<open>kCFNumberSInt32Type\<close> (the code ignores whether it also
  reports success), a string by what \<open>CFStringGetCString\<close> leaves in a buffer of a given size.
\<close>

unbundle bit_operations_syntax

datatype at_device_kind = AT_KIND_UNKNOWN | AT_KIND_RNDIS | AT_KIND_ANDROID

record at_usb_device_info =
  di_vid :: u16
  di_pid :: u16
  di_location_id :: u32
  di_name :: string
  di_vendor :: string
  di_serial :: string
  di_kind :: at_device_kind
  di_control_ifc :: byte
  di_data_ifc :: byte

datatype cf_value = CFNumber u32 | CFString "nat \<Rightarrow> string" | CFOther

record reg_node =
  rn_props :: "string \<Rightarrow> cf_value option"
  rn_class :: "string option"

text \<open>The nodes below a device; \<open>None\<close> when no iterator could be created.\<close>

record reg_device = reg_node +
  rd_children :: "reg_node list option"

definition prop_u32 :: "(string \<Rightarrow> cf_value option) \<Rightarrow> string \<Rightarrow> u32" where
  "prop_u32 props key = (case props key of Some (CFNumber n) \<Rightarrow> n | _ \<Rightarrow> 0)"

definition cfstr_copy :: "cf_value \<Rightarrow> nat \<Rightarrow> string" where
  "cfstr_copy v n = (case v of CFString f \<Rightarrow> f n | _ \<Rightarrow> '''')"

definition prop_str :: "(string \<Rightarrow> cf_value option) \<Rightarrow> string \<Rightarrow> nat \<Rightarrow> string" where
  "prop_str props key n = (case props key of Some v \<Rightarrow> cfstr_copy v n | None \<Rightarrow> '''')"

section \<open>Classification\<close>

definition is_rndis_control :: "byte \<Rightarrow> byte \<Rightarrow> byte \<Rightarrow> bool" where
  "is_rndis_control cls sub proto =
     (if cls = 0xE0 \<and> sub = 0x01 \<and> proto = 0x03 then True
      else if cls = 0x02 \<and> sub = 0x02 \<and> proto = 0xFF then True
      else if cls = 0xEF \<and> sub = 0x04 \<and> proto = 0x01 then True
      else False)"

definition is_cdc_data :: "byte \<Rightarrow> byte \<Rightarrow> byte \<Rightarrow> bool" where
  "is_cdc_data cls sub proto = (cls = 0x0A)"

definition looks_android :: "byte \<Rightarrow> byte \<Rightarrow> byte \<Rightarrow> bool" where
  "looks_android cls sub proto =
     (if cls = 0xFF \<and> proto = 0x42 then True
      else if cls = 0x06 then True
      else if cls = 0xFF \<and> sub = 0x42 then True
      else if is_rndis_control cls sub proto \<or> is_cdc_data cls sub proto then True
      else False)"

definition node_byte :: "reg_node \<Rightarrow> string \<Rightarrow> byte" where
  "node_byte c key = ucast (prop_u32 (rn_props c) key)"

text \<open>One node below the device; the flag is \<open>saw_android\<close>.\<close>

definition inspect_child :: "reg_node \<Rightarrow> bool \<times> at_usb_device_info \<Rightarrow> bool \<times> at_usb_device_info" where
  "inspect_child child = (\<lambda>(saw, info).
     if rn_class child = Some ''IOUSBHostInterface'' \<or> rn_class child = Some ''IOUSBInterface'' then
       let cls = node_byte child ''bInterfaceClass'';
           sub = node_byte child ''bInterfaceSubClass'';
           proto = node_byte child ''bInterfaceProtocol'';
           num = node_byte child ''bInterfaceNumber'';
           saw = (if looks_android cls sub proto then True else saw);
           info = (if is_rndis_control cls sub proto \<and> di_kind info \<noteq> AT_KIND_RNDIS
                   then info\<lparr>di_kind := AT_KIND_RNDIS, di_control_ifc := num\<rparr> else info);
           info = (if is_cdc_data cls sub proto then info\<lparr>di_data_ifc := num\<rparr> else info)
       in (saw, info)
     else (saw, info))"

definition inspect_interfaces :: "reg_device \<Rightarrow> at_usb_device_info \<Rightarrow> at_usb_device_info" where
  "inspect_interfaces dev info =
     (case rd_children dev of None \<Rightarrow> info
      | Some cs \<Rightarrow>
          (let (saw, info) = fold inspect_child cs (False, info) in
           if di_kind info \<noteq> AT_KIND_RNDIS \<and> saw then info\<lparr>di_kind := AT_KIND_ANDROID\<rparr> else info))"

definition phone_keys :: "string list" where
  "phone_keys = [''samsung'', ''galaxy'', ''google'', ''pixel'', ''xiaomi'', ''redmi'', ''poco'',
     ''oneplus'', ''oppo'', ''vivo'', ''huawei'', ''honor'', ''sony'', ''xperia'',
     ''motorola'', ''nokia'', ''nothing'', ''asus'', ''rog phone'', ''lg '',
     ''android'', ''phone'']"

definition looks_phone_name :: "string \<Rightarrow> bool" where
  "looks_phone_name s =
     (s \<noteq> '''' \<and> (let lower = map tolower (take 127 s) in list_ex (strstr lower) phone_keys))"

definition hex4 :: "u16 \<Rightarrow> string" where
  "hex4 w = hex2 (unat (hi8 w)) @ hex2 (unat (lo8 w))"

definition fill_device_info :: "reg_device \<Rightarrow> at_usb_device_info" where
  "fill_device_info dev =
     (let p = rn_props dev; str = prop_str p;
          vid = ucast (prop_u32 p ''idVendor''); pid = ucast (prop_u32 p ''idProduct'');
          name = str ''USB Product Name'' 128;
          name = (if name = '''' then str ''kUSBProductString'' 128 else name);
          vendor = str ''USB Vendor Name'' 128;
          vendor = (if vendor = '''' then str ''kUSBVendorString'' 128 else vendor);
          serial = str ''USB Serial Number'' 64;
          serial = (if serial = '''' then str ''kUSBSerialNumberString'' 64 else serial);
          name = (if name = '''' then ''USB '' @ hex4 vid @ '':'' @ hex4 pid else name);
          info = inspect_interfaces dev
            \<lparr>di_vid = vid, di_pid = pid, di_location_id = prop_u32 p ''locationID'', di_name = name,
             di_vendor = vendor, di_serial = serial, di_kind = AT_KIND_UNKNOWN,
             di_control_ifc = 0, di_data_ifc = 0\<rparr>
      in if di_kind info = AT_KIND_UNKNOWN \<and>
            (looks_phone_name (di_name info) \<or> looks_phone_name (di_vendor info))
         then info\<lparr>di_kind := AT_KIND_ANDROID\<rparr> else info)"

section \<open>Listing and finding\<close>

fun list_loop :: "nat \<Rightarrow> reg_device list \<Rightarrow> at_usb_device_info list \<Rightarrow> at_usb_device_info list" where
  "list_loop max_out [] out = out"
| "list_loop max_out (svc # rest) out =
     (if length out \<ge> max_out then out
      else let info = fill_device_info svc in
        if di_vid info = 0 \<and> di_pid info = 0 then list_loop max_out rest out
        else if di_kind info = AT_KIND_UNKNOWN then list_loop max_out rest out
        else list_loop max_out rest (out @ [info]))"

text \<open>\<open>it\<close> is what \<open>usb_device_iterator\<close> gives: no iterator, or the services it yields.\<close>

definition at_usb_list_devices :: "reg_device list option \<Rightarrow> int \<Rightarrow> int \<times> at_usb_device_info list" where
  "at_usb_list_devices it max_out =
     (if max_out \<le> 0 then (-1, []) else
      case it of None \<Rightarrow> (0, []) | Some svcs \<Rightarrow> (0, list_loop (nat max_out) svcs []))"

definition service_matches :: "at_usb_device_info \<Rightarrow> at_usb_device_info \<Rightarrow> bool" where
  "service_matches want info =
     (if di_location_id want \<noteq> 0 \<and> di_location_id info = di_location_id want then True
      else if di_location_id want = 0 \<and> di_vid info = di_vid want \<and> di_pid info = di_pid want
      then di_serial want = '''' \<or> di_serial want = di_serial info
      else False)"

fun find_loop :: "at_usb_device_info \<Rightarrow> reg_device list \<Rightarrow> reg_device option" where
  "find_loop want [] = None"
| "find_loop want (svc # rest) =
     (if service_matches want (fill_device_info svc) then Some svc else find_loop want rest)"

definition find_service :: "reg_device list option \<Rightarrow> at_usb_device_info \<Rightarrow> reg_device option" where
  "find_service it want = (case it of None \<Rightarrow> None | Some svcs \<Rightarrow> find_loop want svcs)"

section \<open>What the list holds\<close>

definition candidate :: "at_usb_device_info \<Rightarrow> bool" where
  "candidate info \<longleftrightarrow> (di_vid info \<noteq> 0 \<or> di_pid info \<noteq> 0) \<and> di_kind info \<noteq> AT_KIND_UNKNOWN"

lemma list_loop_eq:
  "length out \<le> m \<Longrightarrow> list_loop m svcs out = out @ take (m - length out) (filter candidate (map fill_device_info svcs))"
proof (induction svcs arbitrary: out)
  case (Cons svc svcs)
  show ?case
  proof (cases "length out = m")
    case False
    then have "take (m - length out) (x # xs) = x # take (m - length (out @ [x])) xs" for x and xs :: "at_usb_device_info list"
      using Cons.prems by (simp add: take_Cons')
    then show ?thesis using Cons.IH [of out] Cons.IH [of "out @ [fill_device_info svc]"] Cons.prems False
      by (auto simp: Let_def candidate_def)
  qed simp
qed simp

definition is_interface :: "reg_node \<Rightarrow> bool" where
  "is_interface c \<longleftrightarrow> rn_class c = Some ''IOUSBHostInterface'' \<or> rn_class c = Some ''IOUSBInterface''"

definition node_is :: "(byte \<Rightarrow> byte \<Rightarrow> byte \<Rightarrow> bool) \<Rightarrow> reg_node \<Rightarrow> bool" where
  "node_is P c \<longleftrightarrow> is_interface c \<and>
     P (node_byte c ''bInterfaceClass'') (node_byte c ''bInterfaceSubClass'') (node_byte c ''bInterfaceProtocol'')"

definition ifc_num :: "reg_node \<Rightarrow> byte" where
  "ifc_num c = node_byte c ''bInterfaceNumber''"

definition nodes_of :: "(byte \<Rightarrow> byte \<Rightarrow> byte \<Rightarrow> bool) \<Rightarrow> reg_device \<Rightarrow> reg_node list" where
  "nodes_of P dev = (case rd_children dev of None \<Rightarrow> [] | Some cs \<Rightarrow> filter (node_is P) cs)"

lemma inspect_child_eq:
  "inspect_child c (saw, info) =
     (saw \<or> node_is looks_android c,
      info\<lparr>di_kind := (if node_is is_rndis_control c then AT_KIND_RNDIS else di_kind info),
           di_control_ifc := (if node_is is_rndis_control c \<and> di_kind info \<noteq> AT_KIND_RNDIS
                              then ifc_num c else di_control_ifc info),
           di_data_ifc := (if node_is is_cdc_data c then ifc_num c else di_data_ifc info)\<rparr>)"
  by (auto simp: inspect_child_def node_is_def is_interface_def ifc_num_def Let_def)

lemma inspect_fold:
  "\<exists>info'. fold inspect_child cs (saw, info) = (saw \<or> list_ex (node_is looks_android) cs, info') \<and>
     info' = info\<lparr>di_kind := (if list_ex (node_is is_rndis_control) cs then AT_KIND_RNDIS else di_kind info),
       di_control_ifc := (if di_kind info \<noteq> AT_KIND_RNDIS \<and> list_ex (node_is is_rndis_control) cs
                          then ifc_num (hd (filter (node_is is_rndis_control) cs)) else di_control_ifc info),
       di_data_ifc := (if list_ex (node_is is_cdc_data) cs
                       then ifc_num (last (filter (node_is is_cdc_data) cs)) else di_data_ifc info)\<rparr>"
proof (induction cs arbitrary: saw info)
  case (Cons c cs)
  have n: "list_ex P cs = (filter P cs \<noteq> [])" for P
    by (auto simp: list_ex_iff filter_empty_conv)
  show ?case
    using Cons.IH [of "saw \<or> node_is looks_android c"
        "info\<lparr>di_kind := (if node_is is_rndis_control c then AT_KIND_RNDIS else di_kind info),
           di_control_ifc := (if node_is is_rndis_control c \<and> di_kind info \<noteq> AT_KIND_RNDIS
                              then ifc_num c else di_control_ifc info),
           di_data_ifc := (if node_is is_cdc_data c then ifc_num c else di_data_ifc info)\<rparr>"]
    by (auto simp: inspect_child_eq n)
qed simp

text \<open>
  How the interfaces of a device are classified: it is an RNDIS device exactly if one of its
  interfaces has one of the three RNDIS class codes, the control interface is the first of these,
  and the data interface is the last CDC data interface of the whole device, 0 if it has none. So
  on a composite phone with another CDC function behind the RNDIS one, the data interface of that
  other function is taken.
\<close>

theorem interfaces_found:
  fixes dev :: reg_device
  defines "rndis \<equiv> nodes_of is_rndis_control dev" and "cdc \<equiv> nodes_of is_cdc_data dev"
  shows "(di_kind (fill_device_info dev) = AT_KIND_RNDIS) = (rndis \<noteq> []) \<and>
     di_control_ifc (fill_device_info dev) = (if rndis = [] then 0 else ifc_num (hd rndis)) \<and>
     di_data_ifc (fill_device_info dev) = (if cdc = [] then 0 else ifc_num (last cdc))"
proof -
  have n: "list_ex P cs = (filter P cs \<noteq> [])" for P and cs :: "reg_node list"
    by (auto simp: list_ex_iff filter_empty_conv)
  have i: "di_kind (inspect_interfaces dev info) =
        (if rndis \<noteq> [] then AT_KIND_RNDIS else if nodes_of looks_android dev \<noteq> [] then AT_KIND_ANDROID
         else AT_KIND_UNKNOWN) \<and>
      di_control_ifc (inspect_interfaces dev info) = (if rndis = [] then 0 else ifc_num (hd rndis)) \<and>
      di_data_ifc (inspect_interfaces dev info) = (if cdc = [] then 0 else ifc_num (last cdc))"
    if "di_kind info = AT_KIND_UNKNOWN" "di_control_ifc info = 0" "di_data_ifc info = 0" for info
  proof (cases "rd_children dev")
    case None
    then show ?thesis using that by (simp add: inspect_interfaces_def nodes_of_def rndis_def cdc_def)
  next
    case (Some cs)
    then show ?thesis using that inspect_fold [of cs False info]
      by (auto simp: inspect_interfaces_def nodes_of_def rndis_def cdc_def n)
  qed
  show ?thesis
    unfolding fill_device_info_def Let_def by (auto simp: i split: if_splits)
qed

text \<open>
  C0: the device list is exactly the first \<open>max_out\<close> devices, in registry order, that have an id and
  look like a phone or an RNDIS function, and never more than the caller has room for.
\<close>

theorem list_devices_exact:
  assumes "0 < m"
  shows "at_usb_list_devices (Some svcs) m = (0, take (nat m) (filter candidate (map fill_device_info svcs)))"
  using assms by (simp add: at_usb_list_devices_def list_loop_eq)

text \<open>A phone in tethering mode that also has a serial (CDC ACM) function.\<close>

definition sample_node :: "u32 \<Rightarrow> u32 \<Rightarrow> u32 \<Rightarrow> u32 \<Rightarrow> reg_node" where
  "sample_node cls sub proto num =
     \<lparr>rn_props = [''bInterfaceClass'' \<mapsto> CFNumber cls, ''bInterfaceSubClass'' \<mapsto> CFNumber sub,
        ''bInterfaceProtocol'' \<mapsto> CFNumber proto, ''bInterfaceNumber'' \<mapsto> CFNumber num],
      rn_class = Some ''IOUSBHostInterface''\<rparr>"

definition sample_phone :: reg_device where
  "sample_phone =
     \<lparr>rn_props = [''idVendor'' \<mapsto> CFNumber 0x04E8, ''idProduct'' \<mapsto> CFNumber 0x6863,
        ''locationID'' \<mapsto> CFNumber 0x14100000, ''USB Product Name'' \<mapsto> CFString (\<lambda>n. ''Galaxy'')],
      rn_class = Some ''IOUSBHostDevice'',
      rd_children = Some [sample_node 0xE0 1 3 0, sample_node 0x0A 0 0 1,
        sample_node 2 2 1 2, sample_node 0x0A 0 0 3]\<rparr>"

lemma sample_phone_info:
  "fill_device_info sample_phone =
     \<lparr>di_vid = 0x04E8, di_pid = 0x6863, di_location_id = 0x14100000, di_name = ''Galaxy'', di_vendor = '''',
      di_serial = '''', di_kind = AT_KIND_RNDIS, di_control_ifc = 0, di_data_ifc = 3\<rparr>"
  by (simp add: fill_device_info_def sample_phone_def sample_node_def prop_u32_def prop_str_def cfstr_copy_def
      inspect_interfaces_def inspect_child_def node_byte_def is_rndis_control_def is_cdc_data_def
      looks_android_def Let_def)

theorem list_devices_exact_witness:
  "at_usb_list_devices (Some [sample_phone]) 32 = (0, [fill_device_info sample_phone])"
  using list_devices_exact [of 32 "[sample_phone]"] by (simp add: sample_phone_info candidate_def)

end
