(* ===== verification/UsbRndis.thy ===== *)
theory UsbRndis
  imports UsbInfo Rndis
begin

text \<open>
  The USB transport, the second part of \<open>engine/src/usb_rndis.c\<close>: the RNDIS control channel with its
  request/response protocol and the initialisation of the phone, the synchronous and asynchronous
  bulk transfers, opening and closing. IOKit is the environment. Every call into it is recorded in
  \<open>u_calls\<close>; what the control endpoint answers is given by a device \<open>usb_dev\<close> with a state of its own,
  the other results are arguments. \<open>None\<close> is undefined behaviour.
\<close>

unbundle bit_operations_syntax

abbreviation (input) AT_MAX_TRANSFER :: u32 where "AT_MAX_TRANSFER \<equiv> 16384"
abbreviation (input) RNDIS_OID_GEN_MAXIMUM_FRAME_SIZE :: u32 where "RNDIS_OID_GEN_MAXIMUM_FRAME_SIZE \<equiv> 0x00010106"
abbreviation (input) RNDIS_OID_GEN_LINK_SPEED :: u32 where "RNDIS_OID_GEN_LINK_SPEED \<equiv> 0x00010107"
abbreviation (input) RNDIS_OID_GEN_CURRENT_PACKET_FILTER :: u32 where "RNDIS_OID_GEN_CURRENT_PACKET_FILTER \<equiv> 0x0001010E"
abbreviation (input) RNDIS_OID_802_3_PERMANENT_ADDRESS :: u32 where "RNDIS_OID_802_3_PERMANENT_ADDRESS \<equiv> 0x01010101"
abbreviation (input) RNDIS_OID_802_3_CURRENT_ADDRESS :: u32 where "RNDIS_OID_802_3_CURRENT_ADDRESS \<equiv> 0x01010102"

datatype io_return = IOSuccess | IOUnderrun | IOTimeout | IOAborted | IOTransactionTimeout
  | IOPipeStalled | IONotOpen | IONoDevice | IONotResponding | IOOffline | IOError u32

datatype usb_ifc = DataIfc | CtlIfc

datatype usb_call =
    USvcFound | USvcRelease | UDevCreate | UDevOpenSeize | UDevOpen | UDevClose | UDevRelease
  | UIfcCreate usb_ifc byte | UIfcDrop usb_ifc byte | UIfcOpenSeize usb_ifc byte | UIfcOpen usb_ifc byte
  | UIfcClose usb_ifc | UIfcRelease usb_ifc | USetAlternate byte
  | UCtlOut byte buf | UCtlIn byte nat io_return buf | UReadIntr byte nat
  | UWritePipe usb_ifc byte buf | UReadPipe usb_ifc byte nat nat | UClearStall usb_ifc byte
  | UAbortPipe usb_ifc byte | UReadAsync usb_ifc byte nat nat | UWriteAsync usb_ifc byte nat
  | UCreateSource | UAddSource | URemoveSource | UReleaseSource | UWakeUp
  | UPortCreate | UPortDestroy | UAddInterest | UReleaseInterest | URunLoop

text \<open>A transfer slot: the \<open>busy\<close> flag and the buffer, by number.\<close>

record urb =
  urb_busy :: bool
  urb_buf :: "nat option"

record at_usb =
  u_dev :: bool
  u_control_ifc :: bool
  u_data_ifc :: bool
  u_device_service :: bool
  u_notify_port :: bool
  u_interest :: bool
  u_gone :: bool
  u_control_num :: byte
  u_data_num :: byte
  u_bulk_in :: byte
  u_bulk_out :: byte
  u_interrupt_in :: byte
  u_xid :: u32
  u_max_xfer :: u32
  u_max_packets :: u32
  u_packet_align_shift :: u32
  u_bus_mbps :: u32
  u_rndis_link_mbps :: u32
  u_max_frame :: u32
  u_opened :: bool
  u_async_rl :: bool
  u_async_src :: bool
  u_in_cb :: bool
  u_out_cb :: bool
  u_in_urb :: "urb list"
  u_out_urb :: urb
  u_calls :: "usb_call list"

definition ucall :: "usb_call \<Rightarrow> at_usb \<Rightarrow> at_usb" where
  "ucall c u = u\<lparr>u_calls := u_calls u @ [c]\<rparr>"

text \<open>
  The control endpoint: SEND_ENCAPSULATED_COMMAND, GET_ENCAPSULATED_RESPONSE (result and the bytes
  transferred, for a request of at most \<open>wLength\<close> bytes), and a read of the interrupt pipe.
\<close>

record 'w usb_dev =
  dv_out :: "byte \<Rightarrow> buf \<Rightarrow> 'w \<Rightarrow> io_return \<times> 'w"
  dv_in :: "byte \<Rightarrow> nat \<Rightarrow> 'w \<Rightarrow> (io_return \<times> buf) \<times> 'w"
  dv_intr :: "'w \<Rightarrow> io_return \<times> 'w"

section \<open>The control channel\<close>

definition next_xid :: "at_usb \<Rightarrow> u32 \<times> at_usb" where
  "next_xid u =
     (let u = u\<lparr>u_xid := u_xid u + 1\<rparr>; u = (if u_xid u = 0 then u\<lparr>u_xid := 1\<rparr> else u) in (u_xid u, u))"

definition control_out :: "'w usb_dev \<Rightarrow> buf \<Rightarrow> at_usb \<times> 'w \<Rightarrow> int \<times> at_usb \<times> 'w" where
  "control_out dv msg = (\<lambda>(u, w).
     if \<not> u_control_ifc u \<or> u_gone u then (-1, u, w) else
     let (r, w) = dv_out dv (u_control_num u) msg w; u = ucall (UCtlOut (u_control_num u) msg) u in
     (if r \<noteq> IOSuccess then -1 else 0, u, w))"

text \<open>\<open>got\<close> is the returned length; the bytes are stored at the start of \<open>resp\<close>.\<close>

definition control_in :: "'w usb_dev \<Rightarrow> buf \<Rightarrow> nat \<Rightarrow> at_usb \<times> 'w \<Rightarrow> (int \<times> buf \<times> nat \<times> at_usb \<times> 'w) option" where
  "control_in dv resp cap = (\<lambda>(u, w).
     if \<not> u_control_ifc u then None else
     let ((r, dat), w) = dv_in dv (u_control_num u) cap w; u = ucall (UCtlIn (u_control_num u) cap r dat) u in
     if r \<noteq> IOSuccess then Some (-1, resp, 0, u, w)
     else do { resp \<leftarrow> store_bytes resp 0 dat; Some (0, resp, length dat, u, w) })"

definition answer_keepalive :: "'w usb_dev \<Rightarrow> u32 \<Rightarrow> at_usb \<times> 'w \<Rightarrow> (at_usb \<times> 'w) option" where
  "answer_keepalive dv rid s = do {
     (klen, km) \<leftarrow> rndis_build_keepalive_cmplt (replicate 16 0) rid;
     m \<leftarrow> load_bytes km 0 klen;
     Some (snd (control_out dv m s)) }"

text \<open>The polling loop of \<open>rndis_rpc\<close>; the first argument counts the attempts that are left.\<close>

fun rpc_loop :: "nat \<Rightarrow> 'w usb_dev \<Rightarrow> buf \<Rightarrow> u32 \<Rightarrow> at_usb \<times> 'w \<Rightarrow> (int \<times> buf \<times> nat \<times> at_usb \<times> 'w) option" where
  "rpc_loop 0 dv resp expect_id s = Some (-1, resp, 0, s)"
| "rpc_loop (Suc i) dv resp expect_id s = do {
     resp \<leftarrow> store_bytes resp 0 (replicate (length resp) 0);
     (rc, resp, got, s) \<leftarrow> control_in dv resp (min (length resp) 1024) s;
     (if rc = 0 \<and> got \<ge> 8 then do {
        type \<leftarrow> load32 resp 0;
        rid \<leftarrow> (if got \<ge> 12 then load32 resp 8 else Some 0);
        (if type = RNDIS_MSG_KEEPALIVE then do {
           s \<leftarrow> answer_keepalive dv rid s;
           rpc_loop i dv resp expect_id s }
         else if type = RNDIS_MSG_INDICATE_STATUS then do {
           m \<leftarrow> load_bytes resp 0 got;
           st \<leftarrow> rndis_parse_status m;
           rpc_loop i dv resp expect_id s }
         else if rid = expect_id \<or> expect_id = 0 then Some (0, resp, got, s)
         else rpc_loop i dv resp expect_id s) }
      else rpc_loop i dv resp expect_id s) }"

definition rndis_rpc :: "'w usb_dev \<Rightarrow> buf \<Rightarrow> buf \<Rightarrow> u32 \<Rightarrow> at_usb \<times> 'w \<Rightarrow> (int \<times> buf \<times> nat \<times> at_usb \<times> 'w) option" where
  "rndis_rpc dv msg resp expect_id s =
     (case control_out dv msg s of (rc, u, w) \<Rightarrow>
        if rc \<noteq> 0 then Some (-1, resp, 0, u, w) else
        let (u, w) = (if u_interrupt_in u \<noteq> 0 \<and> u_control_ifc u
                      then (ucall (UReadIntr (u_interrupt_in u) 50) u, snd (dv_intr dv w)) else (u, w))
        in rpc_loop 12 dv resp expect_id (u, w))"

section \<open>Initialisation\<close>

definition clamp_init :: "rndis_init_result \<Rightarrow> at_usb \<Rightarrow> at_usb" where
  "clamp_init init u =
     (let u = (if max_transfer_size init \<ge> 1024 \<and> max_transfer_size init \<le> AT_MAX_TRANSFER
               then u\<lparr>u_max_xfer := max_transfer_size init\<rparr> else u);
          u = u\<lparr>u_max_packets := (if max_packets_per_xfer init \<noteq> 0 then max_packets_per_xfer init else 1)\<rparr>;
          u = (if u_max_packets u > 32 then u\<lparr>u_max_packets := 32\<rparr> else u);
          u = u\<lparr>u_packet_align_shift := packet_alignment init\<rparr>;
          u = (if u_packet_align_shift u < 2 then u\<lparr>u_packet_align_shift := 2\<rparr> else u)
      in if u_packet_align_shift u > 8 then u\<lparr>u_packet_align_shift := 8\<rparr> else u)"

text \<open>A QUERY: what the RPC returned and, if it succeeded, the parsed information buffer.\<close>

definition query_oid ::
  "'w usb_dev \<Rightarrow> buf \<Rightarrow> buf \<Rightarrow> u32 \<Rightarrow> buf option \<Rightarrow> u32 \<Rightarrow> at_usb \<times> 'w \<Rightarrow> (buf option \<times> buf \<times> buf \<times> at_usb \<times> 'w) option" where
  "query_oid dv msg resp oid inp n = (\<lambda>(u, w).
     let (i, u) = next_xid u in do {
       (mlen, msg) \<leftarrow> rndis_build_query msg i oid inp n;
       m \<leftarrow> load_bytes msg 0 mlen;
       (rc, resp, rlen, s) \<leftarrow> (if mlen = 0 then Some (-1, resp, 0, u, w) else rndis_rpc dv m resp i (u, w));
       (if rc \<noteq> 0 then Some (None, msg, resp, s) else do {
          r \<leftarrow> load_bytes resp 0 rlen;
          (q, info) \<leftarrow> rndis_parse_query_cmplt r i;
          (case info of
             Some (start, ilen) \<Rightarrow>
               if q = 0 then do { d \<leftarrow> load_bytes resp start ilen; Some (Some d, msg, resp, s) }
               else Some (None, msg, resp, s)
           | None \<Rightarrow> Some (None, msg, resp, s)) }) })"

fun mac_loop :: "'w usb_dev \<Rightarrow> u32 list \<Rightarrow> buf \<Rightarrow> buf \<Rightarrow> at_usb \<times> 'w \<Rightarrow> (buf option \<times> buf \<times> buf \<times> at_usb \<times> 'w) option" where
  "mac_loop dv [] msg resp s = Some (None, msg, resp, s)"
| "mac_loop dv (oid # oids) msg resp s = do {
     (info, msg, resp, s) \<leftarrow> query_oid dv msg resp oid (Some (replicate 48 0)) 48 s;
     (case info of
        Some d \<Rightarrow> if length d \<ge> 6 then do { mac \<leftarrow> load_bytes d 0 6; Some (Some mac, msg, resp, s) }
                  else mac_loop dv oids msg resp s
      | None \<Rightarrow> mac_loop dv oids msg resp s) }"

definition fallback_mac :: buf where
  "fallback_mac = [0x0A, 0x54, 0x48, 0x00, 0x00, 0x01]"

definition query_capacity :: "'w usb_dev \<Rightarrow> at_usb \<times> 'w \<Rightarrow> (at_usb \<times> 'w) option" where
  "query_capacity dv s = do {
     (info, qmsg, qresp, u, w) \<leftarrow> query_oid dv (replicate 1024 0) (replicate 1024 0) RNDIS_OID_GEN_LINK_SPEED None 0 s;
     u \<leftarrow> (case info of
        Some d \<Rightarrow> if length d \<ge> 4
          then do { speed100 \<leftarrow> load32 d 0;
                    Some (if speed100 > 0 then u\<lparr>u_rndis_link_mbps := speed100 div 10000\<rparr> else u) }
          else Some u
      | None \<Rightarrow> Some u);
     (info, qmsg, qresp, u, w) \<leftarrow> query_oid dv qmsg qresp RNDIS_OID_GEN_MAXIMUM_FRAME_SIZE None 0 (u, w);
     u \<leftarrow> (case info of
        Some d \<Rightarrow> if length d \<ge> 4 then do { frame \<leftarrow> load32 d 0; Some (u\<lparr>u_max_frame := frame\<rparr>) } else Some u
      | None \<Rightarrow> Some u);
     Some (u, w) }"

text \<open>DIRECTED, BROADCAST, ALL_MULTICAST and PROMISCUOUS.\<close>

abbreviation (input) RNDIS_DEFAULT_FILTER :: u32 where "RNDIS_DEFAULT_FILTER \<equiv> 0x2D"

definition set_filter :: "'w usb_dev \<Rightarrow> buf \<Rightarrow> buf \<Rightarrow> at_usb \<times> 'w \<Rightarrow> (int \<times> at_usb \<times> 'w) option" where
  "set_filter dv msg resp = (\<lambda>(u, w). do {
     filt \<leftarrow> at_wr32le (replicate 4 0) 0 RNDIS_DEFAULT_FILTER;
     (let (i, u) = next_xid u in do {
        (mlen, msg) \<leftarrow> rndis_build_set msg i RNDIS_OID_GEN_CURRENT_PACKET_FILTER filt 4;
        m \<leftarrow> load_bytes msg 0 mlen;
        (rc, resp, rlen, s) \<leftarrow> rndis_rpc dv m resp i (u, w);
        (if rc = 0 then do { r \<leftarrow> load_bytes resp 0 rlen; rc \<leftarrow> rndis_parse_set_cmplt r i; Some (rc, s) }
         else Some (rc, s)) }) })"

definition rndis_init_zero :: rndis_init_result where
  "rndis_init_zero = \<lparr>max_transfer_size = 0, max_packets_per_xfer = 0, packet_alignment = 0, device_flags = 0, medium = 0\<rparr>"

text \<open>The INITIALIZE exchange: the first part, up to the completion.\<close>

definition init_exchange :: "'w usb_dev \<Rightarrow> buf \<Rightarrow> buf \<Rightarrow> at_usb \<times> 'w \<Rightarrow> (int \<times> rndis_init_result \<times> buf \<times> buf \<times> at_usb \<times> 'w) option" where
  "init_exchange dv msg resp = (\<lambda>(u, w).
     let (i, u) = next_xid u in do {
       (mlen, msg) \<leftarrow> rndis_build_initialize msg i AT_MAX_TRANSFER;
       m \<leftarrow> load_bytes msg 0 mlen;
       (rc, resp, rlen, s) \<leftarrow> rndis_rpc dv m resp i (u, w);
       (rc, init) \<leftarrow> (if rc = 0
          then do { r \<leftarrow> load_bytes resp 0 rlen; rndis_parse_initialize_cmplt r i rndis_init_zero }
          else Some (rc, rndis_init_zero));
       Some (rc, init, msg, resp, s) })"

text \<open>The return value, and what is stored through \<open>mac_out\<close> and \<open>init_out\<close>.\<close>

definition at_usb_rndis_init ::
  "'w usb_dev \<Rightarrow> at_usb \<times> 'w \<Rightarrow> (int \<times> buf option \<times> rndis_init_result option \<times> at_usb \<times> 'w) option" where
  "at_usb_rndis_init dv = (\<lambda>(u, w).
     if \<not> u_opened u then Some (-1, None, None, u, w) else do {
       (rc, init, msg, resp, u, w) \<leftarrow> init_exchange dv (replicate 1024 0) (replicate 1024 0) (u, w);
       (if rc \<noteq> 0 then Some (-1, None, None, u, w) else
        let u = clamp_init init u in do {
          (got, msg, resp, s) \<leftarrow> mac_loop dv [RNDIS_OID_802_3_PERMANENT_ADDRESS, RNDIS_OID_802_3_CURRENT_ADDRESS] msg resp (u, w);
          (let mac = (case got of Some m \<Rightarrow> m | None \<Rightarrow> fallback_mac) in do {
             s \<leftarrow> query_capacity dv s;
             (rc, s) \<leftarrow> set_filter dv msg resp s;
             Some (if rc \<noteq> 0 then -1 else 0, Some mac, Some init, s) }) }) })"

definition at_usb_is_gone :: "at_usb option \<Rightarrow> bool" where
  "at_usb_is_gone u = (case u of None \<Rightarrow> True | Some u \<Rightarrow> u_gone u)"

definition at_usb_rndis_halt :: "'w usb_dev \<Rightarrow> at_usb \<times> 'w \<Rightarrow> (int \<times> at_usb \<times> 'w) option" where
  "at_usb_rndis_halt dv = (\<lambda>(u, w).
     if \<not> u_opened u then Some (-1, u, w)
     else if at_usb_is_gone (Some u) then Some (0, u, w)
     else let (i, u) = next_xid u in do {
       (mlen, msg) \<leftarrow> rndis_build_halt (replicate 16 0) i;
       m \<leftarrow> load_bytes msg 0 mlen;
       (let (rc, s) = control_out dv m (u, w) in Some (0, s)) })"

definition at_usb_poll_interrupt :: "'w usb_dev \<Rightarrow> nat \<Rightarrow> at_usb \<times> 'w \<Rightarrow> int \<times> at_usb \<times> 'w" where
  "at_usb_poll_interrupt dv timeout_ms = (\<lambda>(u, w).
     if u_interrupt_in u = 0 then (0, u, w)
     else if \<not> u_control_ifc u then (0, u, w)
     else let (r, w) = dv_intr dv w; u = ucall (UReadIntr (u_interrupt_in u) timeout_ms) u in
       (if r \<noteq> IOSuccess then 0 else 1, u, w))"

definition at_usb_handle_control_events :: "'w usb_dev \<Rightarrow> at_usb \<times> 'w \<Rightarrow> (int \<times> at_usb \<times> 'w) option" where
  "at_usb_handle_control_events dv s = do {
     (rc, resp, got, s) \<leftarrow> control_in dv (replicate 1024 0) 1024 s;
     (if rc = 0 \<and> got \<ge> 8 then do {
        type \<leftarrow> load32 resp 0;
        rid \<leftarrow> (if got \<ge> 12 then load32 resp 8 else Some 0);
        s \<leftarrow> (if type = RNDIS_MSG_KEEPALIVE then answer_keepalive dv rid s else Some s);
        Some (0, s) }
      else Some (0, s)) }"

definition at_usb_keepalive :: "'w usb_dev \<Rightarrow> at_usb \<times> 'w \<Rightarrow> (int \<times> at_usb \<times> 'w) option" where
  "at_usb_keepalive dv = (\<lambda>(u, w).
     let (i, u) = next_xid u in do {
       (mlen, msg) \<leftarrow> rndis_build_keepalive (replicate 16 0) i;
       m \<leftarrow> load_bytes msg 0 mlen;
       (rc, resp, rlen, s) \<leftarrow> rndis_rpc dv m (replicate 1024 0) i (u, w);
       Some (rc, s) })"

section \<open>The request/response protocol\<close>

text \<open>A device that never transfers more than it was asked for, as IOKit guarantees.\<close>

definition dv_bounded :: "'w usb_dev \<Rightarrow> bool" where
  "dv_bounded dv \<longleftrightarrow> (\<forall>n cap w. length (snd (fst (dv_in dv n cap w))) \<le> cap)"

text \<open>Classification of a response: result of the request and the bytes received.\<close>

type_synonym reply = "io_return \<times> buf"

definition rep_ok :: "reply \<Rightarrow> bool" where
  "rep_ok r \<longleftrightarrow> fst r = IOSuccess \<and> 8 \<le> length (snd r)"

definition rep_id :: "reply \<Rightarrow> u32" where
  "rep_id r = (if 12 \<le> length (snd r) then word_at (snd r) 8 else 0)"

definition is_keepalive :: "reply \<Rightarrow> bool" where
  "is_keepalive r \<longleftrightarrow> rep_ok r \<and> word_at (snd r) 0 = RNDIS_MSG_KEEPALIVE"

definition accepted :: "u32 \<Rightarrow> reply \<Rightarrow> bool" where
  "accepted x r \<longleftrightarrow> rep_ok r \<and> word_at (snd r) 0 \<noteq> RNDIS_MSG_KEEPALIVE \<and>
     word_at (snd r) 0 \<noteq> RNDIS_MSG_INDICATE_STATUS \<and> (rep_id r = x \<or> x = 0)"

definition keepalive_reply :: "u32 \<Rightarrow> buf" where
  "keepalive_reply rid = words [0x80000008, 16, rid, 0]"

text \<open>
  The calls of one attempt on interface \<open>n\<close>: the read and, for a KEEPALIVE, its completion (unless
  the device is already known to be gone).
\<close>

definition attempt :: "bool \<Rightarrow> byte \<Rightarrow> reply \<Rightarrow> usb_call list" where
  "attempt gone n r = UCtlIn n 1024 (fst r) (snd r) #
     (if is_keepalive r \<and> \<not> gone then [UCtlOut n (keepalive_reply (rep_id r))] else [])"

definition resp_of :: "reply \<Rightarrow> buf" where
  "resp_of r = snd r @ replicate (1024 - length (snd r)) 0"

text \<open>What a polling loop of \<open>i\<close> attempts makes of the responses it receives.\<close>

definition rpc_outcome :: "nat \<Rightarrow> u32 \<Rightarrow> reply list \<Rightarrow> int \<Rightarrow> buf \<Rightarrow> nat \<Rightarrow> bool" where
  "rpc_outcome i x rs rc resp got \<longleftrightarrow> length rs \<le> i \<and> list_all (\<lambda>r. length (snd r) \<le> 1024) rs \<and> length resp = 1024 \<and>
     (if rs \<noteq> [] \<and> accepted x (last rs)
      then rc = 0 \<and> resp = resp_of (last rs) \<and> got = length (snd (last rs)) \<and>
        list_all (\<lambda>r. \<not> accepted x r) (butlast rs)
      else rc = -1 \<and> got = 0 \<and> length rs = i \<and> list_all (\<lambda>r. \<not> accepted x r) rs)"

definition with_calls :: "usb_call list \<Rightarrow> at_usb \<Rightarrow> at_usb" where
  "with_calls cs u = u\<lparr>u_calls := u_calls u @ cs\<rparr>"

lemma with_calls_simps [simp]:
  "with_calls [] u = u" "with_calls ds (with_calls cs u) = with_calls (cs @ ds) u"
  "u_control_ifc (with_calls cs u) = u_control_ifc u" "u_gone (with_calls cs u) = u_gone u"
  "u_control_num (with_calls cs u) = u_control_num u" "u_calls (with_calls cs u) = u_calls u @ cs"
  "u_interrupt_in (with_calls cs u) = u_interrupt_in u" "u_opened (with_calls cs u) = u_opened u"
  "u_xid (with_calls cs u) = u_xid u"
  by (simp_all add: with_calls_def)

lemma ucall_with: "ucall c u = with_calls [c] u"
  by (simp add: ucall_def with_calls_def)

lemma control_out_log:
  assumes "u_control_ifc u"
  obtains rc w' where "control_out dv m (u, w) =
    (rc, with_calls (if u_gone u then [] else [UCtlOut (u_control_num u) m]) u, w')"
    "rc = 0 \<or> rc = -1" "u_gone u \<Longrightarrow> rc = -1 \<and> w' = w"
    "\<not> u_gone u \<Longrightarrow> w' = snd (dv_out dv (u_control_num u) m w) \<and> (rc = 0) = (fst (dv_out dv (u_control_num u) m w) = IOSuccess)"
proof (cases "u_gone u")
  case False
  obtain q w' where q: "dv_out dv (u_control_num u) m w = (q, w')" by fastforce
  show thesis
    by (rule that [of "if q \<noteq> IOSuccess then -1 else 0" w'])
      (use assms q False in \<open>simp_all add: control_out_def ucall_with\<close>)
qed (use assms that [of "-1" w] in \<open>simp add: control_out_def\<close>)

lemma answer_keepalive_eq:
  "answer_keepalive dv rid s = Some (snd (control_out dv (keepalive_reply rid) s))"
  by (simp add: answer_keepalive_def control_message_layout keepalive_reply_def load_bytes_def)

lemma rpc_outcome_Suc:
  assumes "rpc_outcome i x rs rc resp got" "\<not> accepted x r" "length (snd r) \<le> 1024"
  shows "rpc_outcome (Suc i) x (r # rs) rc resp got"
  using assms by (cases "rs = []") (auto simp: rpc_outcome_def)

text \<open>One attempt, up to the decision what the response is.\<close>

lemma control_in_reply:
  assumes "dv_bounded dv" "u_control_ifc u" "length resp = 1024"
  obtains r w' where "store_bytes resp 0 (replicate 1024 0) = Some (replicate 1024 0)"
    "length (snd r) \<le> 1024"
    "control_in dv (replicate 1024 0) 1024 (u, w) = Some
       (if fst r = IOSuccess then 0 else -1, if fst r = IOSuccess then resp_of r else replicate 1024 0,
        if fst r = IOSuccess then length (snd r) else 0,
        with_calls [UCtlIn (u_control_num u) 1024 (fst r) (snd r)] u, w')"
proof -
  obtain q d w' where r: "dv_in dv (u_control_num u) 1024 w = ((q, d), w')" by (metis prod.exhaust)
  then have l: "length d \<le> 1024" using assms(1) unfolding dv_bounded_def by (metis fst_conv snd_conv)
  have z: "store_bytes resp 0 (replicate 1024 0) = Some (replicate 1024 0)"
    using assms(3) by (simp add: store_bytes_def splice_at_def)
  have c: "store_bytes (replicate 1024 0) 0 d = Some (resp_of (q, d))"
    using l by (simp add: store_bytes_def splice_at_def resp_of_def)
  show thesis
    by (rule that [of "(q, d)", OF z]) (use l r c assms(2) in \<open>simp_all add: control_in_def ucall_with\<close>)
qed

lemma resp_of_load:
  assumes "length (snd r) \<le> 1024" "rep_ok r"
  shows "load32 (resp_of r) 0 = Some (word_at (snd r) 0)"
    "(if 12 \<le> length (snd r) then load32 (resp_of r) 8 else Some 0) = Some (rep_id r)"
proof -
  have w: "word_at (snd r @ z) i = word_at (snd r) i" if "i + 4 \<le> length (snd r)" for i and z :: buf
    using that by (simp add: nth_append)
  have l: "length (resp_of r) = 1024" using assms(1) by (simp add: resp_of_def)
  show "load32 (resp_of r) 0 = Some (word_at (snd r) 0)"
    using load32_Some [of 0 "resp_of r"] l w [of 0] assms(2) by (simp add: rep_ok_def resp_of_def)
  show "(if 12 \<le> length (snd r) then load32 (resp_of r) 8 else Some 0) = Some (rep_id r)"
    using load32_Some [of 8 "resp_of r"] l w [of 8] by (simp add: rep_id_def resp_of_def)
qed

lemma rpc_loop_spec:
  assumes "dv_bounded dv" "u_control_ifc u" "length resp = 1024"
  shows "\<exists>rs rc resp' got w'. rpc_loop i dv resp x (u, w) =
      Some (rc, resp', got, with_calls (concat (map (attempt (u_gone u) (u_control_num u)) rs)) u, w') \<and>
    rpc_outcome i x rs rc resp' got"
  using assms(2,3)
proof (induction i arbitrary: u resp w)
  case 0
  then show ?case by (intro exI [of _ "[]"]) (simp add: rpc_outcome_def)
next
  case (Suc i)
  obtain r w1 where r: "store_bytes resp 0 (replicate 1024 0) = Some (replicate 1024 0)"
    "length (snd r) \<le> 1024"
    "control_in dv (replicate 1024 0) 1024 (u, w) = Some
       (if fst r = IOSuccess then 0 else -1, if fst r = IOSuccess then resp_of r else replicate 1024 0,
        if fst r = IOSuccess then length (snd r) else 0,
        with_calls [UCtlIn (u_control_num u) 1024 (fst r) (snd r)] u, w1)"
    by (rule control_in_reply [OF assms(1) Suc.prems])
  let ?n = "u_control_num u" and ?u1 = "with_calls [UCtlIn (u_control_num u) 1024 (fst r) (snd r)] u"
  let ?log = "\<lambda>rs. concat (map (attempt (u_gone u) ?n) rs)"
  note step = rpc_loop.simps(2) [of i dv resp x "(u, w)"] r(1,3)
  define resp1 where "resp1 = (if fst r = IOSuccess then resp_of r else replicate 1024 0)"
  have l1: "length resp1 = 1024" using r(2) by (simp add: resp1_def resp_of_def)
  have go: "?case" if "rpc_loop (Suc i) dv resp x (u, w) = rpc_loop i dv resp1 x (with_calls cs u, w2)"
    "cs = ?log [r]" "\<not> accepted x r" for cs w2
  proof -
    obtain rs rc resp' got w' where ih: "rpc_loop i dv resp1 x (with_calls cs u, w2) =
        Some (rc, resp', got, with_calls (?log rs) (with_calls cs u), w')" "rpc_outcome i x rs rc resp' got"
      using Suc.IH [of "with_calls cs u" resp1 w2] Suc.prems(1) l1 by auto
    show ?thesis
      by (rule exI [of _ "r # rs"]) (use ih that rpc_outcome_Suc [OF ih(2) that(3) r(2)] in auto)
  qed
  show ?case
  proof (cases "rep_ok r")
    case False
    have "rpc_loop (Suc i) dv resp x (u, w) = rpc_loop i dv resp1 x (?u1, w1)"
      using False Suc.prems(2) by (auto simp: step rep_ok_def resp1_def)
    then show ?thesis
      by (rule go) (use False in \<open>simp_all add: attempt_def is_keepalive_def accepted_def\<close>)
  next
    case ok: True
    then have s: "fst r = IOSuccess" "8 \<le> length (snd r)" by (simp_all add: rep_ok_def)
    note ld = resp_of_load [OF r(2) ok]
    have st: "\<exists>st. load_bytes (resp_of r) 0 (length (snd r)) \<bind> rndis_parse_status = Some st"
      using r(2) by (simp add: load_bytes_def resp_of_def rndis_parse_status_def buf_simps)
    consider "word_at (snd r) 0 = RNDIS_MSG_KEEPALIVE" | "word_at (snd r) 0 = RNDIS_MSG_INDICATE_STATUS"
      | "word_at (snd r) 0 \<noteq> RNDIS_MSG_KEEPALIVE" "word_at (snd r) 0 \<noteq> RNDIS_MSG_INDICATE_STATUS" "accepted x r"
      | "word_at (snd r) 0 \<noteq> RNDIS_MSG_KEEPALIVE" "word_at (snd r) 0 \<noteq> RNDIS_MSG_INDICATE_STATUS" "\<not> accepted x r"
      by blast
    then show ?thesis
    proof cases
      case 1
      have k: "is_keepalive r" using 1 ok by (simp add: is_keepalive_def)
      have u1: "u_control_ifc ?u1" "u_gone ?u1 = u_gone u" "u_control_num ?u1 = ?n" using Suc.prems(1) by simp_all
      obtain rc w2 where "control_out dv (keepalive_reply (rep_id r)) (?u1, w1) =
          (rc, with_calls (if u_gone u then [] else [UCtlOut ?n (keepalive_reply (rep_id r))]) ?u1, w2)"
        by (rule control_out_log [OF u1(1), unfolded u1(2,3)])
      then have co: "snd (control_out dv (keepalive_reply (rep_id r)) (?u1, w1)) =
          (with_calls (if u_gone u then [] else [UCtlOut ?n (keepalive_reply (rep_id r))]) ?u1, w2)" by simp
      have "rpc_loop (Suc i) dv resp x (u, w) = rpc_loop i dv resp1 x
          (with_calls (if u_gone u then [] else [UCtlOut ?n (keepalive_reply (rep_id r))]) ?u1, w2)"
        using 1 s Suc.prems(2) ld co by (simp add: step resp1_def answer_keepalive_eq)
      then show ?thesis
        by (intro go [of _ w2]) (use k 1 ok in \<open>simp_all add: attempt_def accepted_def\<close>)
    next
      case 2
      obtain st where "load_bytes (resp_of r) 0 (length (snd r)) \<bind> rndis_parse_status = Some st" using st by blast
      then have "rpc_loop (Suc i) dv resp x (u, w) = rpc_loop i dv resp1 x (?u1, w1)"
        using 2 s Suc.prems(2) ld
        by (cases "load_bytes (resp_of r) 0 (length (snd r))") (simp_all add: step resp1_def)
      then show ?thesis
        by (rule go) (use 2 in \<open>simp_all add: attempt_def accepted_def is_keepalive_def\<close>)
    next
      case 3
      have "rpc_loop (Suc i) dv resp x (u, w) = Some (0, resp_of r, length (snd r), ?u1, w1)"
        using 3 s Suc.prems(2) ld by (auto simp: step accepted_def)
      then show ?thesis
        using 3 r(2) by (intro exI [of _ "[r]"]) (simp add: attempt_def is_keepalive_def rpc_outcome_def resp_of_def)
    next
      case 4
      have "rpc_loop (Suc i) dv resp x (u, w) = rpc_loop i dv resp1 x (?u1, w1)"
        using 4 ok s Suc.prems(2) ld by (auto simp: step resp1_def accepted_def)
      then show ?thesis
        by (rule go) (use 4 in \<open>simp_all add: attempt_def is_keepalive_def\<close>)
    qed
  qed
qed

text \<open>The outcome of a whole exchange: what was sent and received, and the result.\<close>

definition rpc_done :: "'w usb_dev \<Rightarrow> buf \<Rightarrow> u32 \<Rightarrow> at_usb \<Rightarrow> 'w \<Rightarrow> usb_call list \<Rightarrow> int \<Rightarrow> buf \<Rightarrow> nat \<Rightarrow> bool" where
  "rpc_done dv m x u w cs rc resp got \<longleftrightarrow>
     (if \<not> u_control_ifc u \<or> u_gone u then cs = [] \<and> rc = -1 \<and> got = 0
      else if fst (dv_out dv (u_control_num u) m w) \<noteq> IOSuccess
      then cs = [UCtlOut (u_control_num u) m] \<and> rc = -1 \<and> got = 0
      else (\<exists>rs. cs = UCtlOut (u_control_num u) m #
               (if u_interrupt_in u \<noteq> 0 then [UReadIntr (u_interrupt_in u) 50] else []) @
               concat (map (attempt False (u_control_num u)) rs) \<and> rpc_outcome 12 x rs rc resp got))"

lemma rndis_rpc_spec:
  assumes "dv_bounded dv" "length resp = 1024"
  shows "\<exists>rc resp' got w' cs. rndis_rpc dv m resp x (u, w) = Some (rc, resp', got, with_calls cs u, w') \<and>
    length resp' = 1024 \<and> rpc_done dv m x u w cs rc resp' got"
proof (cases "u_control_ifc u \<and> \<not> u_gone u")
  case False
  then show ?thesis using assms(2)
    by (intro exI [of _ "-1"] exI [of _ resp] exI [of _ 0] exI [of _ w] exI [of _ "[]"])
      (auto simp: rndis_rpc_def control_out_def rpc_done_def)
next
  case True
  let ?n = "u_control_num u"
  obtain q w1 where q: "dv_out dv ?n m w = (q, w1)" by fastforce
  let ?u1 = "with_calls [UCtlOut ?n m] u"
  have co: "control_out dv m (u, w) = (if q \<noteq> IOSuccess then -1 else 0, ?u1, w1)"
    using True q by (simp add: control_out_def ucall_with)
  show ?thesis
  proof (cases "q = IOSuccess")
    case False
    then show ?thesis using assms(2) True q
      by (intro exI [of _ "-1"] exI [of _ resp] exI [of _ 0] exI [of _ w1] exI [of _ "[UCtlOut ?n m]"])
        (simp add: rndis_rpc_def co rpc_done_def)
  next
    case sent: True
    define cs where "cs = (if u_interrupt_in u \<noteq> 0 then [UReadIntr (u_interrupt_in u) 50] else [])"
    define w2 where "w2 = (if u_interrupt_in u \<noteq> 0 then snd (dv_intr dv w1) else w1)"
    have rpc: "rndis_rpc dv m resp x (u, w) = rpc_loop 12 dv resp x (with_calls cs ?u1, w2)"
      using sent True by (simp add: rndis_rpc_def co cs_def w2_def ucall_with)
    obtain rs rc resp' got w' where l: "rpc_loop 12 dv resp x (with_calls cs ?u1, w2) =
        Some (rc, resp', got, with_calls (concat (map (attempt (u_gone u) ?n) rs)) (with_calls cs ?u1), w')"
      "rpc_outcome 12 x rs rc resp' got"
      using rpc_loop_spec [OF assms(1), of "with_calls cs ?u1" resp 12 x w2] assms(2) True by auto
    have "rpc_done dv m x u w (UCtlOut ?n m # cs @ concat (map (attempt False ?n) rs)) rc resp' got"
      using True q sent l(2) by (auto simp: rpc_done_def cs_def)
    moreover have "length resp' = 1024" using l(2) by (simp add: rpc_outcome_def)
    ultimately show ?thesis using l(1) True by (auto simp: rpc)
  qed
qed

text \<open>
  C32: the control request/response protocol, for any device: a request is sent once and answered by at
  most twelve reads. Device keepalives that come instead are completed with their own id, status
  indications are passed over, and the exchange succeeds exactly with the first remaining response that
  carries the id of the request, whose bytes are returned. Nothing is sent or read once the device is gone.
\<close>

theorem rpc_first_match:
  assumes "dv_bounded dv" "length resp = 1024"
  shows "\<exists>rc resp' got w' cs. rndis_rpc dv m resp x (u, w) = Some (rc, resp', got, with_calls cs u, w') \<and>
    rpc_done dv m x u w cs rc resp' got"
  using rndis_rpc_spec [OF assms] by blast

text \<open>A device that has its responses ready in order and always accepts a command.\<close>

definition script_dev :: "reply list usb_dev" where
  "script_dev = \<lparr>dv_out = (\<lambda>n m w. (IOSuccess, w)),
     dv_in = (\<lambda>n cap w. case w of [] \<Rightarrow> ((IOTimeout, []), [])
        | (q, d) # w' \<Rightarrow> ((q, take cap d), w')),
     dv_intr = (\<lambda>w. (IOTimeout, w))\<rparr>"

lemma script_dev_bounded: "dv_bounded script_dev"
  by (auto simp: dv_bounded_def script_dev_def split: list.splits)

definition usb_zero :: at_usb where
  "usb_zero = \<lparr>u_dev = False, u_control_ifc = False, u_data_ifc = False, u_device_service = False,
     u_notify_port = False, u_interest = False, u_gone = False, u_control_num = 0, u_data_num = 0,
     u_bulk_in = 0, u_bulk_out = 0, u_interrupt_in = 0, u_xid = 0, u_max_xfer = 0, u_max_packets = 0,
     u_packet_align_shift = 0, u_bus_mbps = 0, u_rndis_link_mbps = 0, u_max_frame = 0, u_opened = False,
     u_async_rl = False, u_async_src = False, u_in_cb = False, u_out_cb = False,
     u_in_urb = replicate 2 \<lparr>urb_busy = False, urb_buf = None\<rparr>, u_out_urb = \<lparr>urb_busy = False, urb_buf = None\<rparr>,
     u_calls = []\<rparr>"

theorem rpc_first_match_witness:
  "\<exists>rc resp' got w' cs. rndis_rpc script_dev [1] (replicate 1024 0) 7 (usb_zero\<lparr>u_control_ifc := True\<rparr>,
       [(IOSuccess, words [8, 16, 3, 0]), (IOSuccess, words [0x80000008, 16, 7, 0])]) =
     Some (rc, resp', got, with_calls cs (usb_zero\<lparr>u_control_ifc := True\<rparr>), w') \<and>
    rpc_done script_dev [1] 7 (usb_zero\<lparr>u_control_ifc := True\<rparr>)
      [(IOSuccess, words [8, 16, 3, 0]), (IOSuccess, words [0x80000008, 16, 7, 0])] cs rc resp' got"
  by (rule rpc_first_match [OF script_dev_bounded]) simp

section \<open>Initialisation\<close>

definition usb_core :: "at_usb \<Rightarrow> bool \<times> byte \<times> byte \<times> bool \<times> bool \<times> u32 \<times> u32 \<times> u32" where
  "usb_core u = (u_control_ifc u, u_control_num u, u_interrupt_in u, u_gone u, u_opened u,
     u_max_xfer u, u_max_packets u, u_packet_align_shift u)"

lemma usb_core_simps [simp]:
  "usb_core (with_calls cs u) = usb_core u" "usb_core (snd (next_xid u)) = usb_core u"
  "usb_core (u\<lparr>u_rndis_link_mbps := a\<rparr>) = usb_core u" "usb_core (u\<lparr>u_max_frame := a\<rparr>) = usb_core u"
  by (simp_all add: usb_core_def with_calls_def next_xid_def Let_def)

lemma next_xid_pos: "fst (next_xid u) \<noteq> 0"
  by (simp add: next_xid_def Let_def)

definition query_bytes :: "u32 \<Rightarrow> u32 \<Rightarrow> u32 \<Rightarrow> buf" where
  "query_bytes i oid n = words [4, 28 + n, i, oid, n, if n \<noteq> 0 then 20 else 0, 0] @ replicate (unat n) 0"

definition query_input :: "u32 \<Rightarrow> buf option" where
  "query_input n = (if n = 0 then None else Some (replicate (unat n) 0))"

lemma build_query_bytes:
  assumes "length msg = 1024" "n = 0 \<or> n = 48"
  shows "rndis_build_query msg i oid (query_input n) n =
    Some (28 + unat n, query_bytes i oid n @ drop (28 + unat n) msg)"
proof -
  have "rndis_build_query msg i oid (Some (replicate (unat n) 0)) n =
    Some (28 + unat n, query_bytes i oid n @ drop (28 + unat n) msg)"
    using assms set_query_layout [of "replicate (unat n) 0" n msg i oid]
    by (auto simp: query_bytes_def take_bit_eq_mod)
  moreover have "rndis_build_query msg i oid None 0 = rndis_build_query msg i oid (Some []) 0"
    by (simp add: rndis_build_query_def)
  ultimately show ?thesis using assms(2) by (auto simp: query_input_def)
qed

lemma length_query_bytes: "n = 0 \<or> n = 48 \<Longrightarrow> length (query_bytes i oid n) = 28 + unat n"
  by (auto simp: query_bytes_def)

lemma parse_query:
  "\<exists>q info. rndis_parse_query_cmplt b i = Some (q, info) \<and>
     (case info of None \<Rightarrow> True | Some (s, n) \<Rightarrow> q = 0 \<and> s + n \<le> length b)"
proof -
  obtain rc st where h: "check_cmplt_header b RNDIS_MSG_QUERY_CMPLT i = Some (rc, st)"
    using check_cmplt_header_spec by blast
  show ?thesis
    by (cases "24 \<le> length b") (simp_all add: rndis_parse_query_cmplt_def h buf_simps Let_def)
qed

definition query_info :: "buf \<Rightarrow> u32 \<Rightarrow> buf option" where
  "query_info b i = (case rndis_parse_query_cmplt b i of
     Some (q, Some (s, n)) \<Rightarrow> Some (take n (drop s b)) | _ \<Rightarrow> None)"

lemma rpc_done_got: "rpc_done dv m x u w cs rc resp got \<Longrightarrow> (rc = 0 \<or> rc = -1) \<and> got \<le> 1024"
  by (auto simp: rpc_done_def rpc_outcome_def split: if_splits)
    (metis last_in_set list_all_iff)+

lemma query_oid_run:
  assumes "dv_bounded dv" "length msg = 1024" "length resp = 1024" "n = 0 \<or> n = 48"
  obtains info msg' resp' w' cs rc got where
    "query_oid dv msg resp oid (query_input n) n (u, w) = Some (info, msg', resp', with_calls cs (snd (next_xid u)), w')"
    "length msg' = 1024" "length resp' = 1024"
    "rpc_done dv (query_bytes (fst (next_xid u)) oid n) (fst (next_xid u)) (snd (next_xid u)) w cs rc resp' got"
    "info = (if rc = 0 then query_info (take got resp') (fst (next_xid u)) else None)"
proof -
  obtain i u1 where x: "next_xid u = (i, u1)" by fastforce
  let ?m = "query_bytes i oid n"
  have lm: "length ?m = 28 + unat n" by (rule length_query_bytes [OF assms(4)])
  define msg' where "msg' = ?m @ drop (28 + unat n) msg"
  have n: "28 + unat n \<le> 1024" using assms(4) by auto
  have msg: "rndis_build_query msg i oid (query_input n) n = Some (28 + unat n, msg')"
    unfolding msg'_def by (rule build_query_bytes [OF assms(2,4)])
  have l': "length msg' = 1024" using lm n assms(2) by (simp add: msg'_def)
  have ld: "load_bytes msg' 0 (28 + unat n) = Some ?m"
    using lm l' n by (simp add: msg'_def load_bytes_def)
  obtain rc resp' got w' cs where r: "rndis_rpc dv ?m resp i (u1, w) = Some (rc, resp', got, with_calls cs u1, w')"
    "length resp' = 1024" "rpc_done dv ?m i u1 w cs rc resp' got"
    using rndis_rpc_spec [OF assms(1,3)] by blast
  have g: "rc = 0 \<or> rc = -1" "got \<le> 1024" using rpc_done_got [OF r(3)] by auto
  have lr: "load_bytes resp' 0 got = Some (take got resp')" using g(2) r(2) by (simp add: load_bytes_def)
  obtain q info where p: "rndis_parse_query_cmplt (take got resp') i = Some (q, info)"
    "case info of None \<Rightarrow> True | Some (s, k) \<Rightarrow> q = 0 \<and> s + k \<le> length (take got resp')"
    using parse_query by blast
  have eff: "query_oid dv msg resp oid (query_input n) n (u, w) =
      Some (if rc = 0 then query_info (take got resp') i else None, msg', resp', with_calls cs u1, w')"
  proof (cases info)
    case None
    then show ?thesis using p g(1) r(1) by (auto simp: query_oid_def x msg ld lr query_info_def)
  next
    case (Some sk)
    obtain s k where sk: "sk = (s, k)" by (cases sk)
    have d: "load_bytes resp' s k = Some (take k (drop s (take got resp')))"
    proof -
      have "s + k \<le> got" using p(2) r(2) g(2) by (simp add: Some sk)
      then show ?thesis using r(2) g(2) by (simp add: load_bytes_def drop_take)
    qed
    show ?thesis using p g(1) r(1) d
      by (auto simp: query_oid_def x msg ld lr query_info_def Some sk)
  qed
  show thesis
    by (rule that [of "if rc = 0 then query_info (take got resp') i else None" msg' resp' cs w' rc got])
      (use eff x l' r in simp_all)
qed

lemma mac_loop_run:
  assumes "dv_bounded dv" "length msg = 1024" "length resp = 1024"
  shows "\<exists>got msg' resp' u' w'. mac_loop dv oids msg resp (u, w) = Some (got, msg', resp', u', w') \<and>
    length msg' = 1024 \<and> length resp' = 1024 \<and> usb_core u' = usb_core u \<and>
    (case got of None \<Rightarrow> True | Some m \<Rightarrow> length m = 6)"
  using assms(2,3)
proof (induction oids arbitrary: msg resp u w)
  case (Cons oid oids)
  have i: "query_input 48 = Some (replicate 48 0)" by (simp add: query_input_def)
  have n: "(48 :: u32) = 0 \<or> (48 :: u32) = 48" by simp
  obtain info msg1 resp1 w1 cs rc got where
    q: "query_oid dv msg resp oid (Some (replicate 48 0)) 48 (u, w) = Some (info, msg1, resp1, with_calls cs (snd (next_xid u)), w1)"
    "length msg1 = 1024" "length resp1 = 1024"
    by (rule query_oid_run [OF assms(1) Cons.prems n, of oid u w, unfolded i])
  let ?u1 = "with_calls cs (snd (next_xid u))"
  obtain got2 msg2 resp2 u2 w2 where r: "mac_loop dv oids msg1 resp1 (?u1, w1) = Some (got2, msg2, resp2, u2, w2)"
    "length msg2 = 1024" "length resp2 = 1024" "usb_core u2 = usb_core u"
    "case got2 of None \<Rightarrow> True | Some m \<Rightarrow> length m = 6"
    using Cons.IH [OF q(2,3), of ?u1 w1] by auto
  show ?case
  proof (cases info)
    case None
    then show ?thesis using q(1) r by simp
  next
    case (Some d)
    then show ?thesis using q r by (auto simp: load_bytes_def)
  qed
qed simp

lemma opt_word:
  "(case info of Some d \<Rightarrow> if length d \<ge> 4 then do { x \<leftarrow> load32 d 0; Some (f x) } else Some y
    | None \<Rightarrow> Some y) =
   Some (case info of Some d \<Rightarrow> if length d \<ge> 4 then f (word_at d 0) else y | None \<Rightarrow> y)"
  by (cases info) (simp_all add: buf_simps)

lemma query_capacity_run:
  assumes "dv_bounded dv"
  shows "\<exists>u' w'. query_capacity dv (u, w) = Some (u', w') \<and> usb_core u' = usb_core u"
proof -
  have i: "query_input 0 = None" by (simp add: query_input_def)
  have n: "(0 :: u32) = 0 \<or> (0 :: u32) = 48" by simp
  have l: "length (replicate 1024 (0 :: byte)) = 1024" by simp
  obtain info msg1 resp1 w1 cs rc got where
    q: "query_oid dv (replicate 1024 0) (replicate 1024 0) RNDIS_OID_GEN_LINK_SPEED None 0 (u, w) =
      Some (info, msg1, resp1, with_calls cs (snd (next_xid u)), w1)" "length msg1 = 1024" "length resp1 = 1024"
    by (rule query_oid_run [OF assms l l n, of RNDIS_OID_GEN_LINK_SPEED u w, unfolded i])
  define u1 where "u1 = with_calls cs (snd (next_xid u))"
  obtain u2 where u2: "(case info of
        Some d \<Rightarrow> if length d \<ge> 4
          then do { speed100 \<leftarrow> load32 d 0;
                    Some (if speed100 > 0 then u1\<lparr>u_rndis_link_mbps := speed100 div 10000\<rparr> else u1) }
          else Some u1
      | None \<Rightarrow> Some u1) = Some u2" "usb_core u2 = usb_core u"
    by (rule that, rule opt_word) (auto simp: u1_def split: option.split)
  obtain info2 msg2 resp2 w2 cs2 rc2 got2 where
    q2: "query_oid dv msg1 resp1 RNDIS_OID_GEN_MAXIMUM_FRAME_SIZE None 0 (u2, w1) =
      Some (info2, msg2, resp2, with_calls cs2 (snd (next_xid u2)), w2)"
    by (rule query_oid_run [OF assms q(2,3) n, of RNDIS_OID_GEN_MAXIMUM_FRAME_SIZE u2 w1, unfolded i])
  define u3 where "u3 = with_calls cs2 (snd (next_xid u2))"
  obtain u4 where "(case info2 of
        Some d \<Rightarrow> if length d \<ge> 4 then do { frame \<leftarrow> load32 d 0; Some (u3\<lparr>u_max_frame := frame\<rparr>) } else Some u3
      | None \<Rightarrow> Some u3) = Some u4" "usb_core u4 = usb_core u2"
    by (rule that, rule opt_word) (auto simp: u3_def split: option.split)
  then show ?thesis
    using q(1) [folded u1_def] q2 [folded u3_def] u2 by (simp add: query_capacity_def)
qed

definition filter_bytes :: "u32 \<Rightarrow> buf" where
  "filter_bytes i = words [5, 32, i, RNDIS_OID_GEN_CURRENT_PACKET_FILTER, 4, 20, 0, RNDIS_DEFAULT_FILTER]"

lemma build_filter:
  assumes "length msg = 1024"
  shows "\<exists>filt. at_wr32le (replicate 4 0) 0 RNDIS_DEFAULT_FILTER = Some filt \<and>
    rndis_build_set msg i RNDIS_OID_GEN_CURRENT_PACKET_FILTER filt 4 = Some (32, filter_bytes i @ drop 32 msg)"
proof -
  have f: "at_wr32le (replicate 4 0) 0 RNDIS_DEFAULT_FILTER = Some (bytes32 RNDIS_DEFAULT_FILTER)"
    by (simp add: at_wr32le_def store_bytes_def splice_at_def)
  have "length (bytes32 RNDIS_DEFAULT_FILTER) = unat (4 :: u32)" by simp
  moreover have "filter_bytes i = words [5, 28 + 4, i, RNDIS_OID_GEN_CURRENT_PACKET_FILTER, 4, 20, 0] @ bytes32 RNDIS_DEFAULT_FILTER"
    by (simp add: filter_bytes_def words_def)
  ultimately show ?thesis
    using set_query_layout [of "bytes32 RNDIS_DEFAULT_FILTER" 4 msg i RNDIS_OID_GEN_CURRENT_PACKET_FILTER] assms f
    by auto
qed

lemma set_filter_run:
  assumes "dv_bounded dv" "length msg = 1024" "length resp = 1024"
  shows "\<exists>rc u' w'. set_filter dv msg resp (u, w) = Some (rc, u', w') \<and> usb_core u' = usb_core u"
proof -
  obtain i u1 where x: "next_xid u = (i, u1)" by fastforce
  have c: "usb_core u1 = usb_core u" using x usb_core_simps(2) [of u] by simp
  obtain filt where f: "at_wr32le (replicate 4 0) 0 RNDIS_DEFAULT_FILTER = Some filt"
    "rndis_build_set msg i RNDIS_OID_GEN_CURRENT_PACKET_FILTER filt 4 = Some (32, filter_bytes i @ drop 32 msg)"
    using build_filter [OF assms(2)] by blast
  have l: "length (filter_bytes i) = 32" by (simp add: filter_bytes_def)
  have ld: "load_bytes (filter_bytes i @ drop 32 msg) 0 32 = Some (filter_bytes i)"
    using l by (simp add: load_bytes_def)
  obtain rc resp' got w' cs where r: "rndis_rpc dv (filter_bytes i) resp i (u1, w) = Some (rc, resp', got, with_calls cs u1, w')"
    "length resp' = 1024" "rpc_done dv (filter_bytes i) i u1 w cs rc resp' got"
    using rndis_rpc_spec [OF assms(1,3)] by blast
  obtain rc2 st where h: "check_cmplt_header (take got resp') RNDIS_MSG_SET_CMPLT i = Some (rc2, st)"
    using check_cmplt_header_spec by blast
  have "load_bytes resp' 0 got = Some (take got resp')"
    using r(2) rpc_done_got [OF r(3)] by (simp add: load_bytes_def)
  then show ?thesis using f ld r h c by (simp add: set_filter_def x rndis_parse_set_cmplt_def)
qed

definition init_bytes :: "u32 \<Rightarrow> buf" where
  "init_bytes i = words [2, 24, i, 1, 0, AT_MAX_TRANSFER]"

lemma init_exchange_run:
  assumes "dv_bounded dv" "length msg = 1024" "length resp = 1024"
  shows "\<exists>rc init msg' resp' u' w'. init_exchange dv msg resp (u, w) = Some (rc, init, msg', resp', u', w') \<and>
    length msg' = 1024 \<and> length resp' = 1024 \<and> usb_core u' = usb_core u"
proof -
  obtain i u1 where x: "next_xid u = (i, u1)" by fastforce
  have c: "usb_core u1 = usb_core u" using x usb_core_simps(2) [of u] by simp
  have b: "rndis_build_initialize msg i AT_MAX_TRANSFER = Some (24, init_bytes i @ drop 24 msg)"
    using assms(2) by (simp add: control_message_layout init_bytes_def)
  have ld: "load_bytes (init_bytes i @ drop 24 msg) 0 24 = Some (init_bytes i)"
    by (simp add: load_bytes_def init_bytes_def)
  obtain rc resp' got w' cs where r: "rndis_rpc dv (init_bytes i) resp i (u1, w) = Some (rc, resp', got, with_calls cs u1, w')"
    "length resp' = 1024" "rpc_done dv (init_bytes i) i u1 w cs rc resp' got"
    using rndis_rpc_spec [OF assms(1,3)] by blast
  have "load_bytes resp' 0 got = Some (take got resp')"
    using r(2) rpc_done_got [OF r(3)] by (simp add: load_bytes_def)
  moreover obtain rc2 st where "check_cmplt_header (take got resp') RNDIS_MSG_INITIALIZE_CMPLT i = Some (rc2, st)"
    using check_cmplt_header_spec by blast
  then have "\<exists>q init. rndis_parse_initialize_cmplt (take got resp') i rndis_init_zero = Some (q, init)"
    by (cases "52 \<le> length (take got resp')") (auto simp: rndis_parse_initialize_cmplt_def buf_simps)
  moreover have "length (init_bytes i @ drop 24 msg) = 1024" using assms(2) by (simp add: init_bytes_def)
  ultimately show ?thesis using b ld r c by (auto simp: init_exchange_def x)
qed

lemma clamp_core:
  "usb_core (clamp_init init u) = (u_control_ifc u, u_control_num u, u_interrupt_in u, u_gone u, u_opened u,
     if 1024 \<le> max_transfer_size init \<and> max_transfer_size init \<le> AT_MAX_TRANSFER then max_transfer_size init else u_max_xfer u,
     max 1 (min 32 (max_packets_per_xfer init)), max 2 (min 8 (packet_alignment init)))"
proof -
  have one: "1 \<le> a" if "a \<noteq> 0" for a :: u32
    using that by (simp add: word_le_nat_alt Suc_le_eq unat_gt_0)
  have "max 1 (min 32 (a :: u32)) = (let p = (if a \<noteq> 0 then a else 1) in if p > 32 then 32 else p)" for a
    using one [of a] by (cases "a = 0") (auto simp: max_def min_def Let_def not_le)
  moreover have "max 2 (min 8 (a :: u32)) = (let p = (if a < 2 then 2 else a) in if p > 8 then 8 else p)" for a
    using order_trans [of 2 8 a] by (auto simp: max_def min_def Let_def not_le not_less)
  ultimately show ?thesis by (simp add: clamp_init_def usb_core_def Let_def)
qed

lemma one_le_32: "(1 :: u32) \<le> 32" and two_le_8: "(2 :: u32) \<le> 8"
  by simp_all

text \<open>
  C34: whatever the phone answers, the initialisation returns, stays inside its buffers, and a
  session it reports as up has parameters in the ranges the rest of the engine relies on: transfers of
  1024 to 16384 bytes (the size of the receive buffers), 1 to 32 packets, an alignment of 4 to 256
  bytes and a MAC of six bytes.
\<close>

theorem init_bounds:
  assumes "dv_bounded dv" "1024 \<le> u_max_xfer u" "u_max_xfer u \<le> AT_MAX_TRANSFER"
  shows "case at_usb_rndis_init dv (u, w) of None \<Rightarrow> False
    | Some (rc, mac, init, u', w') \<Rightarrow> (rc = 0 \<or> rc = -1) \<and>
        1024 \<le> u_max_xfer u' \<and> u_max_xfer u' \<le> AT_MAX_TRANSFER \<and>
        (case mac of None \<Rightarrow> rc = -1
         | Some m \<Rightarrow> length m = 6 \<and> 1 \<le> u_max_packets u' \<and> u_max_packets u' \<le> 32 \<and>
             2 \<le> u_packet_align_shift u' \<and> u_packet_align_shift u' \<le> 8)"
proof (cases "u_opened u")
  case False
  then show ?thesis using assms by (simp add: at_usb_rndis_init_def)
next
  case True
  have l: "length (replicate 1024 (0 :: byte)) = 1024" by simp
  obtain rc init msg resp u1 w1 where e: "init_exchange dv (replicate 1024 0) (replicate 1024 0) (u, w) =
      Some (rc, init, msg, resp, u1, w1)" "length msg = 1024" "length resp = 1024" "usb_core u1 = usb_core u"
    using init_exchange_run [OF assms(1) l l, of u w] by blast
  have x1: "u_max_xfer u1 = u_max_xfer u" using e(4) by (simp add: usb_core_def)
  show ?thesis
  proof (cases "rc = 0")
    case False
    then show ?thesis using e(1) True assms x1 by (simp add: at_usb_rndis_init_def)
  next
    case ok: True
    let ?oids = "[RNDIS_OID_802_3_PERMANENT_ADDRESS, RNDIS_OID_802_3_CURRENT_ADDRESS]"
    let ?u = "clamp_init init u1"
    obtain got msg2 resp2 u2 w2 where m: "mac_loop dv ?oids msg resp (?u, w1) = Some (got, msg2, resp2, u2, w2)"
      "length msg2 = 1024" "length resp2 = 1024" "usb_core u2 = usb_core ?u"
      "case got of None \<Rightarrow> True | Some m \<Rightarrow> length m = 6"
      using mac_loop_run [OF assms(1) e(2,3), of ?oids ?u w1] by blast
    obtain u3 w3 where c: "query_capacity dv (u2, w2) = Some (u3, w3)" "usb_core u3 = usb_core u2"
      using query_capacity_run [OF assms(1), of u2 w2] by blast
    obtain rc4 u4 w4 where f: "set_filter dv msg2 resp2 (u3, w3) = Some (rc4, u4, w4)" "usb_core u4 = usb_core u3"
      using set_filter_run [OF assms(1) m(2,3), of u3 w3] by blast
    have core: "usb_core u4 = usb_core ?u" using m(4) c(2) f(2) by simp
    note t = trans [OF core clamp_core, unfolded usb_core_def prod.inject]
    have p: "u_max_packets u4 = max 1 (min 32 (max_packets_per_xfer init))"
      "u_packet_align_shift u4 = max 2 (min 8 (packet_alignment init))" by (insert t, elim conjE, assumption)+
    have v: "1 \<le> u_max_packets u4" "u_max_packets u4 \<le> 32" "2 \<le> u_packet_align_shift u4" "u_packet_align_shift u4 \<le> 8"
      unfolding p by (rule max.cobounded1, rule max.boundedI [OF one_le_32 min.cobounded1],
        rule max.cobounded1, rule max.boundedI [OF two_le_8 min.cobounded1])
    have x: "u_max_xfer u4 = (if 1024 \<le> max_transfer_size init \<and> max_transfer_size init \<le> AT_MAX_TRANSFER
         then max_transfer_size init else u_max_xfer u1)"
      by (insert t, elim conjE, assumption)
    then have x: "1024 \<le> u_max_xfer u4" "u_max_xfer u4 \<le> AT_MAX_TRANSFER"
      using assms(2,3) x1 by (auto split: if_splits)
    have "length (case got of Some m \<Rightarrow> m | None \<Rightarrow> fallback_mac) = 6"
      using m(5) by (cases got) (simp_all add: fallback_mac_def)
    then show ?thesis
      using e(1) True ok m(1) c(1) f(1) v x by (simp add: at_usb_rndis_init_def Let_def del: mac_loop.simps)
  qed
qed

text \<open>
  Properties of a session that comes up. The device is a phone that speaks the protocol: it takes
  every command, and the read that follows gives the completion of that command.
\<close>

definition answers :: "'w usb_dev \<Rightarrow> byte \<Rightarrow> (buf \<Rightarrow> buf) \<Rightarrow> bool" where
  "answers dv n ans \<longleftrightarrow> (\<forall>m w. fst (dv_out dv n m w) = IOSuccess \<and>
     (let w1 = snd (dv_out dv n m w) in
      fst (dv_in dv n 1024 w1) = (IOSuccess, ans m) \<and>
      fst (dv_in dv n 1024 (snd (dv_intr dv w1))) = (IOSuccess, ans m)))"

record phone =
  ph_flags :: u32
  ph_medium :: u32
  ph_packets :: u32
  ph_xfer :: u32
  ph_align :: u32
  ph_info :: "u32 \<Rightarrow> buf"

text \<open>The completions of the RNDIS specification for the four kinds of request the engine sends.\<close>

definition protocol :: "phone \<Rightarrow> (buf \<Rightarrow> buf) \<Rightarrow> bool" where
  "protocol p ans \<longleftrightarrow>
     (\<forall>i. ans (init_bytes i) = words [0x80000002, 52, i, 0, 1, 0, ph_flags p, ph_medium p, ph_packets p, ph_xfer p, ph_align p, 0, 0]) \<and>
     (\<forall>i oid n. length (ph_info p oid) \<le> 256 \<and> ans (query_bytes i oid n) =
        words [0x80000004, 24 + of_nat (length (ph_info p oid)), i, 0, of_nat (length (ph_info p oid)), 16] @ ph_info p oid) \<and>
     (\<forall>i. ans (filter_bytes i) = words [0x80000005, 16, i, 0])"

lemma answered_rpc:
  assumes "answers dv (u_control_num u) ans" "u_control_ifc u" "\<not> u_gone u" "length resp = 1024"
    "length (ans m) \<le> 1024" "accepted x (IOSuccess, ans m)"
  shows "\<exists>cs w'. rndis_rpc dv m resp x (u, w) = Some (0, resp_of (IOSuccess, ans m), length (ans m),
      with_calls (UCtlOut (u_control_num u) m # cs) u, w') \<and>
    list_all (\<lambda>c. \<forall>n d. c \<noteq> UCtlOut n d) cs"
proof -
  let ?n = "u_control_num u"
  define w1 where "w1 = snd (dv_out dv ?n m w)"
  define w2 where "w2 = (if u_interrupt_in u \<noteq> 0 then snd (dv_intr dv w1) else w1)"
  define cs where "cs = (if u_interrupt_in u \<noteq> 0 then [UReadIntr (u_interrupt_in u) 50] else [])"
  have out: "dv_out dv ?n m w = (IOSuccess, w1)" and inp: "fst (dv_in dv ?n 1024 w2) = (IOSuccess, ans m)"
    using assms(1) by (simp_all add: answers_def w1_def w2_def Let_def prod_eq_iff)
  obtain w3 where inp: "dv_in dv ?n 1024 w2 = ((IOSuccess, ans m), w3)" using inp by (metis prod.collapse)
  let ?u2 = "with_calls (UCtlOut ?n m # cs) u"
  have r: "rndis_rpc dv m resp x (u, w) = rpc_loop (Suc 11) dv resp x (?u2, w2)"
    using assms(2,3) out by (simp add: rndis_rpc_def control_out_def ucall_with cs_def w2_def numeral_eq_Suc)
  have z: "store_bytes resp 0 (replicate 1024 0) = Some (replicate 1024 0)"
    using assms(4) by (simp add: store_bytes_def splice_at_def)
  have st: "store_bytes (replicate 1024 0) 0 (ans m) = Some (resp_of (IOSuccess, ans m))"
    using assms(5) by (simp add: store_bytes_def splice_at_def resp_of_def)
  have ci: "control_in dv (replicate 1024 0) 1024 (?u2, w2) = Some (0, resp_of (IOSuccess, ans m), length (ans m),
      with_calls (UCtlOut ?n m # cs @ [UCtlIn ?n 1024 IOSuccess (ans m)]) u, w3)"
    using assms(2) inp st by (simp add: control_in_def ucall_with)
  have ok: "rep_ok (IOSuccess, ans m)" using assms(6) by (simp add: accepted_def)
  have "length (snd (IOSuccess, ans m)) \<le> 1024" using assms(5) by simp
  note ld = resp_of_load [OF this ok]
  have "rpc_loop (Suc 11) dv resp x (?u2, w2) = Some (0, resp_of (IOSuccess, ans m), length (ans m),
      with_calls (UCtlOut ?n m # cs @ [UCtlIn ?n 1024 IOSuccess (ans m)]) u, w3)"
    unfolding rpc_loop.simps(2) using assms(4,6) z ci ld ok by (auto simp: accepted_def rep_ok_def)
  then show ?thesis
    by (intro exI [of _ "cs @ [UCtlIn ?n 1024 IOSuccess (ans m)]"] exI [of _ w3]) (simp add: r cs_def)
qed

lemma check_words:
  "check_cmplt_header (words (t # l # i # s # ws) @ r) x y = Some
     (if t \<noteq> x then (-2, None) else if unat l > 16 + 4 * length ws + length r then (-3, None)
      else if i \<noteq> y then (-4, None) else if s \<noteq> 0 then (-5, Some s) else (0, Some s))"
  by (simp add: check_cmplt_header_def buf_simps words_Cons bytes32_def word32_bytes)

lemma accepted_words:
  "t \<noteq> 8 \<Longrightarrow> t \<noteq> 7 \<Longrightarrow> accepted i (IOSuccess, words (t # l # i # ws) @ r)"
  by (simp add: accepted_def rep_ok_def rep_id_def words_Cons bytes32_def word32_bytes)

lemma take_resp_of: "length d \<le> 1024 \<Longrightarrow> load_bytes (resp_of (q, d)) 0 (length d) = Some d"
  by (simp add: load_bytes_def resp_of_def)

text \<open>The commands sent, in order.\<close>

definition sent :: "usb_call list \<Rightarrow> buf list" where
  "sent cs = concat (map (\<lambda>c. case c of UCtlOut n m \<Rightarrow> [m] | _ \<Rightarrow> []) cs)"

lemma sent_simps [simp]:
  "sent [] = []" "sent (UCtlOut n m # cs) = m # sent cs" "sent (xs @ ys) = sent xs @ sent ys"
  by (simp_all add: sent_def)

lemma sent_none: "list_all (\<lambda>c. \<forall>n d. c \<noteq> UCtlOut n d) cs \<Longrightarrow> sent cs = []"
  by (induction cs) (auto simp: sent_def split: usb_call.split)

text \<open>A phone that answers, with the interface open and the phone present.\<close>

definition in_touch :: "'w usb_dev \<Rightarrow> (buf \<Rightarrow> buf) \<Rightarrow> at_usb \<Rightarrow> bool" where
  "in_touch dv ans u \<longleftrightarrow> answers dv (u_control_num u) ans \<and> u_control_ifc u \<and> \<not> u_gone u"

lemma in_touch_simps [simp]:
  "in_touch dv ans (with_calls cs u) = in_touch dv ans u" "in_touch dv ans (snd (next_xid u)) = in_touch dv ans u"
  "in_touch dv ans (u\<lparr>u_rndis_link_mbps := a\<rparr>) = in_touch dv ans u"
  "in_touch dv ans (u\<lparr>u_max_frame := b\<rparr>) = in_touch dv ans u" "in_touch dv ans (clamp_init init u) = in_touch dv ans u"
  by (simp_all add: in_touch_def with_calls_def next_xid_def clamp_init_def Let_def)

lemma in_touch_rpc:
  assumes "in_touch dv ans u" "length resp = 1024" "length (ans m) \<le> 1024" "accepted x (IOSuccess, ans m)"
  obtains cs w' where "rndis_rpc dv m resp x (u, w) =
      Some (0, resp_of (IOSuccess, ans m), length (ans m), with_calls cs u, w')" "sent cs = [m]"
proof -
  obtain cs w' where r: "rndis_rpc dv m resp x (u, w) = Some (0, resp_of (IOSuccess, ans m), length (ans m),
      with_calls (UCtlOut (u_control_num u) m # cs) u, w')" "list_all (\<lambda>c. \<forall>n d. c \<noteq> UCtlOut n d) cs"
    using answered_rpc [of dv u ans resp m x w] assms unfolding in_touch_def by blast
  show thesis by (rule that [OF r(1)]) (simp add: sent_none [OF r(2)])
qed

definition ph_init :: "phone \<Rightarrow> rndis_init_result" where
  "ph_init p = \<lparr>max_transfer_size = ph_xfer p, max_packets_per_xfer = ph_packets p,
     packet_alignment = ph_align p, device_flags = ph_flags p, medium = ph_medium p\<rparr>"

lemma init_exchange_answered:
  assumes "in_touch dv ans u" "protocol p ans" "length msg = 1024" "length resp = 1024"
  obtains msg' resp' cs w' where "init_exchange dv msg resp (u, w) =
      Some (0, ph_init p, msg', resp', with_calls cs (snd (next_xid u)), w')"
    "sent cs = [init_bytes (fst (next_xid u))]" "length msg' = 1024" "length resp' = 1024"
proof -
  obtain i u1 where x: "next_xid u = (i, u1)" by fastforce
  have t: "in_touch dv ans u1" using assms(1) in_touch_simps(2) [of dv ans u] x by simp
  let ?a = "words [0x80000002, 52, i, 0, 1, 0, ph_flags p, ph_medium p, ph_packets p, ph_xfer p, ph_align p, 0, 0]"
  have a: "ans (init_bytes i) = ?a" using assms(2) by (simp add: protocol_def)
  have acc: "accepted i (IOSuccess, ans (init_bytes i))" "length (ans (init_bytes i)) \<le> 1024"
    using accepted_words [of "0x80000002" i 52 "[0, 1, 0, ph_flags p, ph_medium p, ph_packets p, ph_xfer p, ph_align p, 0, 0]" "[]"]
    by (simp_all add: a)
  obtain cs w' where r: "rndis_rpc dv (init_bytes i) resp i (u1, w) =
      Some (0, resp_of (IOSuccess, ans (init_bytes i)), length (ans (init_bytes i)), with_calls cs u1, w')"
    "sent cs = [init_bytes i]"
    by (rule in_touch_rpc [OF t assms(4) acc(2,1)])
  have b: "rndis_build_initialize msg i AT_MAX_TRANSFER = Some (24, init_bytes i @ drop 24 msg)"
    using assms(3) by (simp add: control_message_layout init_bytes_def)
  have ld: "load_bytes (init_bytes i @ drop 24 msg) 0 24 = Some (init_bytes i)"
    by (simp add: load_bytes_def init_bytes_def)
  have "rndis_parse_initialize_cmplt ?a i rndis_init_zero = Some (0, ph_init p)"
    using check_words [of "0x80000002" 52 i 0 "[1, 0, ph_flags p, ph_medium p, ph_packets p, ph_xfer p, ph_align p, 0, 0]" "[]" "0x80000002" i]
    by (simp add: rndis_parse_initialize_cmplt_def buf_simps words_Cons bytes32_def word32_bytes ph_init_def)
  then have "init_exchange dv msg resp (u, w) = Some (0, ph_init p, init_bytes i @ drop 24 msg,
      resp_of (IOSuccess, ans (init_bytes i)), with_calls cs u1, w')"
    using b ld r take_resp_of [OF acc(2), of IOSuccess] by (simp add: init_exchange_def x a)
  then show thesis
    by (rule that [unfolded x fst_conv snd_conv]) (use r acc(2) assms(3) in \<open>simp_all add: init_bytes_def resp_of_def\<close>)
qed

lemma word32_16: "word32 16 0 0 0 = 16"
  by (simp add: word32_def)

lemma query_answered:
  assumes "in_touch dv ans u" "protocol p ans" "length msg = 1024" "length resp = 1024" "n = 0 \<or> n = 48"
  obtains msg' resp' cs w' where "query_oid dv msg resp oid (query_input n) n (u, w) =
      Some (Some (ph_info p oid), msg', resp', with_calls cs (snd (next_xid u)), w')"
    "sent cs = [query_bytes (fst (next_xid u)) oid n]" "length msg' = 1024" "length resp' = 1024"
proof -
  obtain i u1 where x: "next_xid u = (i, u1)" by fastforce
  have t: "in_touch dv ans u1" using assms(1) in_touch_simps(2) [of dv ans u] x by simp
  let ?q = "query_bytes i oid n" and ?d = "ph_info p oid"
  let ?k = "of_nat (length ?d) :: u32"
  have k: "length ?d \<le> 256" using assms(2) by (simp add: protocol_def)
  have uk: "unat ?k = length ?d" "unat (24 + ?k) = 24 + length ?d"
    using k by (simp_all add: unat_of_nat take_bit_eq_mod unat_word_ariths)
  let ?a = "words [0x80000004, 24 + ?k, i, 0, ?k, 16] @ ?d"
  have a: "ans ?q = ?a" using assms(2) by (simp add: protocol_def)
  have acc: "accepted i (IOSuccess, ans ?q)" "length (ans ?q) \<le> 1024" "length (ans ?q) = 24 + length ?d"
    using accepted_words [of "0x80000004" i "24 + ?k" "[0, ?k, 16]" ?d] k by (simp_all add: a)
  obtain cs w' where r: "rndis_rpc dv ?q resp i (u1, w) =
      Some (0, resp_of (IOSuccess, ans ?q), length (ans ?q), with_calls cs u1, w')" "sent cs = [?q]"
    by (rule in_touch_rpc [OF t assms(4) acc(2,1)])
  have lm: "length ?q = 28 + unat n" by (rule length_query_bytes [OF assms(5)])
  have n: "28 + unat n \<le> 1024" using assms(5) by auto
  define msg' where "msg' = ?q @ drop (28 + unat n) msg"
  have b: "rndis_build_query msg i oid (query_input n) n = Some (28 + unat n, msg')"
    unfolding msg'_def by (rule build_query_bytes [OF assms(3,5)])
  have l': "length msg' = 1024" using lm n assms(3) by (simp add: msg'_def)
  have ld: "load_bytes msg' 0 (28 + unat n) = Some ?q" using lm l' n by (simp add: msg'_def load_bytes_def)
  have p: "rndis_parse_query_cmplt ?a i = Some (0, Some (24, length ?d))"
    using check_words [of "0x80000004" "24 + ?k" i 0 "[?k, 16]" ?d "0x80000004" i] uk
    by (simp add: rndis_parse_query_cmplt_def buf_simps words_Cons bytes32_def word32_bytes word32_16)
  have info: "load_bytes (resp_of (IOSuccess, ?a)) 24 (length ?d) = Some ?d"
    using k by (simp add: load_bytes_def resp_of_def)
  have "query_oid dv msg resp oid (query_input n) n (u, w) =
      Some (Some ?d, msg', resp_of (IOSuccess, ans ?q), with_calls cs u1, w')"
    using b ld r p info take_resp_of [OF acc(2), of IOSuccess] by (simp add: query_oid_def x a)
  then show thesis
    by (rule that [unfolded x fst_conv snd_conv]) (use r acc(2) l' in \<open>simp_all add: resp_of_def\<close>)
qed

lemma set_filter_answered:
  assumes "in_touch dv ans u" "protocol p ans" "length msg = 1024" "length resp = 1024"
  obtains cs w' where "set_filter dv msg resp (u, w) = Some (0, with_calls cs (snd (next_xid u)), w')"
    "sent cs = [filter_bytes (fst (next_xid u))]"
proof -
  obtain i u1 where x: "next_xid u = (i, u1)" by fastforce
  have t: "in_touch dv ans u1" using assms(1) in_touch_simps(2) [of dv ans u] x by simp
  have a: "ans (filter_bytes i) = words [0x80000005, 16, i, 0]" using assms(2) by (simp add: protocol_def)
  have acc: "accepted i (IOSuccess, ans (filter_bytes i))" "length (ans (filter_bytes i)) \<le> 1024"
    using accepted_words [of "0x80000005" i 16 "[0]" "[]"] by (simp_all add: a)
  obtain cs w' where r: "rndis_rpc dv (filter_bytes i) resp i (u1, w) =
      Some (0, resp_of (IOSuccess, ans (filter_bytes i)), length (ans (filter_bytes i)), with_calls cs u1, w')"
    "sent cs = [filter_bytes i]"
    by (rule in_touch_rpc [OF t assms(4) acc(2,1)])
  obtain filt where f: "at_wr32le (replicate 4 0) 0 RNDIS_DEFAULT_FILTER = Some filt"
    "rndis_build_set msg i RNDIS_OID_GEN_CURRENT_PACKET_FILTER filt 4 = Some (32, filter_bytes i @ drop 32 msg)"
    using build_filter [OF assms(3)] by blast
  have ld: "load_bytes (filter_bytes i @ drop 32 msg) 0 32 = Some (filter_bytes i)"
    by (simp add: load_bytes_def filter_bytes_def)
  have "set_filter dv msg resp (u, w) = Some (0, with_calls cs u1, w')"
    using f ld r take_resp_of [OF acc(2), of IOSuccess] check_words [of "0x80000005" 16 i 0 "[]" "[]" "0x80000005" i]
    by (simp add: set_filter_def x a rndis_parse_set_cmplt_def)
  then show thesis by (rule that [unfolded x fst_conv snd_conv]) (simp add: r)
qed

text \<open>The fields and the ids after a successful initialisation.\<close>

definition session_up :: "phone \<Rightarrow> at_usb \<Rightarrow> bool" where
  "session_up p u \<longleftrightarrow> u_max_packets u = max 1 (min 32 (ph_packets p)) \<and>
     u_packet_align_shift u = max 2 (min 8 (ph_align p)) \<and>
     u_rndis_link_mbps u = word_at (ph_info p RNDIS_OID_GEN_LINK_SPEED) 0 div 10000 \<and>
     u_max_frame u = word_at (ph_info p RNDIS_OID_GEN_MAXIMUM_FRAME_SIZE) 0"

lemma next_xid_small: "u_xid u < 1000 \<Longrightarrow> next_xid u = (u_xid u + 1, u\<lparr>u_xid := u_xid u + 1\<rparr>)"
proof -
  assume "u_xid u < 1000"
  then have "u_xid u + 1 \<noteq> 0" using unat_eq_zero [of "u_xid u + 1"] by (simp add: word_less_nat_alt unat_word_ariths)
  then show ?thesis by (simp add: next_xid_def Let_def)
qed

lemma clamp_fields [simp]:
  "u_xid (clamp_init init u) = u_xid u" "u_calls (clamp_init init u) = u_calls u"
  by (simp_all add: clamp_init_def Let_def)

text \<open>
  C33: a phone that speaks the protocol is brought up: starting from a freshly opened device the
  initialisation sends INITIALIZE, one query for the MAC, the two capacity queries and last the packet
  filter, with the ids 2 to 6; it succeeds with the phone's MAC, and the session parameters are the
  phone's, brought into range.
\<close>

theorem init_succeeds:
  assumes "in_touch dv ans u" "protocol p ans" "u_opened u" "u_xid u = 1"
    "6 \<le> length (ph_info p RNDIS_OID_802_3_PERMANENT_ADDRESS)"
    "4 \<le> length (ph_info p RNDIS_OID_GEN_LINK_SPEED)" "0 < word_at (ph_info p RNDIS_OID_GEN_LINK_SPEED) 0"
    "4 \<le> length (ph_info p RNDIS_OID_GEN_MAXIMUM_FRAME_SIZE)"
  shows "\<exists>u' w'. at_usb_rndis_init dv (u, w) =
      Some (0, Some (take 6 (ph_info p RNDIS_OID_802_3_PERMANENT_ADDRESS)), Some (ph_init p), u', w') \<and>
    session_up p u' \<and>
    sent (u_calls u') = sent (u_calls u) @ [init_bytes 2, query_bytes 3 RNDIS_OID_802_3_PERMANENT_ADDRESS 48,
      query_bytes 4 RNDIS_OID_GEN_LINK_SPEED 0, query_bytes 5 RNDIS_OID_GEN_MAXIMUM_FRAME_SIZE 0, filter_bytes 6]"
proof -
  have l: "length (replicate 1024 (0 :: byte)) = 1024" by simp
  have in48: "query_input 48 = Some (replicate 48 0)" and in0: "query_input 0 = None" by (simp_all add: query_input_def)
  have n48: "(48 :: u32) = 0 \<or> (48 :: u32) = 48" and n0: "(0 :: u32) = 0 \<or> (0 :: u32) = 48" by simp_all
  obtain msg1 resp1 cs1 w1 where s1: "init_exchange dv (replicate 1024 0) (replicate 1024 0) (u, w) =
      Some (0, ph_init p, msg1, resp1, with_calls cs1 (snd (next_xid u)), w1)"
    "sent cs1 = [init_bytes (fst (next_xid u))]" "length msg1 = 1024" "length resp1 = 1024"
    by (rule init_exchange_answered [OF assms(1,2) l l])
  define u1 where "u1 = clamp_init (ph_init p) (with_calls cs1 (snd (next_xid u)))"
  have u1: "in_touch dv ans u1" "u_xid u1 = 2" "u_calls u1 = u_calls u @ cs1"
    using assms(1) by (simp add: u1_def) (use assms(4) in \<open>simp_all add: u1_def next_xid_small\<close>)
  obtain msg2 resp2 cs2 w2 where s2: "query_oid dv msg1 resp1 RNDIS_OID_802_3_PERMANENT_ADDRESS (Some (replicate 48 0)) 48 (u1, w1) =
      Some (Some (ph_info p RNDIS_OID_802_3_PERMANENT_ADDRESS), msg2, resp2, with_calls cs2 (snd (next_xid u1)), w2)"
    "sent cs2 = [query_bytes (fst (next_xid u1)) RNDIS_OID_802_3_PERMANENT_ADDRESS 48]" "length msg2 = 1024" "length resp2 = 1024"
    by (rule query_answered [OF u1(1) assms(2) s1(3,4) n48, of RNDIS_OID_802_3_PERMANENT_ADDRESS w1, unfolded in48])
  define u2 where "u2 = with_calls cs2 (snd (next_xid u1))"
  have u2: "in_touch dv ans u2" "u_xid u2 = 3" "u_calls u2 = u_calls u @ cs1 @ cs2"
    using u1(1) by (simp add: u2_def) (use u1 in \<open>simp_all add: u2_def next_xid_small\<close>)
  obtain msg3 resp3 cs3 w3 where s3: "query_oid dv (replicate 1024 0) (replicate 1024 0) RNDIS_OID_GEN_LINK_SPEED None 0 (u2, w2) =
      Some (Some (ph_info p RNDIS_OID_GEN_LINK_SPEED), msg3, resp3, with_calls cs3 (snd (next_xid u2)), w3)"
    "sent cs3 = [query_bytes (fst (next_xid u2)) RNDIS_OID_GEN_LINK_SPEED 0]" "length msg3 = 1024" "length resp3 = 1024"
    by (rule query_answered [OF u2(1) assms(2) l l n0, of RNDIS_OID_GEN_LINK_SPEED w2, unfolded in0])
  define u3 where "u3 = (with_calls cs3 (snd (next_xid u2)))\<lparr>u_rndis_link_mbps := word_at (ph_info p RNDIS_OID_GEN_LINK_SPEED) 0 div 10000\<rparr>"
  have u3: "in_touch dv ans u3" "u_xid u3 = 4" "u_calls u3 = u_calls u @ cs1 @ cs2 @ cs3"
    using u2(1) by (simp add: u3_def) (use u2 in \<open>simp_all add: u3_def next_xid_small\<close>)
  obtain msg4 resp4 cs4 w4 where s4: "query_oid dv msg3 resp3 RNDIS_OID_GEN_MAXIMUM_FRAME_SIZE None 0 (u3, w3) =
      Some (Some (ph_info p RNDIS_OID_GEN_MAXIMUM_FRAME_SIZE), msg4, resp4, with_calls cs4 (snd (next_xid u3)), w4)"
    "sent cs4 = [query_bytes (fst (next_xid u3)) RNDIS_OID_GEN_MAXIMUM_FRAME_SIZE 0]"
    by (rule query_answered [OF u3(1) assms(2) s3(3,4) n0, of RNDIS_OID_GEN_MAXIMUM_FRAME_SIZE w3, unfolded in0])
  define u4 where "u4 = (with_calls cs4 (snd (next_xid u3)))\<lparr>u_max_frame := word_at (ph_info p RNDIS_OID_GEN_MAXIMUM_FRAME_SIZE) 0\<rparr>"
  have u4: "in_touch dv ans u4" "u_xid u4 = 5" "u_calls u4 = u_calls u @ cs1 @ cs2 @ cs3 @ cs4"
    using u3(1) by (simp add: u4_def) (use u3 in \<open>simp_all add: u4_def next_xid_small\<close>)
  have cap: "query_capacity dv (u2, w2) = Some (u4, w4)"
    unfolding query_capacity_def opt_word using s3(1) s4(1) assms(6-8) by (simp add: u3_def u4_def buf_simps)
  obtain cs5 w5 where s5: "set_filter dv msg2 resp2 (u4, w4) = Some (0, with_calls cs5 (snd (next_xid u4)), w5)"
    "sent cs5 = [filter_bytes (fst (next_xid u4))]"
    by (rule set_filter_answered [OF u4(1) assms(2) s2(3,4)])
  let ?u5 = "with_calls cs5 (snd (next_xid u4))"
  have run: "at_usb_rndis_init dv (u, w) =
      Some (0, Some (take 6 (ph_info p RNDIS_OID_802_3_PERMANENT_ADDRESS)), Some (ph_init p), ?u5, w5)"
    using assms(3,5) s1(1) s2(1) cap s5(1)
    by (simp add: at_usb_rndis_init_def Let_def load_bytes_def flip: u1_def u2_def)
  have log: "sent (u_calls ?u5) = sent (u_calls u) @ [init_bytes 2, query_bytes 3 RNDIS_OID_802_3_PERMANENT_ADDRESS 48,
      query_bytes 4 RNDIS_OID_GEN_LINK_SPEED 0, query_bytes 5 RNDIS_OID_GEN_MAXIMUM_FRAME_SIZE 0, filter_bytes 6]"
    using s1(2) s2(2) s3(2) s4(2) s5(2) u1 u2 u3 u4 assms(4) by (simp add: next_xid_small)
  have "usb_core u1 = usb_core ?u5"
    unfolding u4_def u3_def u2_def usb_core_simps ..
  then have "u_max_packets ?u5 = max 1 (min 32 (ph_packets p))" "u_packet_align_shift ?u5 = max 2 (min 8 (ph_align p))"
    using clamp_core [of "ph_init p" "with_calls cs1 (snd (next_xid u))", folded u1_def]
    by (simp_all only: usb_core_def prod.inject ph_init_def rndis_init_result.select_convs)
  moreover have "u_rndis_link_mbps ?u5 = word_at (ph_info p RNDIS_OID_GEN_LINK_SPEED) 0 div 10000"
    "u_max_frame ?u5 = word_at (ph_info p RNDIS_OID_GEN_MAXIMUM_FRAME_SIZE) 0"
    by (simp_all add: u4_def u3_def with_calls_def next_xid_def Let_def)
  ultimately show ?thesis using run log unfolding session_up_def by blast
qed

text \<open>A phone: it keeps the completion of the last command until it is read.\<close>

definition sample_info :: "u32 \<Rightarrow> buf" where
  "sample_info oid = (if oid = RNDIS_OID_802_3_PERMANENT_ADDRESS then [0x02, 0x11, 0x22, 0x33, 0x44, 0x55]
     else if oid = RNDIS_OID_GEN_LINK_SPEED then bytes32 4250000 else bytes32 1500)"

definition sample_radio :: phone where
  "sample_radio = \<lparr>ph_flags = 1, ph_medium = 0, ph_packets = 1, ph_xfer = 0x4000, ph_align = 0, ph_info = sample_info\<rparr>"

definition sample_answer :: "buf \<Rightarrow> buf" where
  "sample_answer m =
     (let i = word_at m 8 in
      if word_at m 0 = 2 then words [0x80000002, 52, i, 0, 1, 0, 1, 0, 1, 0x4000, 0, 0, 0]
      else if word_at m 0 = 4 then
        (let d = sample_info (word_at m 12) in
         words [0x80000004, 24 + of_nat (length d), i, 0, of_nat (length d), 16] @ d)
      else words [0x80000005, 16, i, 0])"

definition sample_dev :: "buf usb_dev" where
  "sample_dev = \<lparr>dv_out = (\<lambda>n m w. (IOSuccess, sample_answer m)), dv_in = (\<lambda>n cap w. ((IOSuccess, w), [])),
     dv_intr = (\<lambda>w. (IOTimeout, w))\<rparr>"

lemma sample_protocol: "protocol sample_radio sample_answer"
proof -
  have w: "word_at (words [a, b, c]) 0 = a" "word_at (words (a # b # c # d # ws) @ r) 8 = c"
    "word_at (words (a # b # c # d # ws) @ r) 0 = a" "word_at (words (a # b # c # d # ws) @ r) 12 = d" for a b c d ws r
    by (simp_all add: words_Cons bytes32_def word32_bytes)
  note w' = w(2-4) [where r = "[]", simplified append_Nil2]
  have l: "length (sample_info oid) \<le> 256" for oid by (simp add: sample_info_def)
  have q: "sample_answer (query_bytes i oid n) =
      words [0x80000004, 24 + of_nat (length (sample_info oid)), i, 0, of_nat (length (sample_info oid)), 16] @ sample_info oid" for i oid n
    unfolding sample_answer_def query_bytes_def Let_def w by simp
  have f: "sample_answer (filter_bytes i) = words [0x80000005, 16, i, 0]" for i
    unfolding sample_answer_def filter_bytes_def Let_def w' by simp
  have "sample_answer (init_bytes i) = words [0x80000002, 52, i, 0, 1, 0, 1, 0, 1, 0x4000, 0, 0, 0]" for i
    unfolding sample_answer_def init_bytes_def Let_def w' by simp
  then show ?thesis unfolding protocol_def using q f l by (simp add: sample_radio_def)
qed

definition opened_usb :: at_usb where
  "opened_usb = usb_zero\<lparr>u_control_ifc := True, u_data_ifc := True, u_opened := True, u_xid := 1,
     u_max_xfer := AT_MAX_TRANSFER, u_max_packets := 1, u_packet_align_shift := 2, u_bulk_in := 1,
     u_bulk_out := 2, u_interrupt_in := 1, u_bus_mbps := 480\<rparr>"

theorem init_succeeds_witness:
  "\<exists>u' w'. at_usb_rndis_init sample_dev (opened_usb, []) =
     Some (0, Some [0x02, 0x11, 0x22, 0x33, 0x44, 0x55], Some (ph_init sample_radio), u', w') \<and> session_up sample_radio u'"
proof -
  have i: "ph_info sample_radio = sample_info" by (simp add: sample_radio_def)
  have "word_at (bytes32 4250000) 0 = 4250000"
    using word_at_words(1) [of 4250000 "[]" "[]"] by (simp add: words_def)
  then have "0 < word_at (sample_info RNDIS_OID_GEN_LINK_SPEED) 0" unfolding sample_info_def by simp
  moreover have "in_touch sample_dev sample_answer opened_usb"
    by (simp add: in_touch_def answers_def sample_dev_def opened_usb_def usb_zero_def)
  ultimately show ?thesis
    using init_succeeds [of sample_dev sample_answer opened_usb sample_radio "[]", unfolded i]
    by (simp add: sample_protocol) (fastforce simp: sample_info_def opened_usb_def)
qed

theorem init_bounds_witness:
  "case at_usb_rndis_init script_dev (opened_usb, []) of None \<Rightarrow> False
   | Some (rc, mac, init, u', w') \<Rightarrow> (rc = 0 \<or> rc = -1) \<and> u_max_xfer u' \<le> AT_MAX_TRANSFER"
proof -
  have "1024 \<le> u_max_xfer opened_usb" "u_max_xfer opened_usb \<le> AT_MAX_TRANSFER" by (simp_all add: opened_usb_def)
  from init_bounds [OF script_dev_bounded this, of "[]"] show ?thesis by (auto split: option.splits)
qed

end
