(* ===== verification/UsbBulk.thy ===== *)
theory UsbBulk
  imports UsbRndis
begin

text \<open>
  The data side of \<open>engine/src/usb_rndis.c\<close>: synchronous bulk transfers, the two asynchronous receive
  slots and the transmit slot with their completions, the watch for an unplugged device, and opening
  and closing the device. Results of IOKit calls are arguments, in the order of the calls; \<open>None\<close> is
  undefined behaviour (a call through an interface that is not open).
\<close>

abbreviation (input) AT_USB_IN_DEPTH :: nat where "AT_USB_IN_DEPTH \<equiv> 2"

definition data_ifc :: "at_usb \<Rightarrow> usb_ifc option" where
  "data_ifc u = (if u_data_ifc u then Some DataIfc else if u_control_ifc u then Some CtlIfc else None)"

text \<open>The results that mean the device has left.\<close>

definition left_result :: "io_return \<Rightarrow> bool" where
  "left_result r \<longleftrightarrow> r = IONotOpen \<or> r = IONoDevice \<or> r = IONotResponding \<or> r = IOOffline"

section \<open>Synchronous transfers\<close>

definition at_usb_bulk_write :: "io_return \<Rightarrow> buf \<Rightarrow> at_usb \<Rightarrow> int \<times> at_usb" where
  "at_usb_bulk_write r dat u =
     (if length dat = 0 then (-1, u) else
      case data_ifc u of None \<Rightarrow> (-1, u)
      | Some ifc \<Rightarrow>
          (let u = ucall (UWritePipe ifc (u_bulk_out u) dat) u in
           if r \<noteq> IOSuccess
           then (-1, if r = IOPipeStalled then ucall (UClearStall ifc (u_bulk_out u)) u else u)
           else (0, u)))"

text \<open>\<open>n\<close> is the length IOKit leaves in \<open>n\<close>. The result: return value and \<open>*got\<close>, if it is written.\<close>

definition at_usb_bulk_read :: "io_return \<Rightarrow> nat \<Rightarrow> nat \<Rightarrow> nat \<Rightarrow> at_usb \<Rightarrow> int \<times> nat option \<times> at_usb" where
  "at_usb_bulk_read r n cap timeout_ms u =
     (if cap = 0 then (-1, None, u) else
      case data_ifc u of None \<Rightarrow> (-1, Some 0, u)
      | Some ifc \<Rightarrow>
          (let timeout_ms = (if timeout_ms = 0 then 1 else timeout_ms);
               u = ucall (UReadPipe ifc (u_bulk_in u) timeout_ms (timeout_ms + 2000)) u in
           if (r = IOSuccess \<or> r = IOUnderrun) \<and> n > 0 then (0, Some n, u)
           else if r = IOTimeout \<or> r = IOAborted \<or> r = IOTransactionTimeout then (1, Some 0, u)
           else (-1, Some 0, if left_result r then u\<lparr>u_gone := True\<rparr> else u)))"

definition at_usb_abort_in :: "io_return \<Rightarrow> at_usb \<Rightarrow> int \<times> at_usb" where
  "at_usb_abort_in r u =
     (case data_ifc u of None \<Rightarrow> (-1, u)
      | Some ifc \<Rightarrow> if u_bulk_in u = 0 then (-1, u)
          else (if r = IOSuccess \<or> r = IOAborted then 0 else -1, ucall (UAbortPipe ifc (u_bulk_in u)) u))"

definition at_usb_abort_out :: "io_return \<Rightarrow> at_usb \<Rightarrow> int \<times> at_usb" where
  "at_usb_abort_out r u =
     (case data_ifc u of None \<Rightarrow> (-1, u)
      | Some ifc \<Rightarrow> if u_bulk_out u = 0 then (-1, u)
          else (if r = IOSuccess \<or> r = IOAborted then 0 else -1, ucall (UAbortPipe ifc (u_bulk_out u)) u))"

definition at_usb_clear_stall :: "io_return \<Rightarrow> io_return \<Rightarrow> bool \<Rightarrow> at_usb \<Rightarrow> int \<times> at_usb" where
  "at_usb_clear_stall r1 r2 is_in u =
     (case data_ifc u of None \<Rightarrow> (-1, u)
      | Some ifc \<Rightarrow>
          (let pipe = (if is_in then u_bulk_in u else u_bulk_out u) in
           if pipe = 0 then (-1, u)
           else let u = ucall (UClearStall ifc pipe) u in
             if r1 \<noteq> IOSuccess then (if r2 = IOSuccess then 0 else -1, ucall (UClearStall ifc pipe) u)
             else (0, u)))"

section \<open>What the engine asks about the session\<close>

definition at_usb_max_transfer :: "at_usb option \<Rightarrow> u32" where
  "at_usb_max_transfer u = (case u of Some u \<Rightarrow> u_max_xfer u | None \<Rightarrow> AT_MAX_TRANSFER)"

definition at_usb_max_packets :: "at_usb option \<Rightarrow> u32" where
  "at_usb_max_packets u = (case u of Some u \<Rightarrow> if u_max_packets u \<noteq> 0 then u_max_packets u else 1 | None \<Rightarrow> 1)"

definition at_usb_packet_align :: "at_usb option \<Rightarrow> u32" where
  "at_usb_packet_align u =
     (case u of Some u \<Rightarrow> if u_packet_align_shift u \<noteq> 0 then u_packet_align_shift u else 2 | None \<Rightarrow> 2)"

definition at_usb_bus_mbps :: "at_usb option \<Rightarrow> u32" where
  "at_usb_bus_mbps u = (case u of Some u \<Rightarrow> if u_bus_mbps u \<noteq> 0 then u_bus_mbps u else 480 | None \<Rightarrow> 480)"

definition at_usb_rndis_link_mbps :: "at_usb option \<Rightarrow> u32" where
  "at_usb_rndis_link_mbps u = (case u of Some u \<Rightarrow> u_rndis_link_mbps u | None \<Rightarrow> 0)"

section \<open>Asynchronous transfers\<close>

text \<open>
  A completion of slot \<open>i\<close> with result \<open>r\<close> and length \<open>n\<close>. The first component is the call of the
  engine's callback: its arguments \<open>rc\<close>, \<open>got\<close> and \<open>buf\<close>.
\<close>

definition async_in_done :: "nat \<Rightarrow> io_return \<Rightarrow> nat \<Rightarrow> at_usb \<Rightarrow> ((int \<times> nat \<times> nat option) option \<times> at_usb) option" where
  "async_in_done i r n u = do {
     s \<leftarrow> load8 (u_in_urb u) i;
     (let u = u\<lparr>u_in_urb := (u_in_urb u)[i := s\<lparr>urb_busy := False\<rparr>]\<rparr>;
          (rc, n, u) =
            (if r = IOTimeout \<or> r = IOTransactionTimeout \<or> r = IOAborted then (1, 0, u)
             else if r \<noteq> IOSuccess \<and> r \<noteq> IOUnderrun
             then (-1, 0, if left_result r then u\<lparr>u_gone := True\<rparr> else u)
             else (0, n, u))
      in Some (if u_in_cb u then Some (rc, n, urb_buf s) else None, u)) }"

definition async_out_done :: "io_return \<Rightarrow> at_usb \<Rightarrow> int option \<times> at_usb" where
  "async_out_done r u =
     (let u = u\<lparr>u_out_urb := (u_out_urb u)\<lparr>urb_busy := False\<rparr>\<rparr>;
          rc = (if r = IOTimeout \<or> r = IOTransactionTimeout \<or> r = IOAborted then 1
                else if r \<noteq> IOSuccess \<and> r \<noteq> IOUnderrun then -1 else 0)
      in (if u_out_cb u then Some rc else None, u))"

datatype io_message = ServiceIsTerminated | ServiceIsRequestingClose | ServiceWasClosed | OtherMessage

definition usb_interest :: "io_message \<Rightarrow> at_usb \<Rightarrow> at_usb" where
  "usb_interest m u =
     (if m = ServiceIsTerminated \<or> m = ServiceIsRequestingClose \<or> m = ServiceWasClosed
      then let u = u\<lparr>u_gone := True\<rparr> in if u_async_rl u then ucall UWakeUp u else u
      else u)"

text \<open>\<open>src\<close>: whether the notification port has a run loop source.\<close>

definition detach_unplug_watch :: "bool \<Rightarrow> at_usb \<Rightarrow> at_usb" where
  "detach_unplug_watch src u =
     (let u = (if u_interest u then (ucall UReleaseInterest u)\<lparr>u_interest := False\<rparr> else u) in
      if u_notify_port u then
        let u = (if u_async_rl u \<and> src then ucall URemoveSource u else u)
        in (ucall UPortDestroy u)\<lparr>u_notify_port := False\<rparr>
      else u)"

text \<open>\<open>port\<close>: a port could be created; \<open>ok\<close>: the interest was registered.\<close>

definition attach_unplug_watch :: "bool \<Rightarrow> bool \<Rightarrow> bool \<Rightarrow> at_usb \<Rightarrow> at_usb" where
  "attach_unplug_watch port src ok u =
     (if \<not> u_device_service u \<or> u_notify_port u \<or> \<not> u_async_rl u then u
      else if \<not> port then u
      else let u = (ucall UPortCreate u)\<lparr>u_notify_port := True\<rparr>;
               u = (if src then ucall UAddSource u else u)
           in if ok then (ucall UAddInterest u)\<lparr>u_interest := True\<rparr> else detach_unplug_watch src u)"

definition at_usb_async_attach :: "io_return \<Rightarrow> bool \<Rightarrow> bool \<times> bool \<times> bool \<Rightarrow> at_usb \<Rightarrow> int \<times> at_usb" where
  "at_usb_async_attach r source watch u =
     (case data_ifc u of None \<Rightarrow> (-1, u)
      | Some ifc \<Rightarrow>
          if r \<noteq> IOSuccess \<or> \<not> source then (-1, u)
          else let u = ucall UAddSource ((ucall UCreateSource u)\<lparr>u_async_src := True, u_async_rl := True\<rparr>);
                   u = u\<lparr>u_in_cb := False, u_out_cb := False,
                         u_in_urb := replicate AT_USB_IN_DEPTH \<lparr>urb_busy = False, urb_buf = None\<rparr>,
                         u_out_urb := \<lparr>urb_busy = False, urb_buf = None\<rparr>\<rparr>
               in (0, case watch of (port, src, ok) \<Rightarrow> attach_unplug_watch port src ok u))"

definition at_usb_async_detach :: "bool \<Rightarrow> at_usb \<Rightarrow> at_usb" where
  "at_usb_async_detach src u =
     (let u = detach_unplug_watch src u;
          u = (if u_async_src u \<and> u_async_rl u then ucall UReleaseSource (ucall URemoveSource u) else u)
      in u\<lparr>u_async_src := False, u_async_rl := False, u_in_cb := False, u_out_cb := False\<rparr>)"

text \<open>The first slot that is not busy (\<open>atomic_exchange\<close> leaves the busy ones as they are).\<close>

fun free_slot :: "nat \<Rightarrow> urb list \<Rightarrow> nat option" where
  "free_slot i [] = None"
| "free_slot i (s # ss) = (if urb_busy s then free_slot (i + 1) ss else Some i)"

definition at_usb_async_submit_in :: "io_return \<Rightarrow> io_return \<Rightarrow> nat \<Rightarrow> nat \<Rightarrow> at_usb \<Rightarrow> (int \<times> at_usb) option" where
  "at_usb_async_submit_in r1 r2 b cap u =
     (if cap = 0 then Some (-1, u) else
      case free_slot 0 (u_in_urb u) of None \<Rightarrow> Some (0, u)
      | Some i \<Rightarrow>
          (let u = u\<lparr>u_in_cb := True, u_in_urb := (u_in_urb u)[i := \<lparr>urb_busy = True, urb_buf = Some b\<rparr>]\<rparr> in
           case data_ifc u of None \<Rightarrow> None
           | Some ifc \<Rightarrow>
               (let u = ucall (UReadAsync ifc (u_bulk_in u) b i) u;
                    (r, u) = (if r1 \<noteq> IOSuccess then (r2, ucall (UReadAsync ifc (u_bulk_in u) b i) u) else (r1, u)) in
                if r \<noteq> IOSuccess
                then Some (-1, (u\<lparr>u_in_urb := (u_in_urb u)[i := (u_in_urb u ! i)\<lparr>urb_busy := False\<rparr>]\<rparr>)
                                \<lparr>u_gone := (left_result r \<or> u_gone u)\<rparr>)
                else Some (0, u))))"

definition at_usb_async_submit_out :: "io_return \<Rightarrow> io_return \<Rightarrow> nat \<Rightarrow> nat \<Rightarrow> at_usb \<Rightarrow> (int \<times> at_usb) option" where
  "at_usb_async_submit_out r1 r2 b len u =
     (if len = 0 then Some (-1, u)
      else if urb_busy (u_out_urb u) then Some (1, u)
      else let u = u\<lparr>u_out_cb := True, u_out_urb := \<lparr>urb_busy = True, urb_buf = Some b\<rparr>\<rparr> in
        case data_ifc u of None \<Rightarrow> None
        | Some ifc \<Rightarrow>
            (let u = ucall (UWriteAsync ifc (u_bulk_out u) b) u;
                 (r, u) = (if r1 \<noteq> IOSuccess then (r2, ucall (UWriteAsync ifc (u_bulk_out u) b) u) else (r1, u)) in
             if r \<noteq> IOSuccess
             then Some (-1, u\<lparr>u_out_urb := (u_out_urb u)\<lparr>urb_busy := False\<rparr>\<rparr>)
             else Some (0, u)))"

definition at_usb_async_out_busy :: "at_usb option \<Rightarrow> bool" where
  "at_usb_async_out_busy u = (case u of Some u \<Rightarrow> urb_busy (u_out_urb u) | None \<Rightarrow> False)"

definition at_usb_async_run :: "at_usb \<Rightarrow> int \<times> at_usb" where
  "at_usb_async_run u = (if \<not> u_async_rl u then (-1, u) else (0, ucall URunLoop u))"

definition at_usb_async_wake :: "at_usb option \<Rightarrow> at_usb option" where
  "at_usb_async_wake u = (case u of None \<Rightarrow> None | Some u \<Rightarrow> Some (if u_async_rl u then ucall UWakeUp u else u))"

section \<open>Opening and closing\<close>

definition close_ifc :: "usb_ifc \<Rightarrow> at_usb \<Rightarrow> at_usb" where
  "close_ifc i u = ucall (UIfcRelease i) (ucall (UIfcClose i) u)"

definition at_usb_close :: "bool \<Rightarrow> at_usb \<Rightarrow> at_usb" where
  "at_usb_close src u =
     (let u = at_usb_async_detach src u;
          u = (if u_data_ifc u then (close_ifc DataIfc u)\<lparr>u_data_ifc := False\<rparr> else u);
          u = (if u_control_ifc u then (close_ifc CtlIfc u)\<lparr>u_control_ifc := False\<rparr> else u);
          u = (if u_dev u then (ucall UDevRelease (ucall UDevClose u))\<lparr>u_dev := False\<rparr> else u)
      in if u_device_service u then (ucall USvcRelease u)\<lparr>u_device_service := False\<rparr> else u)"

datatype pipe_type = PipeBulk | PipeInterrupt | PipeOther
datatype pipe_dir = PipeIn | PipeOut | PipeAny

text \<open>
  Pipe \<open>i\<close> of an interface, counted from 1; \<open>None\<close> when its properties cannot be read. An interface has
  at most 30 pipes, so the 8-bit counter of the loop does not wrap.
\<close>

fun classify_loop :: "byte \<Rightarrow> (pipe_type \<times> pipe_dir) option list \<Rightarrow> at_usb \<Rightarrow> at_usb" where
  "classify_loop i [] u = u"
| "classify_loop i (None # ps) u = classify_loop (i + 1) ps u"
| "classify_loop i (Some (xfer, dir) # ps) u =
     (let u = (if xfer = PipeBulk \<and> dir = PipeIn \<and> u_bulk_in u = 0 then u\<lparr>u_bulk_in := i\<rparr> else u);
          u = (if xfer = PipeBulk \<and> dir = PipeOut \<and> u_bulk_out u = 0 then u\<lparr>u_bulk_out := i\<rparr> else u);
          u = (if xfer = PipeInterrupt \<and> dir = PipeIn \<and> u_interrupt_in u = 0 then u\<lparr>u_interrupt_in := i\<rparr> else u)
      in classify_loop (i + 1) ps u)"

text \<open>\<open>None\<close>: the number of endpoints cannot be read.\<close>

definition classify_pipes :: "(pipe_type \<times> pipe_dir) option list option \<Rightarrow> at_usb \<Rightarrow> at_usb" where
  "classify_pipes ps u = (case ps of None \<Rightarrow> u | Some ps \<Rightarrow> classify_loop 1 ps u)"

text \<open>One interface of the device: its plug-in could be created, its number, the two attempts to open it.\<close>

record ifc_env =
  ie_plugin :: bool
  ie_num :: byte
  ie_seize :: io_return
  ie_open :: io_return

fun open_loop :: "usb_ifc \<Rightarrow> byte \<Rightarrow> ifc_env list \<Rightarrow> at_usb \<Rightarrow> int \<times> at_usb" where
  "open_loop which want [] u = (-1, u)"
| "open_loop which want (c # cs) u =
     (if ie_plugin c then
        let u = ucall (UIfcCreate which (ie_num c)) u in
        if ie_num c = want then
          let u = ucall (UIfcOpenSeize which want) u;
              (orc, u) = (if ie_seize c \<noteq> IOSuccess then (ie_open c, ucall (UIfcOpen which want) u)
                          else (ie_seize c, u)) in
          if orc = IOSuccess then (0, u)
          else open_loop which want cs (ucall (UIfcDrop which (ie_num c)) u)
        else open_loop which want cs (ucall (UIfcDrop which (ie_num c)) u)
      else open_loop which want cs u)"

definition open_one_interface :: "usb_ifc \<Rightarrow> byte \<Rightarrow> ifc_env list option \<Rightarrow> at_usb \<Rightarrow> int \<times> at_usb" where
  "open_one_interface which want cs u = (case cs of None \<Rightarrow> (-1, u) | Some cs \<Rightarrow> open_loop which want cs u)"

record open_env =
  oe_mem :: bool
  oe_plugin :: bool
  oe_seize :: io_return
  oe_open :: io_return
  oe_ctl :: "ifc_env list option"
  oe_data :: "ifc_env list option"
  oe_endpoints :: nat
  oe_data_pipes :: "(pipe_type \<times> pipe_dir) option list option"
  oe_ctl_pipes :: "(pipe_type \<times> pipe_dir) option list option"
  oe_speed :: "nat option"

definition usb_calloc :: at_usb where
  "usb_calloc = usb_zero\<lparr>u_device_service := True, u_max_xfer := AT_MAX_TRANSFER, u_max_packets := 1,
     u_packet_align_shift := 2, u_bus_mbps := 480, u_xid := 1, u_calls := [USvcFound]\<rparr>"

definition bus_speed :: "nat option \<Rightarrow> at_usb \<Rightarrow> at_usb" where
  "bus_speed sp u =
     (case sp of None \<Rightarrow> u
      | Some sp \<Rightarrow> u\<lparr>u_bus_mbps := (if sp = 0 then 2 else if sp = 1 then 12 else if sp = 2 then 480
                                  else if sp = 3 then 5000 else 10000)\<rparr>)"

text \<open>Opening the device and choosing the interface numbers.\<close>

definition open_device :: "open_env \<Rightarrow> at_usb_device_info \<Rightarrow> at_usb \<Rightarrow> at_usb" where
  "open_device v live u =
     (let u = ucall UDevOpenSeize ((ucall UDevCreate u)\<lparr>u_dev := True\<rparr>);
          u = (if oe_seize v \<noteq> IOSuccess then ucall UDevOpen u else u)
      in u\<lparr>u_control_num := di_control_ifc live, u_data_num := di_data_ifc live\<rparr>)"

definition choose_data_num :: "at_usb \<Rightarrow> at_usb" where
  "choose_data_num u = (if u_data_num u = u_control_num u then u\<lparr>u_data_num := u_control_num u + 1\<rparr> else u)"

definition open_data :: "open_env \<Rightarrow> at_usb \<Rightarrow> at_usb" where
  "open_data v u =
     (let (rc, u) = open_one_interface DataIfc (u_data_num u) (oe_data v) u; u = u\<lparr>u_data_ifc := (rc = 0)\<rparr> in
      if u_data_ifc u then
        let u = (if oe_endpoints v = 0 then ucall (USetAlternate 1) u else u)
        in classify_pipes (oe_data_pipes v) u
      else u)"

text \<open>The handle (whether one is returned) and the device structure as it is then, or when it was freed.\<close>

definition at_usb_open :: "open_env \<Rightarrow> reg_device list option \<Rightarrow> at_usb_device_info option \<Rightarrow> bool \<times> at_usb" where
  "at_usb_open v it want =
     (case want of None \<Rightarrow> (False, usb_zero)
      | Some want \<Rightarrow>
      case find_service it want of None \<Rightarrow> (False, usb_zero)
      | Some svc \<Rightarrow>
      let live = fill_device_info svc in
      if \<not> oe_mem v then (False, usb_zero\<lparr>u_calls := [USvcFound, USvcRelease]\<rparr>) else
      let u = usb_calloc in
      if \<not> oe_plugin v then (False, at_usb_close False u) else
      let u = open_device v live u in
      if di_kind live \<noteq> AT_KIND_RNDIS then (False, at_usb_close False u) else
      let u = choose_data_num u; (rc, u) = open_one_interface CtlIfc (u_control_num u) (oe_ctl v) u in
      if rc \<noteq> 0 then (False, at_usb_close False u) else
      let u = open_data v (u\<lparr>u_control_ifc := True\<rparr>); u = classify_pipes (oe_ctl_pipes v) u in
      if u_bulk_in u = 0 \<or> u_bulk_out u = 0 then (False, at_usb_close False u) else
      (True, bus_speed (oe_speed v) (u\<lparr>u_opened := True\<rparr>)))"

section \<open>Every resource is released\<close>

text \<open>The resources a session holds on to, and the balance of acquisitions and releases in a log of calls.\<close>

datatype usb_res = RService | RDevice | RIfc usb_ifc | RSource | RLoopSource | RPort | RInterest

fun effect :: "usb_call \<Rightarrow> usb_res \<Rightarrow> int" where
  "effect USvcFound r = of_bool (r = RService)"
| "effect USvcRelease r = - of_bool (r = RService)"
| "effect UDevCreate r = of_bool (r = RDevice)"
| "effect UDevRelease r = - of_bool (r = RDevice)"
| "effect (UIfcCreate i n) r = of_bool (r = RIfc i)"
| "effect (UIfcDrop i n) r = - of_bool (r = RIfc i)"
| "effect (UIfcRelease i) r = - of_bool (r = RIfc i)"
| "effect UCreateSource r = of_bool (r = RSource)"
| "effect UReleaseSource r = - of_bool (r = RSource)"
| "effect UAddSource r = of_bool (r = RLoopSource)"
| "effect URemoveSource r = - of_bool (r = RLoopSource)"
| "effect UPortCreate r = of_bool (r = RPort)"
| "effect UPortDestroy r = - of_bool (r = RPort)"
| "effect UAddInterest r = of_bool (r = RInterest)"
| "effect UReleaseInterest r = - of_bool (r = RInterest)"
| "effect _ r = 0"

definition balance :: "usb_call list \<Rightarrow> usb_res \<Rightarrow> int" where
  "balance cs r = (\<Sum>c\<leftarrow>cs. effect c r)"

text \<open>What the fields say is held; \<open>src\<close>: a notification port brings a run loop source.\<close>

fun held :: "bool \<Rightarrow> at_usb \<Rightarrow> usb_res \<Rightarrow> bool" where
  "held src u RService = u_device_service u"
| "held src u RDevice = u_dev u"
| "held src u (RIfc CtlIfc) = u_control_ifc u"
| "held src u (RIfc DataIfc) = u_data_ifc u"
| "held src u RSource = u_async_src u"
| "held src u RLoopSource = False"
| "held src u RPort = u_notify_port u"
| "held src u RInterest = u_interest u"

definition loop_sources :: "bool \<Rightarrow> at_usb \<Rightarrow> int" where
  "loop_sources src u = of_bool (u_async_src u) + of_bool (u_notify_port u \<and> src)"

definition res_ok :: "bool \<Rightarrow> at_usb \<Rightarrow> bool" where
  "res_ok src u \<longleftrightarrow>
     (\<forall>r. balance (u_calls u) r = (if r = RLoopSource then loop_sources src u else of_bool (held src u r))) \<and>
     u_async_src u = u_async_rl u \<and> (u_interest u \<longrightarrow> u_notify_port u) \<and> (u_notify_port u \<longrightarrow> u_async_rl u)"

lemma balance_simps [simp]: "balance [] r = 0" "balance (c # cs) r = effect c r + balance cs r"
  "balance (cs @ ds) r = balance cs r + balance ds r"
  by (simp_all add: balance_def)

lemma ucall_simps [simp]:
  "u_calls (ucall c u) = u_calls u @ [c]" "u_dev (ucall c u) = u_dev u"
  "u_control_ifc (ucall c u) = u_control_ifc u" "u_data_ifc (ucall c u) = u_data_ifc u"
  "u_device_service (ucall c u) = u_device_service u" "u_notify_port (ucall c u) = u_notify_port u"
  "u_interest (ucall c u) = u_interest u" "u_gone (ucall c u) = u_gone u"
  "u_bulk_in (ucall c u) = u_bulk_in u" "u_bulk_out (ucall c u) = u_bulk_out u"
  "u_interrupt_in (ucall c u) = u_interrupt_in u" "u_async_rl (ucall c u) = u_async_rl u"
  "u_async_src (ucall c u) = u_async_src u" "u_in_cb (ucall c u) = u_in_cb u"
  "u_out_cb (ucall c u) = u_out_cb u" "u_in_urb (ucall c u) = u_in_urb u" "u_out_urb (ucall c u) = u_out_urb u"
  "u_control_num (ucall c u) = u_control_num u" "u_data_num (ucall c u) = u_data_num u"
  "u_opened (ucall c u) = u_opened u" "u_xid (ucall c u) = u_xid u" "u_max_xfer (ucall c u) = u_max_xfer u"
  by (simp_all add: ucall_def)

lemma with_calls_data [simp]: "u_data_ifc (with_calls cs u) = u_data_ifc u" "u_async_rl (with_calls cs u) = u_async_rl u"
  by (simp_all add: with_calls_def)

lemma all_res: "(\<forall>r. P r) \<longleftrightarrow> P RService \<and> P RDevice \<and> P (RIfc CtlIfc) \<and> P (RIfc DataIfc) \<and> P RSource \<and>
  P RLoopSource \<and> P RPort \<and> P RInterest"
proof -
  have "P r" if "P RService" "P RDevice" "P (RIfc CtlIfc)" "P (RIfc DataIfc)" "P RSource" "P RLoopSource"
    "P RPort" "P RInterest" for r
    using that by (cases r; cases "case r of RIfc i \<Rightarrow> i | _ \<Rightarrow> CtlIfc"; simp)
  then show ?thesis by blast
qed

lemmas res_ok_iff = res_ok_def all_res loop_sources_def

text \<open>Changes of other fields and calls that acquire and release nothing keep the books right.\<close>

lemma res_ok_neutral: "res_ok src u \<Longrightarrow> (\<And>r. effect c r = 0) \<Longrightarrow> res_ok src (ucall c u)"
  by (simp add: res_ok_iff)

lemma detach_watch_res: "res_ok src u \<Longrightarrow> res_ok src (detach_unplug_watch src u)"
  by (cases "u_interest u"; cases "u_notify_port u"; cases src)
    (simp_all add: detach_unplug_watch_def res_ok_iff Let_def)

lemma detach_watch_fields: "res_ok src u \<Longrightarrow> \<not> u_interest (detach_unplug_watch src u) \<and> \<not> u_notify_port (detach_unplug_watch src u)"
  by (auto simp: detach_unplug_watch_def res_ok_iff Let_def)

lemma attach_watch_res: "res_ok src u \<Longrightarrow> res_ok src (attach_unplug_watch port src ok u)"
proof -
  assume ok: "res_ok src u"
  let ?v = "(ucall UPortCreate u)\<lparr>u_notify_port := True\<rparr>"
  let ?w = "if src then ucall UAddSource ?v else ?v"
  have "res_ok src ?w" "\<not> u_interest ?w \<and> u_notify_port ?w" if "\<not> u_notify_port u" "u_async_rl u"
    using ok that by (cases src; simp add: res_ok_iff)+
  moreover have "res_ok src ((ucall UAddInterest w)\<lparr>u_interest := True\<rparr>)"
    if "res_ok src w" "\<not> u_interest w \<and> u_notify_port w" for w
    using that by (simp add: res_ok_iff)
  ultimately show ?thesis
    using ok detach_watch_res [of src ?w] by (simp add: attach_unplug_watch_def Let_def)
qed

lemma detach_res:
  assumes "res_ok src u"
  shows "res_ok src (at_usb_async_detach src u)" "\<not> u_async_src (at_usb_async_detach src u)"
    "\<not> u_notify_port (at_usb_async_detach src u)" "\<not> u_interest (at_usb_async_detach src u)"
proof -
  define v where "v = detach_unplug_watch src u"
  have "res_ok src v" "\<not> u_interest v" "\<not> u_notify_port v"
    using detach_watch_res [OF assms] detach_watch_fields [OF assms] by (simp_all add: v_def)
  then show "res_ok src (at_usb_async_detach src u)" "\<not> u_async_src (at_usb_async_detach src u)"
    "\<not> u_notify_port (at_usb_async_detach src u)" "\<not> u_interest (at_usb_async_detach src u)"
    unfolding at_usb_async_detach_def v_def [symmetric] Let_def
    by (cases "u_async_src v"; simp add: res_ok_iff)+
qed

lemma close_res:
  assumes "res_ok src u"
  shows "balance (u_calls (at_usb_close src u)) r = 0"
proof -
  have "\<forall>r. balance (u_calls (at_usb_close src u)) r = 0"
    using detach_res [OF assms] unfolding at_usb_close_def Let_def
    by (simp add: res_ok_iff close_ifc_def)
  then show ?thesis ..
qed

text \<open>The calls one interface of the iterator causes, and whether it is the one kept.\<close>

definition try_ifc :: "usb_ifc \<Rightarrow> byte \<Rightarrow> ifc_env \<Rightarrow> bool \<times> usb_call list" where
  "try_ifc which want c =
     (let n = ie_num c; hit = (ie_seize c = IOSuccess \<or> ie_open c = IOSuccess);
          tries = [UIfcOpenSeize which want] @ (if ie_seize c \<noteq> IOSuccess then [UIfcOpen which want] else []) in
      if \<not> ie_plugin c then (False, [])
      else if n \<noteq> want then (False, [UIfcCreate which n, UIfcDrop which n])
      else (hit, [UIfcCreate which n] @ tries @ (if hit then [] else [UIfcDrop which n])))"

lemma open_loop_step:
  "open_loop which want (c # cs) u =
     (case try_ifc which want c of (hit, es) \<Rightarrow>
        if hit then (0, with_calls es u) else open_loop which want cs (with_calls es u))"
  by (simp add: try_ifc_def Let_def ucall_with)

lemma try_ifc_balance: "try_ifc which want c = (hit, es) \<Longrightarrow> balance es r = of_bool (hit \<and> r = RIfc which)"
  by (auto simp: try_ifc_def Let_def split: if_splits)

lemma open_loop_log:
  "\<exists>rc ds. open_loop which want cs u = (rc, with_calls ds u) \<and> (rc = 0 \<or> rc = -1) \<and>
     (\<forall>r. balance ds r = of_bool (rc = 0 \<and> r = RIfc which))"
proof (induction cs arbitrary: u)
  case Nil
  then show ?case by (auto intro!: exI [of _ "[]"])
next
  case (Cons c cs)
  obtain hit es where t: "try_ifc which want c = (hit, es)" by fastforce
  note b = try_ifc_balance [OF t]
  show ?case
  proof (cases hit)
    case True
    then show ?thesis unfolding open_loop_step t using b by (auto intro!: exI [of _ es])
  next
    case False
    obtain rc ds where "open_loop which want cs (with_calls es u) = (rc, with_calls ds (with_calls es u))"
      "rc = 0 \<or> rc = -1" "\<forall>r. balance ds r = of_bool (rc = 0 \<and> r = RIfc which)"
      using Cons.IH by blast
    then show ?thesis unfolding open_loop_step t using b False
      by (intro exI [of _ rc] exI [of _ "es @ ds"]) auto
  qed
qed

lemma open_one_log:
  obtains rc ds where "open_one_interface which want cs u = (rc, with_calls ds u)" "rc = 0 \<or> rc = -1"
    "\<And>r. balance ds r = of_bool (rc = 0 \<and> r = RIfc which)"
proof (cases cs)
  case None
  show thesis by (rule that [of "-1" "[]"]) (simp_all add: open_one_interface_def None)
next
  case (Some c)
  then show thesis using open_loop_log [of which want c u] that by (auto simp: open_one_interface_def)
qed

lemma classify_loop_fields:
  "\<exists>a b c. classify_loop i ps (u\<lparr>u_bulk_in := x, u_bulk_out := y, u_interrupt_in := z\<rparr>) =
     u\<lparr>u_bulk_in := a, u_bulk_out := b, u_interrupt_in := c\<rparr>"
proof (induction ps arbitrary: i x y z)
  case (Cons p ps)
  show ?case
  proof (cases p)
    case (Some q)
    obtain xfer dir where q: "q = (xfer, dir)" by fastforce
    have o: "u\<lparr>u_bulk_out := y, u_interrupt_in := z, u_bulk_in := i\<rparr> = u\<lparr>u_bulk_in := i, u_bulk_out := y, u_interrupt_in := z\<rparr>"
      "u\<lparr>u_bulk_in := x, u_interrupt_in := z, u_bulk_out := i\<rparr> = u\<lparr>u_bulk_in := x, u_bulk_out := i, u_interrupt_in := z\<rparr>"
      by simp_all
    show ?thesis
      using Cons.IH [where i = "i + 1" and x = "if xfer = PipeBulk \<and> dir = PipeIn \<and> x = 0 then i else x"
          and y = "if xfer = PipeBulk \<and> dir = PipeOut \<and> y = 0 then i else y"
          and z = "if xfer = PipeInterrupt \<and> dir = PipeIn \<and> z = 0 then i else z"]
      unfolding Some q classify_loop.simps Let_def by (cases xfer; cases dir; simp add: o split: if_splits)
  qed (use Cons.IH in simp)
qed (simp, metis)

lemma classify_pipes_fields:
  obtains a b c where "classify_pipes ps u = u\<lparr>u_bulk_in := a, u_bulk_out := b, u_interrupt_in := c\<rparr>"
proof (cases ps)
  case None
  show thesis by (rule that [of "u_interrupt_in u" "u_bulk_out u" "u_bulk_in u"]) (simp add: classify_pipes_def None)
qed (use classify_loop_fields [where u = u and i = 1 and x = "u_bulk_in u" and y = "u_bulk_out u"
    and z = "u_interrupt_in u"] that in \<open>auto simp: classify_pipes_def\<close>)

lemma res_pipes [simp]: "res_ok src (u\<lparr>u_bulk_in := a, u_bulk_out := b, u_interrupt_in := c\<rparr>) = res_ok src u"
  "res_ok src (u\<lparr>u_bus_mbps := d\<rparr>) = res_ok src u" "res_ok src (u\<lparr>u_opened := o'\<rparr>) = res_ok src u"
  "res_ok src (u\<lparr>u_gone := g\<rparr>) = res_ok src u"
  by (simp_all add: res_ok_iff)

text \<open>The stages of opening keep the books; \<open>fresh u\<close>: nothing asynchronous is set up yet.\<close>

lemma res_with_calls: "res_ok src u \<Longrightarrow> (\<And>r. balance ds r = 0) \<Longrightarrow> res_ok src (with_calls ds u)"
  by (simp add: res_ok_iff with_calls_def)

lemma res_ctl_open:
  "res_ok src u \<Longrightarrow> \<not> u_control_ifc u \<Longrightarrow> (\<And>r. balance ds r = of_bool (r = RIfc CtlIfc)) \<Longrightarrow>
   res_ok src ((with_calls ds u)\<lparr>u_control_ifc := True\<rparr>)"
  by (simp add: res_ok_iff with_calls_def)

lemma res_data_open:
  "res_ok src u \<Longrightarrow> \<not> u_data_ifc u \<Longrightarrow> (\<And>r. balance ds r = of_bool (ok \<and> r = RIfc DataIfc)) \<Longrightarrow>
   res_ok src ((with_calls ds u)\<lparr>u_data_ifc := ok\<rparr>)"
  by (simp add: res_ok_iff with_calls_def)

lemma calloc_res: "res_ok src usb_calloc" "\<not> u_dev usb_calloc" "\<not> u_control_ifc usb_calloc" "\<not> u_data_ifc usb_calloc"
  "\<not> u_async_rl usb_calloc"
  by (simp_all add: usb_calloc_def usb_zero_def res_ok_iff)

lemma open_device_res:
  "res_ok src u \<Longrightarrow> \<not> u_dev u \<Longrightarrow> res_ok src (choose_data_num (open_device v live u))"
  "res_ok src u \<Longrightarrow> \<not> u_dev u \<Longrightarrow> res_ok src (open_device v live u)"
  "u_control_ifc (choose_data_num (open_device v live u)) = u_control_ifc u"
  "u_data_ifc (choose_data_num (open_device v live u)) = u_data_ifc u"
  "u_async_rl (choose_data_num (open_device v live u)) = u_async_rl u"
  by (simp_all add: choose_data_num_def open_device_def Let_def res_ok_iff)

lemma open_data_res:
  assumes "res_ok src u" "\<not> u_data_ifc u"
  shows "res_ok src (open_data v u)" "u_control_ifc (open_data v u) = u_control_ifc u"
    "u_async_rl (open_data v u) = u_async_rl u"
proof -
  obtain rc ds where d: "open_one_interface DataIfc (u_data_num u) (oe_data v) u = (rc, with_calls ds u)"
    "rc = 0 \<or> rc = -1" "\<And>r. balance ds r = of_bool (rc = 0 \<and> r = RIfc DataIfc)"
    using open_one_log [of DataIfc "u_data_num u" "oe_data v" u] by blast
  let ?u = "(with_calls ds u)\<lparr>u_data_ifc := (rc = 0)\<rparr>"
  let ?w = "if oe_endpoints v = 0 then ucall (USetAlternate 1) ?u else ?u"
  obtain a b c where p: "classify_pipes (oe_data_pipes v) ?w = ?w\<lparr>u_bulk_in := a, u_bulk_out := b, u_interrupt_in := c\<rparr>"
    by (rule classify_pipes_fields)
  have u: "res_ok src ?u" by (rule res_data_open [OF assms d(3)])
  then have w: "res_ok src ?w" by (simp add: res_ok_neutral)
  have e: "open_data v u = (if rc = 0 then ?w\<lparr>u_bulk_in := a, u_bulk_out := b, u_interrupt_in := c\<rparr> else ?u)"
    unfolding open_data_def d(1) Let_def prod.case p by simp
  show "res_ok src (open_data v u)" "u_control_ifc (open_data v u) = u_control_ifc u"
    "u_async_rl (open_data v u) = u_async_rl u"
    unfolding e using u w by (cases "rc = 0"; simp)+
qed

lemma bus_speed_fields:
  "res_ok src (bus_speed sp u) = res_ok src u" "u_opened (bus_speed sp u) = u_opened u"
  "u_bulk_in (bus_speed sp u) = u_bulk_in u" "u_bulk_out (bus_speed sp u) = u_bulk_out u"
  "u_control_ifc (bus_speed sp u) = u_control_ifc u" "u_async_rl (bus_speed sp u) = u_async_rl u"
  by (simp_all add: bus_speed_def split: option.splits)

text \<open>A handle as \<open>at_usb_open\<close> gives it to the engine.\<close>

definition opened_ok :: "bool \<Rightarrow> at_usb \<Rightarrow> bool" where
  "opened_ok src u \<longleftrightarrow> res_ok src u \<and> u_opened u \<and> u_control_ifc u \<and> u_bulk_in u \<noteq> 0 \<and> u_bulk_out u \<noteq> 0 \<and>
     \<not> u_async_rl u"

lemma open_cases:
  "case at_usb_open v it want of (ok, u) \<Rightarrow> if ok then opened_ok src u else \<forall>r. balance (u_calls u) r = 0"
proof (cases want)
  case None
  then show ?thesis by (simp add: at_usb_open_def usb_zero_def)
next
  case (Some wanted)
  show ?thesis
  proof (cases "find_service it wanted")
    case None
    then show ?thesis using Some by (simp add: at_usb_open_def usb_zero_def)
  next
    case (Some svc)
    let ?live = "fill_device_info svc"
    let ?u0 = "open_device v ?live usb_calloc"
    let ?u1 = "choose_data_num ?u0"
    obtain rc ds where o: "open_one_interface CtlIfc (u_control_num ?u1) (oe_ctl v) ?u1 = (rc, with_calls ds ?u1)"
      "rc = 0 \<or> rc = -1" "\<And>r. balance ds r = of_bool (rc = 0 \<and> r = RIfc CtlIfc)"
      using open_one_log [of CtlIfc "u_control_num ?u1" "oe_ctl v" ?u1] by blast
    let ?u2 = "(with_calls ds ?u1)\<lparr>u_control_ifc := True\<rparr>"
    let ?u3 = "open_data v ?u2"
    obtain a b c where p: "classify_pipes (oe_ctl_pipes v) ?u3 = ?u3\<lparr>u_bulk_in := a, u_bulk_out := b, u_interrupt_in := c\<rparr>"
      by (rule classify_pipes_fields)
    let ?u4 = "?u3\<lparr>u_bulk_in := a, u_bulk_out := b, u_interrupt_in := c\<rparr>"
    have u1: "res_ok s ?u0" "res_ok s ?u1" "\<not> u_control_ifc ?u1" "\<not> u_data_ifc ?u1" for s
      using open_device_res calloc_res by blast+
    have u2: "res_ok s ?u2" "\<not> u_data_ifc ?u2" if "rc = 0" for s
      using u1 o(3) that by (auto intro!: res_ctl_open)
    have u4: "res_ok s ?u4" "u_control_ifc ?u4" "\<not> u_async_rl ?u4" if "rc = 0" for s
      using open_data_res [OF u2 [OF that]] open_device_res(5) calloc_res(5) by simp_all
    have bad: "res_ok False (with_calls ds ?u1)" if "rc \<noteq> 0"
      using u1 o(3) that by (auto intro!: res_with_calls)
    note z = close_res [of False]
    show ?thesis
      unfolding at_usb_open_def Let_def \<open>want = Some wanted\<close> Some option.case o(1) prod.case p
      using z [OF calloc_res(1)] z [OF u1(1)] z [OF bad] z [OF u4(1)] u4
      by (simp add: opened_ok_def bus_speed_fields usb_zero_def)
  qed
qed

end
