(* ===== verification/UsbSession.thy ===== *)
theory UsbSession
  imports UsbBulk "HOL-Library.Multiset"
begin

text \<open>
  The asynchronous half of \<open>engine/src/usb_rndis.c\<close> at work: who owns a receive buffer while transfers
  are in flight, and that closing a session releases everything it acquired.
\<close>

section \<open>A session with transfers in flight\<close>

lemma balance_none: "list_all (\<lambda>c. \<forall>r. effect c r = 0) cs \<Longrightarrow> balance cs r = 0"
  by (induction cs) auto

lemma attempt_balance: "balance (concat (map (attempt g n) rs)) r = 0"
  by (induction rs) (auto simp: attempt_def)

lemma rpc_done_balance: "rpc_done dv m x u w cs rc resp got \<Longrightarrow> balance cs r = 0"
  by (auto simp: rpc_done_def attempt_balance split: if_splits)

text \<open>The keepalive exchange touches nothing but the log and the request id.\<close>

lemma keepalive_run:
  assumes "dv_bounded dv"
  obtains rc x cs w' where "at_usb_keepalive dv (u, w) = Some (rc, with_calls cs (u\<lparr>u_xid := x\<rparr>), w')"
    "\<And>r. balance cs r = 0"
proof -
  obtain i where x: "next_xid u = (i, u\<lparr>u_xid := i\<rparr>)" by (cases "u_xid u + 1 = 0") (auto simp: next_xid_def Let_def)
  let ?u = "u\<lparr>u_xid := i\<rparr>"
  let ?m = "words [8, 16, i, 0]"
  have m: "rndis_build_keepalive (replicate 16 0) i = Some (16, ?m)" by (simp add: control_message_layout)
  obtain rc resp got w' cs where r: "rndis_rpc dv ?m (replicate 1024 0) i (?u, w) = Some (rc, resp, got, with_calls cs ?u, w')"
      "rpc_done dv ?m i ?u w cs rc resp got"
    using rndis_rpc_spec [OF assms, of "replicate 1024 0" ?m i ?u w] by auto
  have "at_usb_keepalive dv (u, w) = Some (rc, with_calls cs ?u, w')"
    unfolding at_usb_keepalive_def prod.case x Let_def m using r(1) by (simp add: load_bytes_def)
  then show thesis using rpc_done_balance [OF r(2)] by (rule that)
qed

text \<open>The slot and the buffer of the last asynchronous read in a log of calls.\<close>

definition queued :: "at_usb \<Rightarrow> at_usb \<Rightarrow> (nat \<times> nat) list" where
  "queued u u' = (case rev (drop (length (u_calls u)) (u_calls u')) of
     UReadAsync ifc p b i # cs \<Rightarrow> [(i, b)] | _ \<Rightarrow> [])"

text \<open>
  A session: the receive buffers the engine owns, the reads the controller holds (slot and buffer) and
  the writes it holds. The controller completes a transfer it has accepted, in any order; all other
  operations may be interleaved. (A device whose state is the number of the exchange can give any
  finite sequence of answers.)
\<close>

inductive usb_session :: "bool \<Rightarrow> at_usb \<Rightarrow> nat multiset \<Rightarrow> (nat \<times> nat) list \<Rightarrow> nat list \<Rightarrow> bool" for src where
  attached: "at_usb_open v it want = (True, u) \<Longrightarrow> at_usb_async_attach r source (port, src, ok) u = (0, u') \<Longrightarrow>
    usb_session src u' {#0, 1#} [] []"
| submit_in: "usb_session src u own pin pout \<Longrightarrow> b \<in># own \<Longrightarrow> 0 < cap \<Longrightarrow>
    at_usb_async_submit_in r1 r2 b cap u = Some (rc, u') \<Longrightarrow>
    usb_session src u' (if rc = 0 then own - {#b#} else own) ((if rc = 0 then queued u u' else []) @ pin) pout"
| in_done: "usb_session src u own pin pout \<Longrightarrow> (i, b) \<in> set pin \<Longrightarrow> async_in_done i r n u = Some (cb, u') \<Longrightarrow>
    usb_session src u' (own + (case cb of Some (rc, n, Some b) \<Rightarrow> {#b#} | _ \<Rightarrow> {#})) (remove1 (i, b) pin) pout"
| submit_out: "usb_session src u own pin pout \<Longrightarrow> at_usb_async_submit_out r1 r2 b len u = Some (rc, u') \<Longrightarrow>
    usb_session src u' own pin ((if rc = 0 then [b] else []) @ pout)"
| out_done: "usb_session src u own pin pout \<Longrightarrow> b \<in> set pout \<Longrightarrow> async_out_done r u = (cb, u') \<Longrightarrow>
    usb_session src u' own pin (remove1 b pout)"
| other: "usb_session src u own pin pout \<Longrightarrow>
    u' \<in> {usb_interest m u, snd (at_usb_async_run u), snd (at_usb_clear_stall r1 r2 is_in u), snd (at_usb_abort_in r1 u),
      snd (at_usb_abort_out r1 u), snd (at_usb_bulk_write r1 dat u), snd (snd (at_usb_bulk_read r1 n cap t u))} \<Longrightarrow>
    usb_session src u' own pin pout"
| keepalive: "usb_session src u own pin pout \<Longrightarrow> dv_bounded (dv :: nat usb_dev) \<Longrightarrow>
    at_usb_keepalive dv (u, w) = Some (rc, u', w') \<Longrightarrow>
    usb_session src u' own pin pout"

text \<open>What every state of a session satisfies: the slots mirror the reads the controller holds.\<close>

definition slot_buf :: "urb list \<Rightarrow> nat \<Rightarrow> nat option" where
  "slot_buf ss i = (if i < length ss \<and> urb_busy (ss ! i) then urb_buf (ss ! i) else None)"

definition slots_match :: "urb list \<Rightarrow> (nat \<times> nat) list \<Rightarrow> bool" where
  "slots_match ss pin \<longleftrightarrow> length ss = 2 \<and> distinct (map fst pin) \<and> map_of pin = slot_buf ss \<and>
     list_all (\<lambda>s. urb_busy s \<longrightarrow> urb_buf s \<noteq> None) ss"

definition slots_ok :: "at_usb \<Rightarrow> nat multiset \<Rightarrow> (nat \<times> nat) list \<Rightarrow> nat list \<Rightarrow> bool" where
  "slots_ok u own pin pout \<longleftrightarrow> slots_match (u_in_urb u) pin \<and> own + mset (map snd pin) = {#0, 1#} \<and>
     (pin \<noteq> [] \<longrightarrow> u_in_cb u) \<and> length pout = of_bool (urb_busy (u_out_urb u)) \<and> (pout \<noteq> [] \<longrightarrow> u_out_cb u)"

lemma match_len: "slots_match ss pin \<Longrightarrow> length ss = 2"
  by (simp add: slots_match_def)

lemma match_busy: "slots_match ss pin \<Longrightarrow> i < 2 \<Longrightarrow> urb_busy (ss ! i) \<longleftrightarrow> i \<in> fst ` set pin"
  by (simp add: slots_match_def dom_map_of_conv_image_fst [symmetric] slot_buf_def domIff list_all_length)

lemma match_mem: "slots_match ss pin \<Longrightarrow> (i, b) \<in> set pin \<Longrightarrow> slot_buf ss i = Some b"
  by (metis slots_match_def map_of_eq_Some_iff)

lemma slot_buf_upd: "slot_buf (ss[i := s]) = (slot_buf ss)(i := (if i < length ss \<and> urb_busy s then urb_buf s else None))"
  by (rule ext) (simp add: slot_buf_def nth_list_update)

lemma list_all_upd: "list_all P ss \<Longrightarrow> P s \<Longrightarrow> list_all P (ss[i := s])"
  by (cases "i < length ss") (simp_all add: list_all_length nth_list_update)

lemma match_add:
  "slots_match ss pin \<Longrightarrow> i < 2 \<Longrightarrow> i \<notin> fst ` set pin \<Longrightarrow>
   slots_match (ss[i := \<lparr>urb_busy = True, urb_buf = Some b\<rparr>]) ((i, b) # pin)"
  by (simp add: slots_match_def slot_buf_upd list_all_upd)

lemma match_fail:
  assumes "slots_match ss pin" "i < 2" "i \<notin> fst ` set pin"
  shows "slots_match (ss[i := \<lparr>urb_busy = False, urb_buf = x\<rparr>]) pin"
proof -
  have "slot_buf ss i = None" using assms by (metis slots_match_def map_of_eq_None_iff)
  then show ?thesis using assms by (simp add: slots_match_def slot_buf_upd list_all_upd fun_upd_idem)
qed

lemma map_of_remove1: "distinct (map fst kvs) \<Longrightarrow> (k, v) \<in> set kvs \<Longrightarrow> map_of (remove1 (k, v) kvs) = (map_of kvs)(k := None)"
proof (induction kvs)
  case (Cons p kvs)
  show ?case
  proof (cases "p = (k, v)")
    case True
    then have "map_of kvs k = None" using Cons.prems(1) by (simp add: map_of_eq_None_iff)
    then show ?thesis using True by (intro ext) simp
  next
    case False
    then have "(k, v) \<in> set kvs" using Cons.prems(2) by simp
    moreover have "fst p \<noteq> k" using Cons.prems(1) \<open>(k, v) \<in> set kvs\<close> by (cases p) force
    ultimately show ?thesis using Cons False by (cases p) (auto simp: fun_eq_iff)
  qed
qed simp

lemma distinct_fst_remove1: "distinct (map fst kvs) \<Longrightarrow> distinct (map fst (remove1 p kvs))"
  by (metis distinct_map distinct_remove1 inj_on_subset set_remove1_subset)

lemma match_done:
  assumes "slots_match ss pin" "(i, b) \<in> set pin"
  shows "slots_match (ss[i := (ss ! i)\<lparr>urb_busy := False\<rparr>]) (remove1 (i, b) pin)"
  using assms by (simp add: slots_match_def slot_buf_upd list_all_upd map_of_remove1 distinct_fst_remove1)

lemma free_slot_two:
  assumes "length ss = 2"
  shows "free_slot 0 ss = (if \<not> urb_busy (ss ! 0) then Some 0 else if \<not> urb_busy (ss ! 1) then Some 1 else None)"
proof -
  obtain s0 s1 where "ss = [s0, s1]" using assms by (auto simp: length_Suc_conv numeral_2_eq_2)
  then show ?thesis by simp
qed

text \<open>A buffer the engine owns always finds a slot that the controller does not use.\<close>

lemma slot_for_owned:
  assumes "slots_ok u own pin pout" "b \<in># own"
  obtains i where "free_slot 0 (u_in_urb u) = Some i" "i < 2" "i \<notin> fst ` set pin"
proof -
  have "size (own + mset (map snd pin)) = 2" using assms(1) by (simp add: slots_ok_def)
  moreover have "size own > 0" using assms(2) by (cases own) auto
  ultimately have "length pin \<le> 1" by simp
  then have "pin = [] \<or> (\<exists>p. pin = [p])" by (cases pin) auto
  then have "\<not> (0 \<in> fst ` set pin \<and> 1 \<in> fst ` set pin)" by auto
  moreover have "length (u_in_urb u) = 2" "urb_busy (u_in_urb u ! 0) = (0 \<in> fst ` set pin)"
    "urb_busy (u_in_urb u ! 1) = (1 \<in> fst ` set pin)"
    using assms(1) by (auto simp: slots_ok_def match_len match_busy)
  ultimately show thesis
    using that [of 0] that [of 1] by (cases "0 \<in> fst ` set pin") (simp_all only: free_slot_two, auto)
qed

lemma data_ifc_upd [simp]:
  "data_ifc (u\<lparr>u_in_cb := c\<rparr>) = data_ifc u" "data_ifc (u\<lparr>u_in_urb := s\<rparr>) = data_ifc u"
  "data_ifc (u\<lparr>u_out_cb := c\<rparr>) = data_ifc u" "data_ifc (u\<lparr>u_out_urb := q\<rparr>) = data_ifc u"
  "data_ifc (with_calls cs u) = data_ifc u" "data_ifc (ucall k u) = data_ifc u"
  "data_ifc (u\<lparr>u_gone := g\<rparr>) = data_ifc u" "data_ifc (u\<lparr>u_xid := x\<rparr>) = data_ifc u"
  by (simp_all add: data_ifc_def with_calls_def)

lemma submit_in_cases:
  assumes "slots_ok u own pin pout" "b \<in># own" "0 < cap" "data_ifc u = Some ifc"
  obtains i cs g rc where "i < 2" "i \<notin> fst ` set pin" "\<And>r. balance cs r = 0"
    "at_usb_async_submit_in r1 r2 b cap u = Some (rc, with_calls cs (u\<lparr>u_in_cb := True,
       u_in_urb := (u_in_urb u)[i := \<lparr>urb_busy = (rc = 0), urb_buf = Some b\<rparr>], u_gone := g\<rparr>))"
    "rc = 0 \<or> rc = -1" "\<exists>ds p. cs = ds @ [UReadAsync ifc p b i]"
proof -
  obtain i where i: "free_slot 0 (u_in_urb u) = Some i" "i < 2" "i \<notin> fst ` set pin"
    by (rule slot_for_owned [OF assms(1,2)])
  let ?c = "UReadAsync ifc (u_bulk_in u) b i"
  let ?cs = "if r1 \<noteq> IOSuccess then [?c, ?c] else [?c]"
  let ?r = "if r1 \<noteq> IOSuccess then r2 else r1"
  have len: "i < length (u_in_urb u)" using assms(1) i(2) match_len [of "u_in_urb u" pin] by (simp add: slots_ok_def)
  show thesis
  proof (rule that [of i ?cs "if ?r = IOSuccess then 0 else -1" "if ?r = IOSuccess then u_gone u else left_result ?r \<or> u_gone u"])
    show "at_usb_async_submit_in r1 r2 b cap u = Some (if ?r = IOSuccess then 0 else -1, with_calls ?cs (u\<lparr>u_in_cb := True,
       u_in_urb := (u_in_urb u)[i := \<lparr>urb_busy = ((if ?r = IOSuccess then 0 else -1 :: int) = 0), urb_buf = Some b\<rparr>],
       u_gone := if ?r = IOSuccess then u_gone u else left_result ?r \<or> u_gone u\<rparr>))"
      using assms(3,4) len
      by (cases "r1 = IOSuccess"; cases "r2 = IOSuccess")
        (simp_all add: at_usb_async_submit_in_def i(1) Let_def ucall_def with_calls_def)
    show "\<exists>ds p. ?cs = ds @ [UReadAsync ifc p b i]" by (cases "r1 = IOSuccess") (auto intro: exI [of _ "[?c]"])
  qed (use i in auto)
qed

text \<open>The invariant of a session, and each kind of step.\<close>

definition sess_ok :: "bool \<Rightarrow> at_usb \<Rightarrow> nat multiset \<Rightarrow> (nat \<times> nat) list \<Rightarrow> nat list \<Rightarrow> bool" where
  "sess_ok src u own pin pout \<longleftrightarrow> res_ok src u \<and> data_ifc u \<noteq> None \<and> slots_ok u own pin pout"

text \<open>What the other operations leave alone.\<close>

definition quiet :: "at_usb \<Rightarrow> at_usb \<Rightarrow> bool" where
  "quiet u u' \<longleftrightarrow> (\<exists>cs g x. u' = with_calls cs (u\<lparr>u_gone := g, u_xid := x\<rparr>) \<and> (\<forall>r. balance cs r = 0))"

lemma quiet_fields:
  assumes "quiet u u'"
  shows "u_in_urb u' = u_in_urb u" "u_out_urb u' = u_out_urb u" "u_in_cb u' = u_in_cb u" "u_out_cb u' = u_out_cb u"
    "data_ifc u' = data_ifc u" "res_ok src u \<Longrightarrow> res_ok src u'"
proof -
  obtain cs g x where q: "u' = with_calls cs (u\<lparr>u_gone := g, u_xid := x\<rparr>)" "\<And>r. balance cs r = 0"
    using assms unfolding quiet_def by blast
  show "u_in_urb u' = u_in_urb u" "u_out_urb u' = u_out_urb u" "u_in_cb u' = u_in_cb u" "u_out_cb u' = u_out_cb u"
    by (simp_all add: q(1) with_calls_def)
  show "data_ifc u' = data_ifc u" by (simp add: q(1))
  have "res_ok src (v\<lparr>u_xid := x\<rparr>) = res_ok src v" for v by (simp add: res_ok_iff)
  then show "res_ok src u'" if "res_ok src u" using that q(2) by (simp add: q(1) res_with_calls)
qed

lemma quiet_sess: "sess_ok src u own pin pout \<Longrightarrow> quiet u u' \<Longrightarrow> sess_ok src u' own pin pout"
  by (simp add: sess_ok_def slots_ok_def quiet_fields)

lemma quiet_refl: "quiet u u"
  unfolding quiet_def by (intro exI [of _ "[]"] exI [of _ "u_gone u"] exI [of _ "u_xid u"]) simp

lemma quiet_call: "quiet u v \<Longrightarrow> (\<And>r. effect c r = 0) \<Longrightarrow> quiet u (ucall c v)"
  unfolding quiet_def ucall_with by (elim exE, rename_tac cs g x, rule_tac x = "cs @ [c]" in exI) auto

lemma quiet_gone: "quiet u v \<Longrightarrow> quiet u (v\<lparr>u_gone := g\<rparr>)"
  unfolding quiet_def with_calls_def by (elim exE, rename_tac cs g' x, rule_tac x = cs in exI, rule_tac x = g in exI,
    rule_tac x = x in exI) simp

lemma quiet_ops:
  "quiet u (usb_interest m u)" "quiet u (snd (at_usb_async_run u))" "quiet u (snd (at_usb_clear_stall r1 r2 is_in u))"
  "quiet u (snd (at_usb_abort_in r1 u))" "quiet u (snd (at_usb_abort_out r1 u))"
  "quiet u (snd (at_usb_bulk_write r1 dat u))" "quiet u (snd (snd (at_usb_bulk_read r1 n cap t u)))"
  by (auto simp: usb_interest_def at_usb_async_run_def at_usb_clear_stall_def at_usb_abort_in_def at_usb_abort_out_def
    at_usb_bulk_write_def at_usb_bulk_read_def Let_def quiet_refl intro!: quiet_call quiet_gone quiet_refl split: option.split)

section \<open>Each kind of step keeps the invariant\<close>

lemma res_slots [simp]:
  "res_ok src (u\<lparr>u_in_urb := s\<rparr>) = res_ok src u" "res_ok src (u\<lparr>u_in_cb := c\<rparr>) = res_ok src u"
  "res_ok src (u\<lparr>u_out_urb := q\<rparr>) = res_ok src u" "res_ok src (u\<lparr>u_out_cb := c\<rparr>) = res_ok src u"
  by (simp_all add: res_ok_iff)

lemma watch_fields:
  "u_in_urb (attach_unplug_watch port src ok u) = u_in_urb u" "u_out_urb (attach_unplug_watch port src ok u) = u_out_urb u"
  "data_ifc (attach_unplug_watch port src ok u) = data_ifc u"
  by (simp_all add: attach_unplug_watch_def detach_unplug_watch_def data_ifc_def Let_def)

lemma attach_sess:
  assumes "opened_ok src u" "at_usb_async_attach r source (port, src, ok) u = (0, u')"
  shows "sess_ok src u' {#0, 1#} [] []"
proof -
  let ?v = "ucall UAddSource ((ucall UCreateSource u)\<lparr>u_async_src := True, u_async_rl := True\<rparr>)"
  let ?w = "?v\<lparr>u_in_cb := False, u_out_cb := False, u_in_urb := replicate AT_USB_IN_DEPTH \<lparr>urb_busy = False, urb_buf = None\<rparr>,
    u_out_urb := \<lparr>urb_busy = False, urb_buf = None\<rparr>\<rparr>"
  have o: "res_ok src u" "\<not> u_async_rl u" "data_ifc u \<noteq> None" using assms(1) by (auto simp: opened_ok_def data_ifc_def)
  have u': "u' = attach_unplug_watch port src ok ?w"
    using assms(2) o(3) by (auto simp: at_usb_async_attach_def Let_def split: if_splits)
  have "\<not> u_notify_port u" "\<not> u_interest u" using o(1,2) by (auto simp: res_ok_def)
  then have "res_ok src ?v" using o(1,2) by (simp add: res_ok_iff)
  then have "res_ok src u'" unfolding u' by (intro attach_watch_res) simp
  moreover have "data_ifc ?w = data_ifc u" by (simp add: data_ifc_def)
  ultimately show ?thesis using o(3)
    by (simp add: sess_ok_def slots_ok_def slots_match_def u' watch_fields slot_buf_def numeral_2_eq_2 fun_eq_iff
      nth_Cons split: nat.split)
qed

lemma submit_in_sess:
  assumes "sess_ok src u own pin pout" "b \<in># own" "0 < cap" "at_usb_async_submit_in r1 r2 b cap u = Some (rc, u')"
  shows "sess_ok src u' (if rc = 0 then own - {#b#} else own) ((if rc = 0 then queued u u' else []) @ pin) pout"
    "rc = 0 \<Longrightarrow> \<exists>i. queued u u' = [(i, b)]"
proof -
  have s: "slots_ok u own pin pout" "res_ok src u" and "data_ifc u \<noteq> None" using assms(1) by (simp_all add: sess_ok_def)
  then obtain ifc where d: "data_ifc u = Some ifc" by blast
  obtain i cs g rc' where c: "i < 2" "i \<notin> fst ` set pin" "\<And>r. balance cs r = 0"
    "at_usb_async_submit_in r1 r2 b cap u = Some (rc', with_calls cs (u\<lparr>u_in_cb := True,
       u_in_urb := (u_in_urb u)[i := \<lparr>urb_busy = (rc' = 0), urb_buf = Some b\<rparr>], u_gone := g\<rparr>))"
    "rc' = 0 \<or> rc' = -1" "\<exists>ds p. cs = ds @ [UReadAsync ifc p b i]"
    by (rule submit_in_cases [OF s(1) assms(2,3) d, where ?r1.0 = r1 and ?r2.0 = r2]; rule that; assumption)
  let ?u = "u\<lparr>u_in_cb := True, u_in_urb := (u_in_urb u)[i := \<lparr>urb_busy = (rc = 0), urb_buf = Some b\<rparr>], u_gone := g\<rparr>"
  have rc: "rc' = rc" and u': "u' = with_calls cs ?u" using c(4) assms(4) by simp_all
  have q: "queued u u' = [(i, b)]" using c(6) by (auto simp: queued_def u')
  have r: "res_ok src u'" "data_ifc u' \<noteq> None" using s(2) c(3) d by (simp_all add: u' res_with_calls)
  have f: "u_in_urb u' = (u_in_urb u)[i := \<lparr>urb_busy = (rc = 0), urb_buf = Some b\<rparr>]" "u_in_cb u'"
    "u_out_urb u' = u_out_urb u" "u_out_cb u' = u_out_cb u"
    by (simp_all add: u' with_calls_def)
  obtain own' where own: "own = add_mset b own'" using assms(2) by (metis multi_member_split)
  have m: "slots_match (u_in_urb u') ((if rc = 0 then [(i, b)] else []) @ pin)"
    using s(1) c(1,2) by (simp add: f(1) slots_ok_def match_add match_fail)
  show "sess_ok src u' (if rc = 0 then own - {#b#} else own) ((if rc = 0 then queued u u' else []) @ pin) pout"
    using m r f s(1) unfolding sess_ok_def slots_ok_def q own by auto
  show "\<exists>i. queued u u' = [(i, b)]" if "rc = 0" using q by blast
qed

lemma mset_map_remove1: "p \<in> set ps \<Longrightarrow> mset (map f ps) = add_mset (f p) (mset (map f (remove1 p ps)))"
  by (induction ps) auto

lemma in_done_sess:
  assumes "sess_ok src u own pin pout" "(i, b) \<in> set pin" "async_in_done i r n u = Some (cb, u')"
  shows "sess_ok src u' (own + {#b#}) (remove1 (i, b) pin) pout" "\<exists>rc n'. cb = Some (rc, n', Some b)"
proof -
  have s: "slots_ok u own pin pout" "res_ok src u" "data_ifc u \<noteq> None" using assms(1) by (simp_all add: sess_ok_def)
  have sb: "slot_buf (u_in_urb u) i = Some b" and cbs: "u_in_cb u"
    using s(1) assms(2) by (auto simp: slots_ok_def match_mem)
  then have i: "i < length (u_in_urb u)" "urb_buf (u_in_urb u ! i) = Some b" by (auto simp: slot_buf_def split: if_splits)
  let ?v = "u\<lparr>u_in_urb := (u_in_urb u)[i := (u_in_urb u ! i)\<lparr>urb_busy := False\<rparr>]\<rparr>"
  have u': "u' = ?v \<or> u' = ?v\<lparr>u_gone := True\<rparr>" and cb: "\<exists>rc n'. cb = Some (rc, n', Some b)"
    using assms(3) i cbs by (auto simp: async_in_done_def load8_def Let_def split: if_splits)
  define pin' where "pin' = remove1 (i, b) pin"
  have "own + {#b#} + mset (map snd pin') = {#0, 1#}"
  proof -
    have "own + {#b#} + mset (map snd pin') = own + mset (map snd pin)"
      unfolding mset_map_remove1 [OF assms(2), of snd] pin'_def by simp
    also have "\<dots> = {#0, 1#}" using s(1) by (simp add: slots_ok_def)
    finally show ?thesis .
  qed
  moreover have "slots_match (u_in_urb u') pin'"
    using u' s(1) match_done [OF _ assms(2), of "u_in_urb u"] unfolding slots_ok_def pin'_def by auto
  ultimately have "slots_ok u' (own + {#b#}) pin' pout"
    using u' s(1) cbs unfolding slots_ok_def by (elim disjE) simp_all
  then show "sess_ok src u' (own + {#b#}) (remove1 (i, b) pin) pout"
    using u' s(2,3) unfolding sess_ok_def pin'_def by auto
  show "\<exists>rc n'. cb = Some (rc, n', Some b)" by (rule cb)
qed

lemma submit_out_sess:
  assumes "sess_ok src u own pin pout" "at_usb_async_submit_out r1 r2 b len u = Some (rc, u')"
  shows "sess_ok src u' own pin ((if rc = 0 then [b] else []) @ pout)" "rc = 0 \<Longrightarrow> pout = []"
proof -
  have s: "slots_ok u own pin pout" "res_ok src u" "data_ifc u \<noteq> None" using assms(1) by (simp_all add: sess_ok_def)
  show "sess_ok src u' own pin ((if rc = 0 then [b] else []) @ pout)" "rc = 0 \<Longrightarrow> pout = []"
    using assms(2) s
    by (auto simp: at_usb_async_submit_out_def Let_def sess_ok_def slots_ok_def res_ok_neutral split: if_splits)
qed

lemma out_done_sess:
  assumes "sess_ok src u own pin pout" "b \<in> set pout" "async_out_done r u = (cb, u')"
  shows "sess_ok src u' own pin (remove1 b pout)"
proof -
  have p: "length pout = of_bool (urb_busy (u_out_urb u))" using assms(1) by (simp add: sess_ok_def slots_ok_def)
  obtain b' bs where c: "pout = b' # bs" using assms(2) by (cases pout) simp_all
  have "pout = [b]" using p assms(2) unfolding c by (cases "urb_busy (u_out_urb u)") simp_all
  moreover have "u' = u\<lparr>u_out_urb := (u_out_urb u)\<lparr>urb_busy := False\<rparr>\<rparr>"
    using assms(3) by (simp add: async_out_done_def Let_def)
  ultimately show ?thesis using assms(1) by (simp add: sess_ok_def slots_ok_def)
qed

section \<open>Properties of a session\<close>

lemma open_true: "at_usb_open v it want = (True, u) \<Longrightarrow> opened_ok src u"
  using open_cases [of src v it want] by simp

lemma session_ok: "usb_session src u own pin pout \<Longrightarrow> sess_ok src u own pin pout"
proof (induction rule: usb_session.induct)
  case (attached v it want u r source port ok u')
  then show ?case by (blast intro: attach_sess open_true)
next
  case (in_done u own pin pout i b r n cb u')
  then show ?case using in_done_sess [OF in_done.IH in_done.hyps(2,3)] by auto
next
  case (other u own pin pout u' m r1 r2 is_in dat n cap t)
  then have "quiet u u'" using quiet_ops [of u] by blast
  then show ?case by (rule quiet_sess [OF other.IH])
next
  case (keepalive u own pin pout dv w rc u' w')
  obtain rc2 x cs w2 where k: "at_usb_keepalive dv (u, w) = Some (rc2, with_calls cs (u\<lparr>u_xid := x\<rparr>), w2)"
    "\<And>r. balance cs r = 0" by (rule keepalive_run [OF keepalive.hyps(2), where u = u and w = w]; rule that; assumption)
  then have "quiet u u'" using keepalive.hyps(3) unfolding quiet_def
    by (intro exI [of _ cs] exI [of _ "u_gone u"] exI [of _ x]) simp
  then show ?case by (rule quiet_sess [OF keepalive.IH])
qed (blast intro: submit_in_sess submit_out_sess out_done_sess)+

lemma in_done_some:
  assumes "sess_ok src u own pin pout" "(i, b) \<in> set pin"
  obtains rc n' u' where "async_in_done i r n u = Some (Some (rc, n', Some b), u')"
proof -
  have "slot_buf (u_in_urb u) i = Some b" using assms by (auto simp: sess_ok_def slots_ok_def match_mem)
  then have "i < length (u_in_urb u)" by (auto simp: slot_buf_def split: if_splits)
  then have "async_in_done i r n u \<noteq> None" by (simp add: async_in_done_def load8_def Let_def split: prod.split)
  then obtain cb u' where "async_in_done i r n u = Some (cb, u')" by auto
  then show thesis using in_done_sess(2) [OF assms] that by blast
qed

lemma submit_in_some:
  assumes "sess_ok src u own pin pout" "b \<in># own" "0 < cap"
  shows "\<exists>rc u'. at_usb_async_submit_in r1 r2 b cap u = Some (rc, u') \<and> (rc = 0 \<and> (\<exists>i. queued u u' = [(i, b)]) \<or> rc = -1)"
proof -
  obtain ifc where d: "data_ifc u = Some ifc" and s: "slots_ok u own pin pout" using assms(1) by (auto simp: sess_ok_def)
  have "\<exists>rc u'. at_usb_async_submit_in r1 r2 b cap u = Some (rc, u') \<and> (rc = 0 \<or> rc = -1)"
    by (rule submit_in_cases [OF s assms(2,3) d, where ?r1.0 = r1 and ?r2.0 = r2]) blast
  then show ?thesis using submit_in_sess(2) [OF assms] by blast
qed

text \<open>
  C29: who owns a receive buffer. From a successful attach on, whatever the interleaving of submissions,
  completions in any order and with any results, writes, aborts, stalls, an unplugging and keepalives:
  each of the two receive buffers is at every moment owned either by the engine or by exactly one slot
  the controller holds, slots in use are distinct, and at most one write is outstanding. Submitting a
  buffer the engine owns either hands exactly this buffer to the controller or reports an error (it is
  never dropped for want of a free slot), a completion hands back the buffer of its slot, and a second
  write is refused without a call.
\<close>

theorem buffers_owned:
  assumes "usb_session src u own pin pout"
  shows "own + mset (map snd pin) = {#0, 1#} \<and> distinct (map fst pin) \<and> length pout \<le> 1 \<and>
    (\<forall>b \<in># own. \<forall>r1 r2 cap. cap \<noteq> 0 \<longrightarrow> (\<exists>rc u'. at_usb_async_submit_in r1 r2 b cap u = Some (rc, u') \<and>
       (rc = 0 \<and> (\<exists>i. queued u u' = [(i, b)]) \<or> rc = -1))) \<and>
    (\<forall>(i, b) \<in> set pin. \<forall>r n. \<exists>rc n' u'. async_in_done i r n u = Some (Some (rc, n', Some b), u')) \<and>
    (\<forall>r1 r2 b len. pout \<noteq> [] \<and> len \<noteq> 0 \<longrightarrow> at_usb_async_submit_out r1 r2 b len u = Some (1, u))"
proof (intro conjI)
  note s = session_ok [OF assms]
  show "own + mset (map snd pin) = {#0, 1#}" "distinct (map fst pin)" "length pout \<le> 1"
    using s by (simp_all add: sess_ok_def slots_ok_def slots_match_def)
  show "\<forall>b \<in># own. \<forall>r1 r2 cap. cap \<noteq> 0 \<longrightarrow> (\<exists>rc u'. at_usb_async_submit_in r1 r2 b cap u = Some (rc, u') \<and>
       (rc = 0 \<and> (\<exists>i. queued u u' = [(i, b)]) \<or> rc = -1))"
    using submit_in_some [OF s] by simp
  show "\<forall>(i, b) \<in> set pin. \<forall>r n. \<exists>rc n' u'. async_in_done i r n u = Some (Some (rc, n', Some b), u')"
    using in_done_some [OF s] by blast
  show "\<forall>r1 r2 b len. pout \<noteq> [] \<and> len \<noteq> 0 \<longrightarrow> at_usb_async_submit_out r1 r2 b len u = Some (1, u)"
    using s by (cases pout; cases "urb_busy (u_out_urb u)")
      (simp_all add: at_usb_async_submit_out_def sess_ok_def slots_ok_def)
qed

text \<open>
  C31: a failed open has released the service, the device and every interface it created; a successful
  one has both bulk pipes and can be closed with nothing left.
\<close>

theorem open_all_or_nothing:
  "case at_usb_open v it want of (ok, u) \<Rightarrow>
     if ok then u_opened u \<and> u_bulk_in u \<noteq> 0 \<and> u_bulk_out u \<noteq> 0 \<and> balance (u_calls (at_usb_close src u)) r = 0
     else balance (u_calls u) r = 0"
  using open_cases [of src v it want] close_res [of src _ r] by (auto simp: opened_ok_def)

text \<open>
  C30: no resource of a session leaks: closing it at any point, with or without the detach of the USB
  thread before, releases each resource exactly as often as it was acquired, and detaching twice is
  harmless.
\<close>

theorem session_released:
  assumes "usb_session src u own pin pout"
  shows "balance (u_calls (at_usb_close src u)) r = 0 \<and>
    balance (u_calls (at_usb_close src (at_usb_async_detach src u))) r = 0"
  using session_ok [OF assms] by (simp add: sess_ok_def close_res detach_res)

section \<open>A phone\<close>

definition sample_env :: open_env where
  "sample_env = \<lparr>oe_mem = True, oe_plugin = True, oe_seize = IONotOpen, oe_open = IOSuccess,
     oe_ctl = Some [\<lparr>ie_plugin = True, ie_num = 0, ie_seize = IOSuccess, ie_open = IOSuccess\<rparr>],
     oe_data = Some [\<lparr>ie_plugin = True, ie_num = 0, ie_seize = IONotOpen, ie_open = IONotOpen\<rparr>,
       \<lparr>ie_plugin = True, ie_num = 3, ie_seize = IOSuccess, ie_open = IOSuccess\<rparr>],
     oe_endpoints = 0, oe_data_pipes = Some [Some (PipeBulk, PipeIn), None, Some (PipeBulk, PipeOut)],
     oe_ctl_pipes = Some [Some (PipeInterrupt, PipeIn)], oe_speed = Some 3\<rparr>"

lemma sample_find: "find_service (Some [sample_phone]) (fill_device_info sample_phone) = Some sample_phone"
  by (simp add: find_service_def service_matches_def sample_phone_info)

lemma sample_open: "at_usb_open sample_env (Some [sample_phone]) (Some (fill_device_info sample_phone)) =
    (True, snd (at_usb_open sample_env (Some [sample_phone]) (Some (fill_device_info sample_phone))))"
proof -
  have "fst (at_usb_open sample_env (Some [sample_phone]) (Some (fill_device_info sample_phone)))" by code_simp
  then show ?thesis by (metis prod.collapse)
qed

definition sample_usb :: at_usb where
  "sample_usb = snd (at_usb_async_attach IOSuccess True (True, True, True)
     (snd (at_usb_open sample_env (Some [sample_phone]) (Some (fill_device_info sample_phone)))))"

lemma sample_session: "usb_session True sample_usb {#0, 1#} [] []"
proof (rule usb_session.attached [OF sample_open])
  show "at_usb_async_attach IOSuccess True (True, True, True)
     (snd (at_usb_open sample_env (Some [sample_phone]) (Some (fill_device_info sample_phone)))) = (0, sample_usb)"
    using open_true [OF sample_open] by (auto simp: sample_usb_def at_usb_async_attach_def opened_ok_def data_ifc_def Let_def)
qed

lemma sample_running:
  obtains u where "usb_session True u {#1#} [(0, 0)] []"
proof -
  have d: "length (u_in_urb sample_usb) = 2" "data_ifc sample_usb \<noteq> None" "\<not> urb_busy (u_in_urb sample_usb ! 0)"
    using session_ok [OF sample_session] match_len [of "u_in_urb sample_usb" "[]"] match_busy [of "u_in_urb sample_usb" "[]" 0]
    by (simp_all add: sess_ok_def slots_ok_def)
  obtain u where u: "at_usb_async_submit_in IOSuccess IOSuccess 0 16384 sample_usb = Some (0, u)" "queued sample_usb u = [(0, 0)]"
    using d by (auto simp: at_usb_async_submit_in_def free_slot_two Let_def queued_def)
  show thesis
    by (rule that [of u]) (use usb_session.submit_in [OF sample_session _ _ u(1)] u(2) in simp)
qed

theorem buffers_owned_witness:
  "\<exists>u. usb_session True u {#1#} [(0, 0)] [] \<and>
     (\<exists>rc n' u'. async_in_done 0 IOUnderrun 300 u = Some (Some (rc, n', Some 0), u')) \<and>
     (\<exists>rc u'. at_usb_async_submit_in IOSuccess IOSuccess 1 16384 u = Some (rc, u') \<and> (rc = 0 \<and> (\<exists>i. queued u u' = [(i, 1)]) \<or> rc = -1))"
proof (rule sample_running)
  fix u assume u: "usb_session True u {#1#} [(0, 0)] []"
  show ?thesis
    by (rule exI [of _ u]) (use u buffers_owned [OF u] in simp)
qed

theorem session_released_witness:
  "\<exists>u. usb_session True u {#1#} [(0, 0)] [] \<and> balance (u_calls (at_usb_close True u)) RPort = 0"
proof (rule sample_running)
  fix u assume u: "usb_session True u {#1#} [(0, 0)] []"
  then show ?thesis using session_released [OF u] by blast
qed

end
