(* ===== verification/NetProc.thy ===== *)
theory NetProc
  imports NetParse EngineState
begin

text \<open>
  The first half of \<open>engine/src/net_config.c\<close>: running a command line tool, what it printed, the scripts
  for \<open>scutil\<close>, the Wi-Fi power and the marker file. The machine the tools work on is the type variable
  \<open>'w\<close>; how a tool changes it, what it prints and how it ends are arguments. Every command that was really
  started is recorded with the text it got on its standard input.
\<close>

section \<open>Tools and files\<close>

text \<open>Where the output of a tool goes: shared with the program, dropped, or read into an array.\<close>

datatype tool_out = Shared | Dropped | Captured nat | Merged nat

datatype net_call =
    Run "string list" "string option" tool_out
  | Usleep nat
  | Mkdir string nat
  | Chown string nat
  | Chmod string nat
  | WriteFile string string
  | Unlink string

record passwd =
  pw_uid :: nat
  pw_dir :: "string option"

text \<open>
  The pipes and \<open>posix_spawn\<close> succeed; results of the \<open>write\<close> calls to a tool; what the \<open>read\<close> calls find;
  \<open>waitpid\<close> (\<open>None\<close>: it fails, \<open>Some None\<close>: no normal exit); what a call does to the machine; and the
  questions to the user database and the file system.
\<close>

record 'w net_env =
  nv_spawn :: "string list \<Rightarrow> 'w \<Rightarrow> bool"
  nv_writes :: "string list \<Rightarrow> string \<Rightarrow> 'w \<Rightarrow> int list"
  nv_reads :: "net_call \<Rightarrow> 'w \<Rightarrow> string list"
  nv_wait :: "net_call \<Rightarrow> 'w \<Rightarrow> nat option option"
  nv_do :: "net_call \<Rightarrow> 'w \<Rightarrow> 'w"
  nv_console_uid :: "'w \<Rightarrow> nat option"
  nv_pwuid :: "nat \<Rightarrow> 'w \<Rightarrow> passwd option"
  nv_login :: "'w \<Rightarrow> string option"
  nv_pwnam :: "string \<Rightarrow> 'w \<Rightarrow> passwd option"
  nv_fopen :: "string \<Rightarrow> 'w \<Rightarrow> bool"
  nv_access :: "string \<Rightarrow> 'w \<Rightarrow> bool"

text \<open>The static variables of the file, the calls so far, and the machine.\<close>

record 'w net =
  n_session_open :: bool
  n_we_off :: bool
  n_wifi_dev :: string
  n_calls :: "net_call list"
  n_world :: 'w

definition act :: "'w net_env \<Rightarrow> net_call \<Rightarrow> 'w net \<Rightarrow> 'w net" where
  "act v c s = s\<lparr>n_calls := n_calls s @ [c], n_world := nv_do v c (n_world s)\<rparr>"

section \<open>Running a tool\<close>

text \<open>The loops that read the output into an array of size \<open>n\<close> and that write the input.\<close>

fun read_loop :: "nat \<Rightarrow> string \<Rightarrow> string list \<Rightarrow> string" where
  "read_loop n out [] = out"
| "read_loop n out (c # cs) =
     (if length out + 1 < n then
        (let r = take (n - length out - 1) c in if r = [] then out else read_loop n (out @ r) cs)
      else out)"

fun write_loop :: "string \<Rightarrow> int list \<Rightarrow> string" where
  "write_loop [] ws = []"
| "write_loop (c # cs) [] = c # cs"
| "write_loop (c # cs) (w # ws) =
     (if w \<le> 0 then [] else take (nat w) (c # cs) @ write_loop (drop (nat w) (c # cs)) ws)"

definition trimmed :: "string \<Rightarrow> string" where
  "trimmed out = cstr (rtrim (\<lambda>c. c = NL \<or> c = CR \<or> c = CHR '' '') out)"

text \<open>Success of \<open>waitpid\<close> where its result is checked, and where \<open>status\<close> keeps its initial 0 when it fails.\<close>

definition exited_ok :: "nat option option \<Rightarrow> bool" where
  "exited_ok st \<longleftrightarrow> st = Some (Some 0)"

definition status_ok :: "nat option option \<Rightarrow> bool" where
  "status_ok st \<longleftrightarrow> st = None \<or> st = Some (Some 0)"

definition run_cmd :: "'w net_env \<Rightarrow> string list \<Rightarrow> 'w net \<Rightarrow> int \<times> 'w net" where
  "run_cmd v argv s =
     (if \<not> nv_spawn v argv (n_world s) then (-1, s) else
      let c = Run argv None Shared in
      (if exited_ok (nv_wait v c (n_world s)) then 0 else -1, act v c s))"

text \<open>The array keeps what it held (\<open>None\<close>) when the tool cannot be started.\<close>

definition capture_cmd :: "'w net_env \<Rightarrow> string list \<Rightarrow> nat \<Rightarrow> 'w net \<Rightarrow> int \<times> string option \<times> 'w net" where
  "capture_cmd v argv out_len s =
     (if \<not> nv_spawn v argv (n_world s) then (-1, None, s) else
      let c = Run argv None (Captured out_len) in
      (if status_ok (nv_wait v c (n_world s)) then 0 else -1,
       Some (trimmed (read_loop out_len [] (nv_reads v c (n_world s)))), act v c s))"

definition capture_cmd_merged :: "'w net_env \<Rightarrow> string list \<Rightarrow> nat \<Rightarrow> 'w net \<Rightarrow> int \<times> string option \<times> 'w net" where
  "capture_cmd_merged v argv out_len s =
     (if \<not> nv_spawn v argv (n_world s) then (-1, None, s) else
      let c = Run argv None (Merged out_len) in
      (if status_ok (nv_wait v c (n_world s)) then 0 else -1,
       Some (trimmed (read_loop out_len [] (nv_reads v c (n_world s)))), act v c s))"

definition run_cmd_stdin :: "'w net_env \<Rightarrow> string list \<Rightarrow> string option \<Rightarrow> 'w net \<Rightarrow> int \<times> 'w net" where
  "run_cmd_stdin v argv input s =
     (case input of None \<Rightarrow> (-1, s)
      | Some input \<Rightarrow>
          if \<not> nv_spawn v argv (n_world s) then (-1, s) else
          let c = Run argv (Some (write_loop input (nv_writes v argv input (n_world s)))) Shared in
          (if exited_ok (nv_wait v c (n_world s)) then 0 else -1, act v c s))"

definition capture_cmd_stdin ::
  "'w net_env \<Rightarrow> string list \<Rightarrow> string option \<Rightarrow> nat \<Rightarrow> 'w net \<Rightarrow> int \<times> string option \<times> 'w net" where
  "capture_cmd_stdin v argv input out_len s =
     (case input of None \<Rightarrow> (-1, None, s)
      | Some input \<Rightarrow>
          if out_len = 0 then (-1, None, s) else
          if \<not> nv_spawn v argv (n_world s) then (-1, None, s) else
          let c = Run argv (Some (write_loop input (nv_writes v argv input (n_world s)))) (Merged out_len) in
          (if status_ok (nv_wait v c (n_world s)) then 0 else -1,
           Some (trimmed (read_loop out_len [] (nv_reads v c (n_world s)))), act v c s))"

section \<open>Names\<close>

definition kServiceName :: string where "kServiceName = ''macOS wired tethering''"
definition kServiceId :: string where "kServiceId = ''MacOSWiredTetheringUSB''"
definition kBackupValid :: string where "kBackupValid = ''State:/Network/MacOSWiredTethering/Backup/Valid''"
definition kBackupIPv4 :: string where "kBackupIPv4 = ''State:/Network/MacOSWiredTethering/Backup/GlobalIPv4''"
definition kBackupDNS :: string where "kBackupDNS = ''State:/Network/MacOSWiredTethering/Backup/GlobalDNS''"
definition kBackupRoute :: string where "kBackupRoute = ''State:/Network/MacOSWiredTethering/Backup/DefaultRoute''"
definition kBackupWifi :: string where "kBackupWifi = ''State:/Network/MacOSWiredTethering/Backup/Wifi''"
definition kGlobalIPv4 :: string where "kGlobalIPv4 = ''State:/Network/Global/IPv4''"
definition kGlobalDNS :: string where "kGlobalDNS = ''State:/Network/Global/DNS''"

abbreviation (input) SCUTIL :: "string list" where "SCUTIL \<equiv> [''/usr/sbin/scutil'']"
abbreviation (input) NETWORKSETUP :: string where "NETWORKSETUP \<equiv> ''/usr/sbin/networksetup''"
abbreviation (input) IFCONFIG :: string where "IFCONFIG \<equiv> ''/sbin/ifconfig''"
abbreviation (input) ROUTE :: string where "ROUTE \<equiv> ''/sbin/route''"

text \<open>A text of lines, \<open>"%s"\<close> in double quotes, and the test \<open>p && p[0]\<close>.\<close>

definition script :: "string list \<Rightarrow> string" where
  "script ls = concat (map (\<lambda>l. l @ [NL]) ls)"

definition quoted :: "string \<Rightarrow> string" where
  "quoted s = [CHR 0x22] @ s @ [CHR 0x22]"

definition nonempty :: "string option \<Rightarrow> bool" where
  "nonempty p = (case p of None \<Rightarrow> False | Some s \<Rightarrow> s \<noteq> '''')"

definition bool_text :: "bool \<Rightarrow> string" where
  "bool_text b = (if b then ''true'' else ''false'')"

section \<open>The marker of a radio that was turned off\<close>

definition AT_WIFI_MARKER_REL :: string where
  "AT_WIFI_MARKER_REL = ''Library/Application Support/macos-wired-tethering/wifi-restore''"

definition AT_WIFI_MARKER_TMP :: string where
  "AT_WIFI_MARKER_TMP = ''/tmp/macos-wired-tethering-wifi-restore''"

text \<open>The home directory and the user id, or \<open>None\<close> for the result -1.\<close>

definition console_home :: "'w net_env \<Rightarrow> nat \<Rightarrow> 'w net \<Rightarrow> (string \<times> nat) option" where
  "console_home v n s =
     (if n = 0 then None else
      let w = n_world s;
          pw = (case nv_console_uid v w of None \<Rightarrow> None | Some uid \<Rightarrow> if uid \<noteq> 0 then nv_pwuid v uid w else None);
          pw = (if pw \<noteq> None then pw else
                if nonempty (nv_login v w) then nv_pwnam v (the (nv_login v w)) w else None)
      in case pw of None \<Rightarrow> None
         | Some p \<Rightarrow> (case pw_dir p of None \<Rightarrow> None
             | Some d \<Rightarrow> if d = '''' then None else Some (strlcpy n d, pw_uid p)))"

definition wifi_marker_user_path :: "'w net_env \<Rightarrow> nat \<Rightarrow> 'w net \<Rightarrow> string option" where
  "wifi_marker_user_path v n s =
     (case console_home v 256 s of None \<Rightarrow> None
      | Some (home, _) \<Rightarrow> Some (strlcpy n (home @ ''/'' @ AT_WIFI_MARKER_REL)))"

definition write_wifi_marker :: "'w net_env \<Rightarrow> string option \<Rightarrow> 'w net \<Rightarrow> 'w net" where
  "write_wifi_marker v dev s =
     (case console_home v 256 s of None \<Rightarrow> s
      | Some (home, uid) \<Rightarrow>
          let s = act v (Mkdir (strlcpy 512 (home @ ''/Library/Application Support'')) 0x1ED) s;
              dir = strlcpy 512 (home @ ''/Library/Application Support/macos-wired-tethering'');
              path = strlcpy 640 (dir @ ''/wifi-restore'');
              s = act v (Mkdir dir 0x1ED) s;
              s = (if uid > 0 then act v (Chown dir uid) s else s)
          in if \<not> nv_fopen v path (n_world s) then s else
             let s = act v (WriteFile path ((if nonempty dev then the dev else ''en0'') @ [NL])) s;
                 s = act v (Chmod path 0x1A4) s
             in if uid > 0 then act v (Chown path uid) s else s)"

definition clear_wifi_marker :: "'w net_env \<Rightarrow> 'w net \<Rightarrow> 'w net" where
  "clear_wifi_marker v s =
     (let s = (case wifi_marker_user_path v 640 s of None \<Rightarrow> s | Some path \<Rightarrow> act v (Unlink path) s)
      in act v (Unlink AT_WIFI_MARKER_TMP) s)"

definition wifi_marker_present :: "'w net_env \<Rightarrow> 'w net \<Rightarrow> bool" where
  "wifi_marker_present v s =
     ((case wifi_marker_user_path v 640 s of None \<Rightarrow> False | Some path \<Rightarrow> nv_access v path (n_world s)) \<or>
      nv_access v AT_WIFI_MARKER_TMP (n_world s))"

section \<open>Scripts for \<open>scutil\<close>\<close>

definition scutil_run :: "'w net_env \<Rightarrow> string \<Rightarrow> 'w net \<Rightarrow> int \<times> 'w net" where
  "scutil_run v scr s = run_cmd_stdin v SCUTIL (Some scr) s"

definition scutil_show :: "'w net_env \<Rightarrow> string \<Rightarrow> nat \<Rightarrow> 'w net \<Rightarrow> int \<times> string option \<times> 'w net" where
  "scutil_show v key out_len s =
     (let scr = strlcpy 512 (''show '' @ key @ [NL]);
          (rc, out, s) = capture_cmd_stdin v SCUTIL (Some scr) out_len s
      in (if rc \<noteq> 0 then -1 else if strstr (the out) ''No such key'' then 1 else 0, out, s))"

definition scutil_key_exists :: "'w net_env \<Rightarrow> string \<Rightarrow> 'w net \<Rightarrow> bool \<times> 'w net" where
  "scutil_key_exists v key s = (let (rc, out, s) = scutil_show v key 2048 s in (rc = 0, s))"

definition scutil_copy_key :: "'w net_env \<Rightarrow> string \<Rightarrow> string \<Rightarrow> 'w net \<Rightarrow> int \<times> 'w net" where
  "scutil_copy_key v src dst s =
     scutil_run v (strlcpy 768 (script [''open'', ''get '' @ src, ''set '' @ dst, ''close''])) s"

definition scutil_remove_key :: "'w net_env \<Rightarrow> string \<Rightarrow> 'w net \<Rightarrow> 'w net" where
  "scutil_remove_key v key s = snd (scutil_run v (strlcpy 512 (script [''open'', ''remove '' @ key, ''close''])) s)"

section \<open>The power of the radio\<close>

definition wifi_find_device :: "'w net_env \<Rightarrow> string \<Rightarrow> nat \<Rightarrow> 'w net \<Rightarrow> int \<times> string \<times> 'w net" where
  "wifi_find_device v dev n s =
     (let (rc, out, s) = capture_cmd_merged v [NETWORKSETUP, ''-listallhardwareports''] 4096 s in
      if rc \<noteq> 0 then (-1, dev, s)
      else let (rc, dev) = at_parse_wifi_device_text out dev n in (rc, dev, s))"

definition wifi_power_on :: "'w net_env \<Rightarrow> string option \<Rightarrow> 'w net \<Rightarrow> int \<times> 'w net" where
  "wifi_power_on v dev s =
     (if \<not> nonempty dev \<or> dev = Some ''none'' then (-1, s) else
      let (rc, out, s) = capture_cmd_merged v [NETWORKSETUP, ''-getairportpower'', the dev] 256 s in
      if rc \<noteq> 0 then (-1, s) else (at_parse_wifi_power_text out, s))"

definition wifi_set_power :: "'w net_env \<Rightarrow> string option \<Rightarrow> bool \<Rightarrow> 'w net \<Rightarrow> int \<times> 'w net" where
  "wifi_set_power v dev on s =
     (if \<not> nonempty dev \<or> dev = Some ''none'' then (-1, s) else
      run_cmd v [NETWORKSETUP, ''-setairportpower'', the dev, if on then ''on'' else ''off''] s)"

text \<open>The attempts that are left, and the last look at the radio behind them.\<close>

fun verify_loop :: "'w net_env \<Rightarrow> nat \<Rightarrow> string option \<Rightarrow> bool \<Rightarrow> 'w net \<Rightarrow> int \<times> 'w net" where
  "verify_loop v 0 dev on s =
     (let (st, s) = wifi_power_on v dev s in (if st = (if on then 1 else 0) then 0 else -1, s))"
| "verify_loop v (Suc n) dev on s =
     (let s = snd (wifi_set_power v dev on s);
          s = act v (Usleep 350000) s;
          s = (if on then snd (run_cmd v [IFCONFIG, the dev, ''up''] s) else s);
          (st, s) = wifi_power_on v dev s
      in if st = (if on then 1 else 0) then (0, s) else verify_loop v n dev on s)"

definition wifi_set_power_verify :: "'w net_env \<Rightarrow> string option \<Rightarrow> bool \<Rightarrow> 'w net \<Rightarrow> int \<times> 'w net" where
  "wifi_set_power_verify v dev on s =
     (if \<not> nonempty dev \<or> dev = Some ''none'' then (-1, s) else verify_loop v 4 dev on s)"

definition persist_wifi_backup :: "'w net_env \<Rightarrow> string option \<Rightarrow> bool \<Rightarrow> bool \<Rightarrow> 'w net \<Rightarrow> 'w net" where
  "persist_wifi_backup v dev was_on turned_off s =
     (let d = (if nonempty dev then the dev else ''none'') in
      snd (scutil_run v (strlcpy 1024 (script
        [''open'', ''d.init'', ''d.add Device '' @ quoted d, ''d.add WasOn '' @ quoted (bool_text was_on),
         ''d.add TurnedOff '' @ quoted (bool_text turned_off), ''set '' @ kBackupWifi, ''close''])) s))"

text \<open>The device and whether it was on.\<close>

definition snapshot_wifi :: "'w net_env \<Rightarrow> string \<Rightarrow> nat \<Rightarrow> 'w net \<Rightarrow> string \<times> bool \<times> 'w net" where
  "snapshot_wifi v dev dev_n s =
     (let (rc, dev, s) = wifi_find_device v dev dev_n s in
      if rc \<noteq> 0 then (if dev_n \<noteq> 0 then '''' else dev, False, persist_wifi_backup v (Some ''none'') False False s)
      else let (on, s) = wifi_power_on v (Some dev) s;
               s = s\<lparr>n_wifi_dev := strlcpy 32 dev\<rparr>
           in (dev, on = 1, persist_wifi_backup v (Some dev) (on = 1) False s))"

text \<open>\<open>use\<close> may be the array that the second search writes to; then the comparison finds no difference.\<close>

definition restore_wifi_device :: "'w net_env \<Rightarrow> string option \<Rightarrow> 'w net \<Rightarrow> int \<times> 'w net" where
  "restore_wifi_device v dev s =
     (let ready = (nonempty dev \<and> dev \<noteq> Some ''none'');
          (dev', found, same, s) =
            (if ready then (dev, '''', False, s)
             else if n_wifi_dev s \<noteq> '''' then (Some (n_wifi_dev s), '''', False, s)
             else let (rc, found, s) = wifi_find_device v '''' 32 s in
               (if rc = 0 then Some found else None, found, True, s))
      in case dev' of None \<Rightarrow> (-1, s)
         | Some d \<Rightarrow>
             let (rc, s) = wifi_set_power_verify v (Some d) True s in
             if rc = 0 then (0, clear_wifi_marker v (s\<lparr>n_we_off := False\<rparr>)) else
             let (rc, found, s) = wifi_find_device v found 32 s in
             if rc = 0 \<and> \<not> same \<and> found \<noteq> d then
               (let (rc, s) = wifi_set_power_verify v (Some found) True s in
                if rc = 0 then (0, clear_wifi_marker v (s\<lparr>n_we_off := False\<rparr>)) else (-1, s))
             else (-1, s))"

text \<open>A field of a dump, in a zeroed array of size \<open>n\<close>.\<close>

definition field :: "string option \<Rightarrow> string \<Rightarrow> nat \<Rightarrow> string" where
  "field out label n = at_parse_scutil_field out (Some label) '''' n"

definition restore_wifi_from_backup :: "'w net_env \<Rightarrow> 'w net \<Rightarrow> 'w net" where
  "restore_wifi_from_backup v s =
     (let (rc, dump, s) = scutil_show v kBackupWifi 2048 s;
          dev = (if rc = 0 then field dump ''Device'' 32 else '''');
          was = (if rc = 0 then field dump ''WasOn'' 16 else '''');
          off = (if rc = 0 then field dump ''TurnedOff'' 16 else '''');
          dev = (if dev = '''' \<and> n_wifi_dev s \<noteq> '''' then strlcpy 32 (n_wifi_dev s) else dev);
          should = (n_we_off s \<or> at_parse_wifi_truthy (Some off) \<or> at_parse_wifi_truthy (Some was))
      in if \<not> should then s else snd (restore_wifi_device v (Some dev) s))"

definition at_net_disable_wifi_during_tether :: "'w net_env \<Rightarrow> 'w net \<Rightarrow> int \<times> 'w net" where
  "at_net_disable_wifi_during_tether v s =
     (let (rc, dev, s) = wifi_find_device v '''' 32 s in
      if rc \<noteq> 0 then (0, s) else
      let (on, s) = wifi_power_on v (Some dev) s in
      if on = 0 then (0, persist_wifi_backup v (Some dev) False False s) else
      let (rc, s) = wifi_set_power_verify v (Some dev) False s in
      if rc \<noteq> 0 then (-1, s) else
      let s = s\<lparr>n_wifi_dev := strlcpy 32 dev, n_we_off := True\<rparr>;
          s = persist_wifi_backup v (Some dev) True True s
      in (0, write_wifi_marker v (Some dev) s))"

definition at_net_restore_wifi :: "'w net_env \<Rightarrow> 'w net \<Rightarrow> int \<times> 'w net" where
  "at_net_restore_wifi v s =
     (let s = restore_wifi_from_backup v s in
      if n_we_off s \<or> wifi_marker_present v s
      then restore_wifi_device v (if n_wifi_dev s \<noteq> '''' then Some (n_wifi_dev s) else None) s
      else (0, s))"

section \<open>What a tool reads\<close>

text \<open>The commands of a script: the words of its lines, as \<open>scutil\<close> splits them.\<close>

definition blank :: "char \<Rightarrow> bool" where
  "blank c \<longleftrightarrow> c = CHR '' '' \<or> c = TAB"

definition commands :: "string \<Rightarrow> string list list" where
  "commands txt = map (strtok blank) (strtok (\<lambda>c. c = NL) txt)"

lemma strtok_word: "list_all (\<lambda>c. \<not> P c) w \<Longrightarrow> acc \<noteq> [] \<or> w \<noteq> [] \<Longrightarrow> strtok_loop P acc w = [rev acc @ w]"
  by (induction w arbitrary: acc) auto

lemma strtok_word_sep: "list_all (\<lambda>c. \<not> P c) w \<Longrightarrow> acc \<noteq> [] \<or> w \<noteq> [] \<Longrightarrow> P c \<Longrightarrow>
  strtok_loop P acc (w @ c # r) = (rev acc @ w) # strtok_loop P [] r"
  by (induction w arbitrary: acc) auto

definition line_ok :: "string \<Rightarrow> bool" where
  "line_ok l \<longleftrightarrow> l \<noteq> [] \<and> list_all (\<lambda>c. c \<noteq> NL) l"

lemma script_simps [simp]: "script [] = []" "script (l # ls) = l @ NL # script ls" "script (ls @ ls') = script ls @ script ls'"
  by (simp_all add: script_def)

lemma lines_of_script: "list_all line_ok ls \<Longrightarrow> strtok (\<lambda>c. c = NL) (script ls) = ls"
  unfolding strtok_def
  by (induction ls) (simp_all add: line_ok_def strtok_word_sep)

lemma commands_of_script: "list_all line_ok ls \<Longrightarrow> commands (script ls) = map (strtok blank) ls"
  by (simp add: commands_def lines_of_script)

lemma safe_chars: "safe_text w \<Longrightarrow> w \<noteq> [] \<and> list_all (\<lambda>c. \<not> blank c) w \<and> list_all (\<lambda>c. c \<noteq> NL) w \<and> length w \<le> 15"
  using safe_not_space by (fastforce simp: safe_text_def list_all_iff blank_def isspace_def)

lemma safe_word [simp]: "safe_text w \<Longrightarrow> strtok_loop blank [] w = [w]"
  using strtok_word [of blank w "[]"] safe_chars by simp

lemma safe_words [simp]: "safe_text w \<Longrightarrow> strtok_loop blank [] (w @ CHR '' '' # r) = w # strtok_loop blank [] r"
  using strtok_word_sep [of blank w "[]" "CHR '' ''" r] safe_chars by (simp add: blank_def)

lemma strlcpy_short: "length t < n \<Longrightarrow> strlcpy n t = t"
  by (simp add: strlcpy_def)

section \<open>The radio\<close>

text \<open>One look at the power: the call, and what is read.\<close>

definition power_call :: "string \<Rightarrow> net_call" where
  "power_call dev = Run [NETWORKSETUP, ''-getairportpower'', dev] None (Merged 256)"

definition set_call :: "string \<Rightarrow> bool \<Rightarrow> net_call" where
  "set_call dev on = Run [NETWORKSETUP, ''-setairportpower'', dev, if on then ''on'' else ''off''] None Shared"

definition reading :: "'w net_env \<Rightarrow> string \<Rightarrow> 'w net \<Rightarrow> int" where
  "reading v dev s =
     (let c = power_call dev in
      if status_ok (nv_wait v c (n_world s))
      then at_parse_wifi_power_text (Some (trimmed (read_loop 256 [] (nv_reads v c (n_world s))))) else -1)"

definition power_val :: "bool \<Rightarrow> int" where
  "power_val on = (if on then 1 else 0)"

lemma wifi_power_on_eq:
  assumes "nonempty (Some dev)" "dev \<noteq> ''none''" "nv_spawn v [NETWORKSETUP, ''-getairportpower'', dev] (n_world s)"
  shows "wifi_power_on v (Some dev) s = (reading v dev s, act v (power_call dev) s)"
  using assms by (simp add: wifi_power_on_def capture_cmd_merged_def reading_def power_call_def Let_def)

lemma wifi_power_on_shape:
  "wifi_power_on v (Some dev) s = (-1, s) \<or> wifi_power_on v (Some dev) s = (reading v dev s, act v (power_call dev) s)"
  by (auto simp: wifi_power_on_def capture_cmd_merged_def reading_def power_call_def Let_def)

lemma power_seen:
  assumes "wifi_power_on v (Some dev) s = (power_val on, s')"
  shows "s' = act v (power_call dev) s \<and> reading v dev s = power_val on"
  using wifi_power_on_shape [of v dev s] assms by (auto simp: power_val_def split: if_splits)

text \<open>The commands that are sent to the radio.\<close>

definition sent :: "string \<Rightarrow> bool \<Rightarrow> 'w net \<Rightarrow> nat" where
  "sent dev on s = count_list (n_calls s) (set_call dev on)"

lemma act_calls [simp]: "n_calls (act v c s) = n_calls s @ [c]"
  by (simp add: act_def)

lemma sent_power_on: "wifi_power_on v (Some dev) s = (st, s') \<Longrightarrow> sent dev on s' = sent dev on s"
  using wifi_power_on_shape [of v dev s] by (auto simp: sent_def power_call_def set_call_def)

lemma sent_set_power: "sent dev on (snd (wifi_set_power v (Some dev) on s)) \<le> Suc (sent dev on s)"
  by (simp add: wifi_set_power_def run_cmd_def Let_def sent_def)

lemma sent_run: "argv \<noteq> [NETWORKSETUP, ''-setairportpower'', dev, if on then ''on'' else ''off''] \<Longrightarrow>
  sent dev on (snd (run_cmd v argv s)) = sent dev on s"
  by (simp add: run_cmd_def sent_def set_call_def Let_def)

lemma verify_loop_result:
  "case verify_loop v n (Some dev) on s of (rc, s') \<Rightarrow> rc \<in> {0, -1} \<and> sent dev on s' \<le> sent dev on s + n \<and>
    (rc = 0 \<longrightarrow> (\<exists>s0. s' = act v (power_call dev) s0 \<and> reading v dev s0 = power_val on))"
proof (induction n arbitrary: s)
  case 0
  obtain st s' where p: "wifi_power_on v (Some dev) s = (st, s')" by fastforce
  then show ?case using sent_power_on [OF p] power_seen [of v dev s on s'] by (auto simp: power_val_def)
next
  case (Suc n)
  let ?s1 = "act v (Usleep 350000) (snd (wifi_set_power v (Some dev) on s))"
  let ?s2 = "if on then snd (run_cmd v [IFCONFIG, dev, ''up''] ?s1) else ?s1"
  obtain st s3 where p: "wifi_power_on v (Some dev) ?s2 = (st, s3)" by fastforce
  have "sent dev on ?s1 \<le> Suc (sent dev on s)" using sent_set_power [of dev on v s] by (simp add: sent_def set_call_def)
  then have n: "sent dev on s3 \<le> Suc (sent dev on s)" using sent_power_on [OF p, of on] by (cases on) (simp_all add: sent_run)
  show ?case
  proof (cases "st = power_val on")
    case True
    then have "verify_loop v (Suc n) (Some dev) on s = (0, s3)" using p by (cases on) (simp_all add: power_val_def Let_def)
    then show ?thesis using n power_seen [of v dev ?s2 on s3] p True by auto
  next
    case False
    then have "verify_loop v (Suc n) (Some dev) on s = verify_loop v n (Some dev) on s3"
      using p by (cases on) (simp_all add: power_val_def Let_def)
    then show ?thesis using n Suc.IH [of s3] by (auto split: prod.splits)
  qed
qed

text \<open>
  C37: the power command never claims a success it has not seen: the result 0 means that the last thing done
  was to ask the radio, and that its answer was the wanted state. Otherwise the result is -1. The command is
  sent at most four times, and nothing is run without a device.
\<close>

theorem power_verified:
  "case wifi_set_power_verify v dev on s of (rc, s') \<Rightarrow>
    rc \<in> {0, -1} \<and> (\<not> nonempty dev \<or> dev = Some ''none'' \<longrightarrow> rc = -1 \<and> s' = s) \<and>
    sent (the dev) on s' \<le> sent (the dev) on s + 4 \<and>
    (rc = 0 \<longrightarrow> (\<exists>s0. s' = act v (power_call (the dev)) s0 \<and> reading v (the dev) s0 = power_val on))"
proof (cases "\<not> nonempty dev \<or> dev = Some ''none''")
  case False
  then obtain d where "dev = Some d" by (cases dev) (auto simp: nonempty_def)
  then show ?thesis using False verify_loop_result [where v = v and n = 4 and dev = d and on = on and s = s] by (auto simp: wifi_set_power_verify_def)
qed (auto simp: wifi_set_power_verify_def)

text \<open>
  The documented behaviour of one radio \<open>dev\<close>: \<open>networksetup\<close> lists it and nothing else as Wi-Fi, reports its
  power, sets its power, and fails for other devices; no other tool changes the power.
\<close>

definition power_text :: "string \<Rightarrow> bool \<Rightarrow> string" where
  "power_text dev on = ''Wi-Fi Power ('' @ dev @ ''): '' @ (if on then ''On'' else ''Off'')"

definition list_call :: net_call where
  "list_call = Run [NETWORKSETUP, ''-listallhardwareports''] None (Merged 4096)"

definition radio_ok :: "'w net_env \<Rightarrow> string \<Rightarrow> ('w \<Rightarrow> bool) \<Rightarrow> bool" where
  "radio_ok v dev on_air \<longleftrightarrow> dev \<notin> {'''', ''none''} \<and> length dev < 32 \<and>
     (\<forall>on. at_parse_wifi_power_text (Some (power_text dev on)) = power_val on) \<and>
     (\<forall>a w. nv_spawn v a w) \<and>
     (\<forall>w. nv_wait v list_call w = Some (Some 0) \<and>
        at_parse_wifi_device_text (Some (trimmed (read_loop 4096 [] (nv_reads v list_call w)))) '''' 32 = (0, dev)) \<and>
     (\<forall>w. nv_wait v (power_call dev) w = Some (Some 0) \<and>
        trimmed (read_loop 256 [] (nv_reads v (power_call dev) w)) = power_text dev (on_air w)) \<and>
     (\<forall>d w. d \<noteq> dev \<longrightarrow> \<not> status_ok (nv_wait v (power_call d) w)) \<and>
     (\<forall>on w. on_air (nv_do v (set_call dev on) w) = on) \<and>
     (\<forall>c w. (\<forall>on. c \<noteq> set_call dev on) \<longrightarrow> on_air (nv_do v c w) = on_air w)"

text \<open>The variables of the file are untouched, and so is the power of the radio.\<close>

definition flags_same :: "'w net \<Rightarrow> 'w net \<Rightarrow> bool" where
  "flags_same s s' \<longleftrightarrow> n_session_open s' = n_session_open s \<and> n_we_off s' = n_we_off s \<and> n_wifi_dev s' = n_wifi_dev s"

lemma flags_same_refl [simp]: "flags_same s s"
  and flags_same_act [simp]: "flags_same s (act v c s)"
  by (simp_all add: flags_same_def act_def)

lemma flags_same_trans: "flags_same a b \<Longrightarrow> flags_same b c \<Longrightarrow> flags_same a c"
  by (simp add: flags_same_def)

lemma flags_run_cmd [simp]: "flags_same s (snd (run_cmd v argv s))"
  by (simp add: run_cmd_def Let_def)

lemma flags_scutil [simp]: "flags_same s (snd (scutil_run v scr s))"
  by (simp add: scutil_run_def run_cmd_stdin_def Let_def)

definition same_radio :: "('w \<Rightarrow> bool) \<Rightarrow> 'w net \<Rightarrow> 'w net \<Rightarrow> bool" where
  "same_radio on_air s s' \<longleftrightarrow> on_air (n_world s') = on_air (n_world s)"

lemma same_radio_refl [simp]: "same_radio on_air s s"
  by (simp add: same_radio_def)

lemma same_radio_trans: "same_radio on_air a b \<Longrightarrow> same_radio on_air b c \<Longrightarrow> same_radio on_air a c"
  by (simp add: same_radio_def)

lemma radio_act: "radio_ok v dev on_air \<Longrightarrow> \<forall>on. c \<noteq> set_call dev on \<Longrightarrow> same_radio on_air s (act v c s)"
  by (simp add: radio_ok_def act_def same_radio_def)

lemma radio_scutil: "radio_ok v dev on_air \<Longrightarrow> same_radio on_air s (snd (scutil_run v scr s))"
  by (simp add: scutil_run_def run_cmd_stdin_def Let_def radio_act set_call_def)

lemma radio_look:
  assumes "radio_ok v dev on_air"
  shows "wifi_power_on v (Some dev) s = (power_val (on_air (n_world s)), act v (power_call dev) s)"
  using assms by (auto simp: wifi_power_on_eq radio_ok_def nonempty_def reading_def status_ok_def Let_def)

lemma radio_look_other:
  assumes "radio_ok v dev on_air" "d \<noteq> dev"
  shows "fst (wifi_power_on v (Some d) s) = -1" "same_radio on_air s (snd (wifi_power_on v (Some d) s))"
    "flags_same s (snd (wifi_power_on v (Some d) s))"
proof -
  have "reading v d s = -1" using assms by (simp add: reading_def radio_ok_def)
  moreover have "same_radio on_air s (act v (power_call d) s)"
    by (rule radio_act [OF assms(1)]) (simp add: power_call_def set_call_def)
  ultimately show "fst (wifi_power_on v (Some d) s) = -1" "same_radio on_air s (snd (wifi_power_on v (Some d) s))"
    "flags_same s (snd (wifi_power_on v (Some d) s))"
    using wifi_power_on_shape [of v d s] by auto
qed

lemma radio_set:
  assumes "radio_ok v dev on_air"
  obtains s' where "wifi_set_power_verify v (Some dev) on s = (0, s')" "on_air (n_world s') = on" "flags_same s s'"
proof -
  have d: "nonempty (Some dev)" "dev \<noteq> ''none''" "\<forall>a w. nv_spawn v a w"
    and p: "\<forall>on w. on_air (nv_do v (set_call dev on) w) = on"
    using assms by (auto simp: radio_ok_def nonempty_def)
  let ?s1 = "act v (Usleep 350000) (act v (set_call dev on) s)"
  let ?s2 = "if on then snd (run_cmd v [IFCONFIG, dev, ''up''] ?s1) else ?s1"
  have "on_air (n_world (act v (set_call dev on) s)) = on" using p by (simp add: act_def)
  then have 1: "on_air (n_world ?s1) = on"
    using radio_act [OF assms, of "Usleep 350000" "act v (set_call dev on) s"] by (simp add: same_radio_def set_call_def)
  have "same_radio on_air ?s1 ?s2"
    using radio_act [OF assms] by (simp add: run_cmd_def Let_def set_call_def)
  then have 2: "on_air (n_world ?s2) = on" using 1 by (simp add: same_radio_def)
  let ?s3 = "act v (power_call dev) ?s2"
  have set: "snd (wifi_set_power v (Some dev) on s) = act v (set_call dev on) s"
    using d by (simp add: wifi_set_power_def run_cmd_def set_call_def Let_def)
  have "verify_loop v (Suc n) (Some dev) on s = (0, ?s3)" for n
    using radio_look [OF assms, of ?s2] 2 set by (cases on) (simp_all add: power_val_def)
  then have "wifi_set_power_verify v (Some dev) on s = (0, ?s3)"
    using d(1,2) by (simp add: wifi_set_power_verify_def numeral_eq_Suc del: verify_loop.simps)
  moreover have "on_air (n_world ?s3) = on"
    using 2 radio_act [OF assms, of "power_call dev" ?s2] by (simp add: same_radio_def power_call_def set_call_def)
  moreover have f: "flags_same s ?s1"
    by (rule flags_same_trans [OF flags_same_act [of s v "set_call dev on"] flags_same_act])
  have "flags_same s ?s2" using f flags_same_trans [OF f flags_run_cmd] by (cases on) simp_all
  then have "flags_same s ?s3" by (rule flags_same_trans) simp
  ultimately show thesis by (rule that)
qed

definition sample_machine :: "bool net_env" where
  "sample_machine = \<lparr>nv_spawn = (\<lambda>_ _. True), nv_writes = (\<lambda>_ _ _. []),
     nv_reads = (\<lambda>c w. if c = power_call ''en0'' then [power_text ''en0'' w]
       else if c = list_call then [script [''Hardware Port: Wi-Fi'', ''Device: en0'', ''Ethernet Address: 02:00:00:00:00:01'']] else []),
     nv_wait = (\<lambda>c w. Some (Some (case c of Run (_ # b # d # _) _ _ \<Rightarrow>
       if b = ''-getairportpower'' \<and> d \<noteq> ''en0'' then 1 else 0 | _ \<Rightarrow> 0))),
     nv_do = (\<lambda>c w. if c = set_call ''en0'' True then True else if c = set_call ''en0'' False then False else w),
     nv_console_uid = (\<lambda>_. None), nv_pwuid = (\<lambda>_ _. None), nv_login = (\<lambda>_. None), nv_pwnam = (\<lambda>_ _. None),
     nv_fopen = (\<lambda>_ _. True), nv_access = (\<lambda>_ _. False)\<rparr>"

lemma sample_machine_ok: "radio_ok sample_machine ''en0'' id"
proof -
  have t: "at_parse_wifi_power_text (Some (power_text ''en0'' True)) = power_val True"
    "at_parse_wifi_power_text (Some (power_text ''en0'' False)) = power_val False"
    "trimmed (read_loop 256 [] [power_text ''en0'' True]) = power_text ''en0'' True"
    "trimmed (read_loop 256 [] [power_text ''en0'' False]) = power_text ''en0'' False"
    "at_parse_wifi_device_text (Some (trimmed (read_loop 4096 []
       [script [''Hardware Port: Wi-Fi'', ''Device: en0'', ''Ethernet Address: 02:00:00:00:00:01'']]))) '''' 32 = (0, ''en0'')"
    by code_simp+
  have "at_parse_wifi_power_text (Some (power_text ''en0'' on)) = power_val on"
    "trimmed (read_loop 256 [] [power_text ''en0'' on]) = power_text ''en0'' on" for on
    using t by (cases on; simp only:)+
  then show ?thesis
    by (auto simp: radio_ok_def sample_machine_def t(5) power_call_def list_call_def set_call_def status_ok_def
        simp del: read_loop.simps script_simps)
qed

definition sample_net :: "bool net" where
  "sample_net = \<lparr>n_session_open = False, n_we_off = False, n_wifi_dev = '''', n_calls = [], n_world = True\<rparr>"

theorem power_verified_witness:
  "case wifi_set_power_verify sample_machine (Some ''en0'') False sample_net of (rc, s') \<Rightarrow>
    rc = 0 \<and> \<not> n_world s' \<and> sent ''en0'' False s' \<le> 4 \<and>
    (\<exists>s0. s' = act sample_machine (power_call ''en0'') s0 \<and> reading sample_machine ''en0'' s0 = power_val False)"
proof -
  have "case wifi_set_power_verify sample_machine (Some ''en0'') False sample_net of (rc, s') \<Rightarrow> rc = 0 \<and> \<not> n_world s'"
    by (rule radio_set [OF sample_machine_ok, of False sample_net]) simp
  moreover have "sent ''en0'' False sample_net = 0" by (simp add: sent_def sample_net_def)
  ultimately show ?thesis using power_verified [where v = sample_machine and dev = "Some ''en0''" and on = False and s = sample_net]
    by (auto split: prod.splits)
qed

lemma radio_find:
  assumes "radio_ok v dev on_air"
  shows "wifi_find_device v old 32 s = (0, dev, act v list_call s)" "same_radio on_air s (act v list_call s)"
proof -
  have out: "at_parse_wifi_device_text (Some t) old 32 = at_parse_wifi_device_text (Some t) '''' 32" for t old
    by (simp add: at_parse_wifi_device_text_def)
  show "wifi_find_device v old 32 s = (0, dev, act v list_call s)"
    using assms out [of _ old]
    by (auto simp: wifi_find_device_def capture_cmd_merged_def radio_ok_def list_call_def status_ok_def Let_def)
  show "same_radio on_air s (act v list_call s)"
    by (rule radio_act [OF assms]) (simp add: list_call_def set_call_def)
qed

lemma flags_set_power: "flags_same s (snd (wifi_set_power v dev on s))"
  by (simp add: wifi_set_power_def)

lemma radio_set_other:
  assumes "radio_ok v dev on_air" "d \<noteq> dev"
  shows "fst (wifi_set_power_verify v (Some d) on s) = -1 \<and> flags_same s (snd (wifi_set_power_verify v (Some d) on s))"
proof -
  have "fst (verify_loop v n (Some d) on s) = -1 \<and> flags_same s (snd (verify_loop v n (Some d) on s))" for n
  proof (induction n arbitrary: s)
    case 0
    then show ?case using radio_look_other [OF assms, of s] by (auto simp: split_def Let_def)
  next
    case (Suc n)
    let ?s1 = "act v (Usleep 350000) (snd (wifi_set_power v (Some d) on s))"
    let ?s2 = "if on then snd (run_cmd v [IFCONFIG, d, ''up''] ?s1) else ?s1"
    obtain s3 where p: "wifi_power_on v (Some d) ?s2 = (-1, s3)" "flags_same ?s2 s3"
      using radio_look_other [OF assms, of ?s2] by (metis prod.collapse)
    have 1: "flags_same s ?s1" by (rule flags_same_trans [OF flags_set_power flags_same_act])
    have "flags_same s ?s2" using 1 flags_same_trans [OF 1 flags_run_cmd] by (cases on) simp_all
    then have s3: "flags_same s s3" using p(2) flags_same_trans by blast
    have "verify_loop v (Suc n) (Some d) on s = verify_loop v n (Some d) on s3"
      using p(1) by (cases on) (simp_all add: Let_def)
    then show ?case using Suc.IH [of s3] s3 flags_same_trans by metis
  qed
  then show ?thesis by (simp add: wifi_set_power_verify_def del: verify_loop.simps)
qed

lemma flags_files: "flags_same s (clear_wifi_marker v s)" "flags_same s (write_wifi_marker v dev s)"
  by (auto simp: clear_wifi_marker_def write_wifi_marker_def flags_same_def act_def Let_def split: option.splits)

lemma radio_files:
  assumes "radio_ok v dev on_air"
  shows "same_radio on_air s (clear_wifi_marker v s)" "same_radio on_air s (write_wifi_marker v d s)"
  using radio_act [OF assms]
  by (auto simp: clear_wifi_marker_def write_wifi_marker_def same_radio_def set_call_def Let_def split: option.splits)

text \<open>Whatever device name is asked for, and whatever is remembered, the radio is found and turned on.\<close>

lemma radio_restored:
  assumes "radio_ok v dev on_air"
  obtains s' where "restore_wifi_device v d s = (0, s')" "on_air (n_world s')" "\<not> n_we_off s'"
proof -
  have fin: "on_air (n_world (clear_wifi_marker v (t\<lparr>n_we_off := False\<rparr>))) \<and> \<not> n_we_off (clear_wifi_marker v (t\<lparr>n_we_off := False\<rparr>))"
    if "on_air (n_world t)" for t
    using that radio_files(1) [OF assms, of "t\<lparr>n_we_off := False\<rparr>"] flags_files(1) [of "t\<lparr>n_we_off := False\<rparr>" v]
    by (simp add: same_radio_def flags_same_def)
  have dev: "dev \<noteq> ''''" "dev \<noteq> ''none''" using assms by (auto simp: radio_ok_def)
  have "\<exists>use found same s1. (if nonempty d \<and> d \<noteq> Some ''none'' then (d, '''', False, s)
      else if n_wifi_dev s \<noteq> '''' then (Some (n_wifi_dev s), '''', False, s)
      else let (rc, found, s) = wifi_find_device v '''' 32 s in (if rc = 0 then Some found else None, found, True, s))
      = (Some use, found, same, s1) \<and> (same \<longrightarrow> use = dev)"
    using radio_find(1) [OF assms, of "''''" s] by (cases d) (auto simp: nonempty_def)
  then obtain use found same s1 where
    u: "(if nonempty d \<and> d \<noteq> Some ''none'' then (d, '''', False, s)
      else if n_wifi_dev s \<noteq> '''' then (Some (n_wifi_dev s), '''', False, s)
      else let (rc, found, s) = wifi_find_device v '''' 32 s in (if rc = 0 then Some found else None, found, True, s))
      = (Some use, found, same, s1)" "same \<longrightarrow> use = dev"
    by blast
  obtain rc s2 where r: "wifi_set_power_verify v (Some use) True s1 = (rc, s2)" by fastforce
  show thesis
  proof (cases "use = dev")
    case True
    then have "rc = 0 \<and> on_air (n_world s2)" using radio_set [OF assms, of True s1] r by auto
    then show thesis using fin [of s2] u r that [of "clear_wifi_marker v (s2\<lparr>n_we_off := False\<rparr>)"]
      by (simp add: restore_wifi_device_def Let_def)
  next
    case False
    then have "rc = -1" "\<not> same" using radio_set_other [OF assms False, of True s1] r u(2) by auto
    moreover obtain s3 where "wifi_set_power_verify v (Some dev) True (act v list_call s2) = (0, s3)" "on_air (n_world s3)"
      using radio_set [OF assms, of True "act v list_call s2"] by auto
    ultimately show thesis
      using fin [of s3] u(1) r False radio_find(1) [OF assms, of found s2] that [of "clear_wifi_marker v (s3\<lparr>n_we_off := False\<rparr>)"]
      by (simp add: restore_wifi_device_def Let_def)
  qed
qed

lemma persist_keeps:
  assumes "radio_ok v dev on_air"
  shows "same_radio on_air s (persist_wifi_backup v d a b s)" "flags_same s (persist_wifi_backup v d a b s)"
  using radio_scutil [OF assms] flags_scutil by (simp_all add: persist_wifi_backup_def Let_def)

lemma show_keeps: "flags_same s (snd (snd (scutil_show v key n s)))"
  by (simp add: scutil_show_def capture_cmd_stdin_def Let_def)

lemma backup_restores:
  assumes "radio_ok v dev on_air" "n_we_off s"
  shows "on_air (n_world (restore_wifi_from_backup v s)) \<and> \<not> n_we_off (restore_wifi_from_backup v s)"
proof -
  obtain rc dump s1 where s1: "scutil_show v kBackupWifi 2048 s = (rc, dump, s1)" by (metis prod_cases3)
  then have o: "n_we_off s1" using show_keeps [of s v kBackupWifi 2048] assms(2) by (simp add: flags_same_def)
  define d where "d = (let d = (if rc = 0 then field dump ''Device'' 32 else '''') in
    if d = '''' \<and> n_wifi_dev s1 \<noteq> '''' then strlcpy 32 (n_wifi_dev s1) else d)"
  have "restore_wifi_from_backup v s = snd (restore_wifi_device v (Some d) s1)"
    using s1 o by (simp add: restore_wifi_from_backup_def d_def Let_def)
  then show ?thesis using radio_restored [OF assms(1), of "Some d" s1] by (metis snd_conv)
qed

lemma radio_disabled:
  assumes "radio_ok v dev on_air" "at_net_disable_wifi_during_tether v s = (rc, s1)"
  shows "rc = 0 \<and> \<not> on_air (n_world s1) \<and> (on_air (n_world s) \<or> n_we_off s \<longrightarrow> n_we_off s1)"
proof -
  let ?s0 = "act v (power_call dev) (act v list_call s)"
  have air: "on_air (n_world (act v list_call s)) = on_air (n_world s)" "on_air (n_world ?s0) = on_air (n_world s)"
    using radio_act [OF assms(1)] by (simp_all add: same_radio_def list_call_def power_call_def set_call_def)
  note look = radio_find(1) [OF assms(1), of "''''" s] radio_look [OF assms(1), of "act v list_call s"]
  show ?thesis
  proof (cases "on_air (n_world s)")
    case False
    then have "rc = 0" "s1 = persist_wifi_backup v (Some dev) False False ?s0"
      using assms(2) look air by (simp_all add: at_net_disable_wifi_during_tether_def power_val_def)
    then show ?thesis using persist_keeps [OF assms(1), of ?s0] air False by (simp add: same_radio_def flags_same_def act_def)
  next
    case True
    obtain s' where s': "wifi_set_power_verify v (Some dev) False ?s0 = (0, s')" "\<not> on_air (n_world s')"
      using radio_set [OF assms(1), of False ?s0] by auto
    let ?t = "s'\<lparr>n_wifi_dev := strlcpy 32 dev, n_we_off := True\<rparr>"
    let ?u = "persist_wifi_backup v (Some dev) True True ?t"
    have "rc = 0" "s1 = write_wifi_marker v (Some dev) ?u"
      using assms(2) look air True s' by (simp_all add: at_net_disable_wifi_during_tether_def power_val_def Let_def)
    moreover have "same_radio on_air ?t s1" "flags_same ?t s1"
      using \<open>s1 = _\<close> persist_keeps [OF assms(1), of ?t "Some dev" True True] radio_files(2) [OF assms(1), of ?u "Some dev"]
        flags_files(2) [of ?u v "Some dev"] same_radio_trans flags_same_trans by blast+
    ultimately show ?thesis using s'(2) by (simp add: same_radio_def flags_same_def)
  qed
qed

text \<open>
  C13: a radio that was turned off for the session comes back: with one Wi-Fi device that works as
  documented, turning Wi-Fi off succeeds and leaves it off; and if it was on before, then in every later state
  of the machine in which this process still remembers that (whatever the backup key reads by then), giving
  Wi-Fi back succeeds, the radio is on and the memory is cleared.
\<close>

theorem wifi_comes_back:
  assumes "radio_ok v dev on_air" "at_net_disable_wifi_during_tether v s = (rc, s1)"
  shows "rc = 0 \<and> \<not> on_air (n_world s1) \<and> (on_air (n_world s) \<longrightarrow> n_we_off s1 \<and>
    (\<forall>s2. n_we_off s2 \<longrightarrow> (case at_net_restore_wifi v s2 of (rc', s3) \<Rightarrow> rc' = 0 \<and> on_air (n_world s3) \<and> \<not> n_we_off s3)))"
proof -
  have "case at_net_restore_wifi v s2 of (rc', s3) \<Rightarrow> rc' = 0 \<and> on_air (n_world s3) \<and> \<not> n_we_off s3" if "n_we_off s2" for s2
  proof -
    let ?r = "restore_wifi_from_backup v s2"
    obtain s3 where "restore_wifi_device v (if n_wifi_dev ?r \<noteq> '''' then Some (n_wifi_dev ?r) else None) ?r = (0, s3)"
      "on_air (n_world s3)" "\<not> n_we_off s3" using radio_restored [OF assms(1)] by blast
    then show ?thesis using backup_restores [OF assms(1) that] by (auto simp: at_net_restore_wifi_def Let_def)
  qed
  then show ?thesis using radio_disabled [OF assms] by blast
qed

theorem wifi_comes_back_witness:
  "case at_net_disable_wifi_during_tether sample_machine sample_net of (rc, s1) \<Rightarrow>
    rc = 0 \<and> \<not> n_world s1 \<and> n_we_off s1 \<and>
    (case at_net_restore_wifi sample_machine s1 of (rc', s3) \<Rightarrow> rc' = 0 \<and> n_world s3 \<and> \<not> n_we_off s3)"
proof -
  obtain rc s1 where d: "at_net_disable_wifi_during_tether sample_machine sample_net = (rc, s1)" by fastforce
  have "n_world sample_net" by (simp add: sample_net_def)
  with wifi_comes_back [OF sample_machine_ok d] d show ?thesis by (auto split: prod.splits)
qed

end
