(* ===== verification/NetConfig.thy ===== *)
theory NetConfig
  imports NetProc
begin

text \<open>
  The second half of \<open>engine/src/net_config.c\<close>: the snapshot of the routes and of the global network
  keys, giving them back, the network session, the service, and publishing the lease.
\<close>

section \<open>Routes\<close>

text \<open>Kind, gateway and interface of a default route as text.\<close>

type_synonym route = "string \<times> string \<times> string"

definition snapshot_default_route :: "'w net_env \<Rightarrow> 'w net \<Rightarrow> route \<times> 'w net" where
  "snapshot_default_route v s =
     (let (rc, out, s) = capture_cmd v [ROUTE, ''-n'', ''get'', ''default''] 2048 s in
      if rc \<noteq> 0 then ((''none'', '''', ''''), s) else
      let gw = field out ''gateway:'' 64; iface = field out ''interface:'' 32 in
      if gw \<noteq> '''' \<and> starts_with gw ''link#'' then ((''iface'', '''', iface), s)
      else if gw \<noteq> '''' \<and> CHR ''.'' \<in> set gw then ((''ipv4'', gw, iface), s)
      else if iface \<noteq> '''' then ((''iface'', gw, iface), s)
      else ((''none'', gw, iface), s))"

definition snapshot_default_route6 :: "'w net_env \<Rightarrow> 'w net \<Rightarrow> route \<times> 'w net" where
  "snapshot_default_route6 v s =
     (let (rc, out, s) = capture_cmd v [ROUTE, ''-n'', ''get'', ''-inet6'', ''default''] 2048 s in
      if rc \<noteq> 0 then ((''none'', '''', ''''), s) else
      let gw = field out ''gateway:'' 128; iface = field out ''interface:'' 32 in
      if gw \<noteq> '''' \<and> starts_with gw ''link#'' then ((''iface'', '''', iface), s)
      else if gw \<noteq> '''' \<and> CHR '':'' \<in> set gw then ((''ipv6'', gw, iface), s)
      else if iface \<noteq> '''' then ((''iface'', gw, iface), s)
      else ((''none'', gw, iface), s))"

definition restore_default_route :: "'w net_env \<Rightarrow> route \<Rightarrow> 'w net \<Rightarrow> int \<times> 'w net" where
  "restore_default_route v r s =
     (case r of (kind, gw, iface) \<Rightarrow>
        let s = snd (run_cmd v [ROUTE, ''-n'', ''delete'', ''default''] s) in
        if kind = ''none'' then (0, s)
        else if kind = ''ipv4'' \<and> gw \<noteq> '''' then
          (let (rc, s) = run_cmd v [ROUTE, ''-n'', ''add'', ''default'', gw] s in (if rc \<noteq> 0 then -1 else 0, s))
        else if iface \<noteq> '''' then
          (let (rc, s) = run_cmd v [ROUTE, ''-n'', ''add'', ''default'', ''-interface'', iface] s in
           (if rc \<noteq> 0 then -1 else 0, s))
        else (0, s))"

text \<open>At most \<open>n\<close> deletions, until one fails.\<close>

fun delete_loop6 :: "'w net_env \<Rightarrow> nat \<Rightarrow> 'w net \<Rightarrow> 'w net" where
  "delete_loop6 v 0 s = s"
| "delete_loop6 v (Suc n) s =
     (let (rc, s) = run_cmd v [ROUTE, ''-n'', ''delete'', ''-inet6'', ''default''] s in
      if rc \<noteq> 0 then s else delete_loop6 v n s)"

definition restore_default_route6 :: "'w net_env \<Rightarrow> route \<Rightarrow> 'w net \<Rightarrow> int \<times> 'w net" where
  "restore_default_route6 v r s =
     (case r of (kind, gw, iface) \<Rightarrow>
        let s = delete_loop6 v 4 s in
        if kind = ''none'' then (0, s)
        else if kind = ''ipv6'' \<and> gw \<noteq> '''' then
          (let (rc, s) = run_cmd v [ROUTE, ''-n'', ''add'', ''-inet6'', ''default'', gw] s in (if rc \<noteq> 0 then -1 else 0, s))
        else if iface \<noteq> '''' \<and> iface \<noteq> ''none'' then
          (let (rc, s) = run_cmd v [ROUTE, ''-n'', ''add'', ''-inet6'', ''default'', ''-interface'', iface] s in
           (if rc \<noteq> 0 then -1 else 0, s))
        else (0, s))"

section \<open>The service\<close>

definition at_net_unpublish_path :: "'w net_env \<Rightarrow> 'w net \<Rightarrow> int \<times> 'w net" where
  "at_net_unpublish_path v s =
     (0, snd (scutil_run v (strlcpy 1024 (script
       [''open'',
        ''remove State:/Network/Service/'' @ kServiceId @ ''/IPv4'',
        ''remove State:/Network/Service/'' @ kServiceId @ ''/DNS'',
        ''remove State:/Network/Service/'' @ kServiceId @ ''/Interface'',
        ''remove State:/Network/Service/'' @ kServiceId,
        ''remove Setup:/Network/Service/'' @ kServiceId @ ''/IPv4'',
        ''remove Setup:/Network/Service/'' @ kServiceId @ ''/Interface'',
        ''remove Setup:/Network/Service/'' @ kServiceId,
        ''close''])) s))"

definition at_net_remove_service :: "'w net_env \<Rightarrow> 'w net \<Rightarrow> int \<times> 'w net" where
  "at_net_remove_service v s =
     (let s = snd (run_cmd v [NETWORKSETUP, ''-removenetworkservice'', kServiceName] s) in
      (0, snd (run_cmd_stdin v SCUTIL (Some (strlcpy 512 (script
       [''open'',
        ''remove Setup:/Network/Service/'' @ kServiceId @ ''/IPv4'',
        ''remove Setup:/Network/Service/'' @ kServiceId @ ''/Interface'',
        ''remove Setup:/Network/Service/'' @ kServiceId,
        ''close'']))) s)))"

definition register_via_scutil :: "'w net_env \<Rightarrow> string \<Rightarrow> 'w net \<Rightarrow> int \<times> 'w net" where
  "register_via_scutil v ifname s =
     (let (rc, s) = run_cmd_stdin v SCUTIL (Some (strlcpy 2048 (script
       [''open'',
        ''d.init'',
        ''d.add UserDefinedName '' @ quoted kServiceName,
        ''set Setup:/Network/Service/'' @ kServiceId,
        ''d.init'',
        ''d.add Type IPSec'',
        ''d.add Hardware Hardware'',
        ''d.add DeviceName '' @ ifname,
        ''d.add UserDefinedName '' @ quoted kServiceName,
        ''set Setup:/Network/Service/'' @ kServiceId @ ''/Interface'',
        ''d.init'',
        ''d.add ConfigMethod Manual'',
        ''set Setup:/Network/Service/'' @ kServiceId @ ''/IPv4'',
        ''close'']))) s
      in (if rc \<noteq> 0 then -1 else 0, s))"

definition at_net_register_service :: "'w net_env \<Rightarrow> string option \<Rightarrow> 'w net \<Rightarrow> int \<times> 'w net" where
  "at_net_register_service v ifname s =
     (case ifname of None \<Rightarrow> (-1, s)
      | Some ifname \<Rightarrow>
          let s = snd (run_cmd v [NETWORKSETUP, ''-detectnewhardware''] s);
              (rc, out, s) = capture_cmd_merged v [NETWORKSETUP, ''-createnetworkservice'', kServiceName, ifname] 512 s;
              s = (if rc \<noteq> 0 then snd (register_via_scutil v ifname s) else s)
          in (0, snd (run_cmd v [NETWORKSETUP, ''-setmanual'', kServiceName, ''0.0.0.0'', ''255.255.255.255'', ''0.0.0.0''] s)))"

section \<open>Snapshot and restoration\<close>

definition remove_backup_keys :: "'w net_env \<Rightarrow> 'w net \<Rightarrow> 'w net" where
  "remove_backup_keys v s =
     (let s = scutil_remove_key v kBackupIPv4 s;
          s = scutil_remove_key v kBackupDNS s;
          s = scutil_remove_key v kBackupRoute s;
          s = scutil_remove_key v kBackupWifi s;
          s = scutil_remove_key v kBackupValid s;
          s = scutil_remove_key v ''State:/Network/MacOSWiredTethering/Backup'' s
      in scutil_remove_key v ''State:/Network/MacOSWiredTethering'' s)"

text \<open>One global key: copied back from its backup, or removed when there was none before the session.\<close>

definition restore_global :: "'w net_env \<Rightarrow> bool \<Rightarrow> string \<Rightarrow> string \<Rightarrow> 'w net \<Rightarrow> 'w net" where
  "restore_global v had backup key s =
     (if had then snd (scutil_copy_key v backup key s) else scutil_remove_key v key s)"

definition restore_routes :: "'w net_env \<Rightarrow> 'w net \<Rightarrow> 'w net" where
  "restore_routes v s =
     (let (rc, route, s) = scutil_show v kBackupRoute 2048 s in
      if rc = 0 then
        let kind = field route ''Kind'' 32; gw = field route ''Gateway'' 64; iface = field route ''Interface'' 32;
            s = snd (restore_default_route v (if kind \<noteq> '''' then kind else ''none'', gw, iface) s);
            kind6 = field route ''Kind6'' 32; gw6 = field route ''Gateway6'' 128; if6 = field route ''Interface6'' 32
        in snd (restore_default_route6 v (if kind6 \<noteq> '''' then kind6 else ''none'', gw6, if6) s)
      else snd (restore_default_route v (''none'', '''', '''') s))"

definition restore_from_backup :: "'w net_env \<Rightarrow> bool \<Rightarrow> 'w net \<Rightarrow> int \<times> 'w net" where
  "restore_from_backup v remove_backup s =
     (let s = restore_wifi_from_backup v s;
          s = (if n_we_off s
               then snd (restore_wifi_device v (if n_wifi_dev s \<noteq> '''' then Some (n_wifi_dev s) else None) s) else s);
          (rc, valid, s) = scutil_show v kBackupValid 2048 s
      in if rc \<noteq> 0 then (0, if remove_backup then remove_backup_keys v s else s) else
         let s = restore_global v (field valid ''HasIPv4'' 32 = ''true'') kBackupIPv4 kGlobalIPv4 s;
             s = restore_global v (field valid ''HasDNS'' 32 = ''true'') kBackupDNS kGlobalDNS s;
             s = restore_routes v s
         in (0, if remove_backup then remove_backup_keys v s else s))"

text \<open>The text that records a snapshot.\<close>

definition or_none :: "string \<Rightarrow> string" where
  "or_none s = (if s \<noteq> '''' then s else ''none'')"

definition snapshot_lines :: "route \<Rightarrow> route \<Rightarrow> string \<Rightarrow> bool \<Rightarrow> bool \<Rightarrow> bool \<Rightarrow> string list" where
  "snapshot_lines r4 r6 wdev wifi_on has_v4 has_dns =
     (case r4 of (kind, gw, iface) \<Rightarrow> case r6 of (kind6, gw6, if6) \<Rightarrow>
       [''open'',
        ''d.init'',
        ''d.add Kind '' @ kind,
        ''d.add Gateway '' @ quoted gw,
        ''d.add Interface '' @ or_none iface,
        ''d.add Kind6 '' @ kind6,
        ''d.add Gateway6 '' @ quoted gw6,
        ''d.add Interface6 '' @ or_none if6,
        ''d.add WifiDev '' @ quoted (or_none wdev),
        ''d.add WifiWasOn '' @ quoted (bool_text wifi_on),
        ''set '' @ kBackupRoute,
        ''d.init'',
        ''d.add HasIPv4 '' @ bool_text has_v4,
        ''d.add HasDNS '' @ bool_text has_dns,
        ''d.add Ready true'',
        ''set '' @ kBackupValid,
        ''close''])"

definition snapshot_script :: "route \<Rightarrow> route \<Rightarrow> string \<Rightarrow> bool \<Rightarrow> bool \<Rightarrow> bool \<Rightarrow> string" where
  "snapshot_script r4 r6 wdev wifi_on has_v4 has_dns = strlcpy 2048 (script (snapshot_lines r4 r6 wdev wifi_on has_v4 has_dns))"

definition take_snapshot_to_backup :: "'w net_env \<Rightarrow> 'w net \<Rightarrow> int \<times> 'w net" where
  "take_snapshot_to_backup v s =
     (let (has_v4, s) = scutil_key_exists v kGlobalIPv4 s;
          (has_dns, s) = scutil_key_exists v kGlobalDNS s;
          s = (if has_v4 then snd (scutil_copy_key v kGlobalIPv4 kBackupIPv4 s) else s);
          s = (if has_dns then snd (scutil_copy_key v kGlobalDNS kBackupDNS s) else s);
          (r4, s) = snapshot_default_route v s;
          (r6, s) = snapshot_default_route6 v s;
          (wdev, wifi_on, s) = snapshot_wifi v '''' 32 s;
          (rc, s) = scutil_run v (snapshot_script r4 r6 wdev wifi_on has_v4 has_dns) s
      in (if rc \<noteq> 0 then -1 else 0, s))"

section \<open>The session\<close>

definition iface_is_virtual_tether :: "string option \<Rightarrow> bool" where
  "iface_is_virtual_tether iface =
     (case iface of None \<Rightarrow> False | Some i \<Rightarrow> starts_with i ''utun'' \<or> starts_with i ''feth'')"

definition destroy_stale_feth :: "'w net_env \<Rightarrow> 'w net \<Rightarrow> 'w net" where
  "destroy_stale_feth v s =
     (let (rc, out, s) = capture_cmd v [IFCONFIG, ''-l''] 8192 s in
      if rc \<noteq> 0 then s else
      let toks = strtok (\<lambda>c. c = CHR '' '' \<or> c = TAB \<or> c = NL) (strlcpy 8192 (the out)) in
      fold (\<lambda>tok s. if \<not> starts_with tok ''feth'' then s else snd (run_cmd v [IFCONFIG, tok, ''destroy''] s)) toks s)"

definition at_net_begin_session :: "'w net_env \<Rightarrow> 'w net \<Rightarrow> int \<times> 'w net" where
  "at_net_begin_session v s =
     (if n_session_open s then (0, s) else
      let s = destroy_stale_feth v s;
          ((live_kind, live_gw, live_if), s) = snapshot_default_route v s;
          live_ok = (live_kind \<noteq> ''none'' \<and> \<not> iface_is_virtual_tether (Some live_if));
          (stale, s) = scutil_key_exists v kBackupValid s;
          s = (if \<not> stale then s
               else if live_ok then remove_backup_keys v s
               else let s = snd (restore_from_backup v True s);
                        s = snd (at_net_unpublish_path v s)
                    in snd (at_net_remove_service v s));
          (rc, s) = take_snapshot_to_backup v s
      in if rc \<noteq> 0 then (-1, s) else (0, s\<lparr>n_session_open := True\<rparr>))"

text \<open>The condition \<open>had\<close>; the keys are only looked up when the flags do not decide.\<close>

definition had_session :: "'w net_env \<Rightarrow> 'w net \<Rightarrow> bool \<times> 'w net" where
  "had_session v s =
     (if n_session_open s \<or> n_we_off s then (True, s) else
      let (ex, s) = scutil_key_exists v kBackupValid s in
      if ex then (True, s) else scutil_key_exists v kBackupWifi s)"

definition at_net_end_session :: "'w net_env \<Rightarrow> 'w net \<Rightarrow> int \<times> 'w net" where
  "at_net_end_session v s =
     (let (had, s) = had_session v s in
      if \<not> had then
        let s = (if wifi_marker_present v s then snd (restore_wifi_device v None s) else s);
            s = snd (at_net_unpublish_path v s)
        in (0, snd (at_net_remove_service v s))
      else
        let s = snd (restore_from_backup v True s);
            s = (if n_we_off s
                 then snd (restore_wifi_device v (if n_wifi_dev s \<noteq> '''' then Some (n_wifi_dev s) else None) s) else s);
            s = snd (at_net_unpublish_path v s);
            s = snd (at_net_remove_service v s)
        in (0, s\<lparr>n_session_open := False\<rparr>))"

section \<open>The lease\<close>

text \<open>The gateway, or the address itself when there is none.\<close>

definition lease_gw :: "at_net_info \<Rightarrow> string" where
  "lease_gw l = (if ni_gateway l \<noteq> '''' then ni_gateway l else ni_ip l)"

definition dns_words :: "at_net_info \<Rightarrow> string \<Rightarrow> string list" where
  "dns_words lease gw =
     (let ws = (if ni_dns lease \<noteq> '''' then scan_words2 (ni_dns lease) else []);
          dns1 = (case ws of [] \<Rightarrow> '''' | a # _ \<Rightarrow> a);
          dns2 = (case ws of a # b # _ \<Rightarrow> b | _ \<Rightarrow> '''');
          dns1 = (if dns1 = '''' then strlcpy 64 gw else dns1)
      in if dns2 \<noteq> '''' then [dns1, dns2] else [dns1])"

definition dns_line :: "at_net_info \<Rightarrow> string \<Rightarrow> string" where
  "dns_line lease gw =
     (case dns_words lease gw of [a, b] \<Rightarrow> strlcpy 160 (a @ '' '' @ b) | ws \<Rightarrow> strlcpy 160 (concat ws))"

text \<open>The lines of the service, and the ones that also take the global keys.\<close>

definition service_lines :: "string \<Rightarrow> string \<Rightarrow> string \<Rightarrow> string \<Rightarrow> string list" where
  "service_lines ip gw ifname dns =
     [''open'',
      ''d.init'',
      ''d.add Addresses * '' @ ip,
      ''d.add Destinations * '' @ gw,
      ''d.add InterfaceName '' @ ifname,
      ''d.add Router '' @ gw,
      ''set State:/Network/Service/'' @ kServiceId @ ''/IPv4'',
      ''d.init'',
      ''d.add DeviceName '' @ ifname,
      ''d.add Type IPSec'',
      ''set State:/Network/Service/'' @ kServiceId @ ''/Interface'',
      ''d.init'',
      ''d.add ServerAddresses * '' @ dns,
      ''set State:/Network/Service/'' @ kServiceId @ ''/DNS'']"

definition primary_lines :: "string \<Rightarrow> string \<Rightarrow> string \<Rightarrow> string list" where
  "primary_lines gw ifname dns =
     [''d.init'',
      ''d.add PrimaryInterface '' @ ifname,
      ''d.add PrimaryService '' @ kServiceId,
      ''d.add Router '' @ gw,
      ''set State:/Network/Global/IPv4'',
      ''d.init'',
      ''d.add ServerAddresses * '' @ dns,
      ''set State:/Network/Global/DNS'']"

definition at_net_publish_path :: "'w net_env \<Rightarrow> string option \<Rightarrow> at_net_info option \<Rightarrow> bool \<Rightarrow> 'w net \<Rightarrow> int \<times> 'w net" where
  "at_net_publish_path v ifname lease as_primary s =
     (if ifname = None \<or> lease = None then (-1, s) else
      if \<not> at_ifname_ok ifname \<or> \<not> at_lease_addrs_ok lease then (-1, s) else
      let as_primary = (if as_primary \<and> \<not> n_session_open s then False else as_primary);
          name = the ifname; l = the lease;
          gw = lease_gw l;
          dns = dns_line l gw;
          scr = strlcpy 4096 (script
            (if as_primary then service_lines (ni_ip l) gw name dns @ primary_lines gw name dns @ [''close'']
             else service_lines (ni_ip l) gw name dns @ [''close'']));
          (rc, s) = scutil_run v scr s
      in (if rc \<noteq> 0 then -1 else 0, s))"

definition at_net_apply_lease :: "'w net_env \<Rightarrow> string option \<Rightarrow> at_net_info option \<Rightarrow> bool \<Rightarrow> 'w net \<Rightarrow> int \<times> 'w net" where
  "at_net_apply_lease v ifname lease as_primary s =
     (if ifname = None \<or> lease = None \<or> ni_ip (the lease) = '''' then (-1, s) else
      if \<not> at_ifname_ok ifname \<or> \<not> at_lease_addrs_ok lease then (-1, s) else
      let name = the ifname; l = the lease;
          mask = (if ni_netmask l \<noteq> '''' then ni_netmask l else ''255.255.255.0'');
          peer = lease_gw l;
          (rc, s) = run_cmd v [IFCONFIG, name, ''inet'', ni_ip l, peer, ''netmask'', ''255.255.255.255'', ''up''] s;
          (rc, s) = (if rc \<noteq> 0 then run_cmd v [IFCONFIG, name, ''inet'', ni_ip l, ''netmask'', mask, ''up''] s else (rc, s))
      in if rc \<noteq> 0 then (-1, s) else
         let s = snd (run_cmd v [IFCONFIG, name, ''mtu'', ''1500''] s)
         in (0, snd (at_net_publish_path v ifname lease as_primary s)))"

definition at_net_drop_ipv6_default :: "'w net_env \<Rightarrow> 'w net \<Rightarrow> int \<times> 'w net" where
  "at_net_drop_ipv6_default v s =
     (let argv = [ROUTE, ''-n'', ''delete'', ''-inet6'', ''default'']; c = Run argv None Dropped in
      if \<not> nv_spawn v argv (n_world s) then (1, s) else
      (if exited_ok (nv_wait v c (n_world s)) then 0 else 1, act v c s))"

definition at_net_prefer_default_route :: "'w net_env \<Rightarrow> string option \<Rightarrow> string option \<Rightarrow> 'w net \<Rightarrow> int \<times> 'w net" where
  "at_net_prefer_default_route v ifname gateway s =
     (if ifname = None \<or> \<not> nonempty gateway then (-1, s) else
      if \<not> at_ifname_ok ifname \<or> \<not> at_ipv4_dotted_ok gateway then (-1, s) else
      if \<not> n_session_open s then (-1, s) else
      let s = snd (run_cmd v [ROUTE, ''-n'', ''delete'', ''default''] s);
          (rc, s) = run_cmd v [ROUTE, ''-n'', ''add'', ''default'', ''-interface'', the ifname] s;
          (rc, s) = (if rc \<noteq> 0 then run_cmd v [ROUTE, ''-n'', ''add'', ''default'', the gateway] s else (rc, s))
      in if rc \<noteq> 0 then (-1, s) else (0, snd (at_net_drop_ipv6_default v s)))"

definition at_net_clear_dhcp :: "'w net_env \<Rightarrow> string option \<Rightarrow> 'w net \<Rightarrow> int \<times> 'w net" where
  "at_net_clear_dhcp v ifname s =
     (let s = snd (at_net_end_session v s);
          s = (case ifname of None \<Rightarrow> s
               | Some name \<Rightarrow> snd (run_cmd v [IFCONFIG, name, ''down''] (snd (run_cmd v [IFCONFIG, name, ''inet'', ''-alias''] s))));
          s = snd (at_net_unpublish_path v s)
      in (0, snd (at_net_remove_service v s)))"

section \<open>What is published\<close>

text \<open>The commands \<open>scutil\<close> is meant to carry out, word by word.\<close>

definition service_commands :: "string \<Rightarrow> string \<Rightarrow> string \<Rightarrow> string list \<Rightarrow> string list list" where
  "service_commands ip gw ifname dns =
     [[''open''], [''d.init''],
      [''d.add'', ''Addresses'', ''*'', ip], [''d.add'', ''Destinations'', ''*'', gw],
      [''d.add'', ''InterfaceName'', ifname], [''d.add'', ''Router'', gw],
      [''set'', ''State:/Network/Service/MacOSWiredTetheringUSB/IPv4''], [''d.init''],
      [''d.add'', ''DeviceName'', ifname], [''d.add'', ''Type'', ''IPSec''],
      [''set'', ''State:/Network/Service/MacOSWiredTetheringUSB/Interface''], [''d.init''],
      [''d.add'', ''ServerAddresses'', ''*''] @ dns,
      [''set'', ''State:/Network/Service/MacOSWiredTetheringUSB/DNS'']]"

definition global_commands :: "string \<Rightarrow> string \<Rightarrow> string list \<Rightarrow> string list list" where
  "global_commands gw ifname dns =
     [[''d.init''], [''d.add'', ''PrimaryInterface'', ifname], [''d.add'', ''PrimaryService'', ''MacOSWiredTetheringUSB''],
      [''d.add'', ''Router'', gw], [''set'', ''State:/Network/Global/IPv4''], [''d.init''],
      [''d.add'', ''ServerAddresses'', ''*''] @ dns, [''set'', ''State:/Network/Global/DNS'']]"

lemma dns_words_ok:
  assumes "at_lease_addrs_ok (Some l)" "at_ipv4_dotted_ok (Some gw)"
  shows "(\<exists>a. dns_words l gw = [a] \<and> at_ipv4_dotted_ok (Some a)) \<or>
    (\<exists>a b. dns_words l gw = [a, b] \<and> at_ipv4_dotted_ok (Some a) \<and> at_ipv4_dotted_ok (Some b))"
proof -
  have gw: "strlcpy 64 gw = gw" using safe_chars [OF dotted_ok_safe [OF assms(2)]] by (simp add: strlcpy_def)
  have ne: "at_ipv4_dotted_ok (Some w) \<Longrightarrow> w \<noteq> ''''" for w by (auto dest: dotted_ok_safe simp: safe_text_def)
  show ?thesis
  proof (cases "ni_dns l = ''''")
    case True
    then show ?thesis using assms(2) gw by (simp add: dns_words_def Let_def)
  next
    case False
    consider a where "scan_words2 (ni_dns l) = [a]" "at_ipv4_dotted_ok (Some a)"
      | a b where "scan_words2 (ni_dns l) = [a, b]" "at_ipv4_dotted_ok (Some a)" "at_ipv4_dotted_ok (Some b)"
      using assms(1) False
      by (auto simp: at_lease_addrs_ok_def scan_words2_def split: option.splits)
    then show ?thesis by cases (use False ne in \<open>auto simp: dns_words_def Let_def\<close>)
  qed
qed

lemma dns_line_ok:
  assumes "at_lease_addrs_ok (Some l)" "at_ipv4_dotted_ok (Some gw)"
  shows "strtok_loop blank [] (dns_line l gw) = dns_words l gw" "length (dns_line l gw) \<le> 31"
    "list_all (\<lambda>c. c \<noteq> NL) (dns_line l gw)"
proof -
  note safe = dotted_ok_safe [THEN safe_chars]
  consider a where "dns_words l gw = [a]" "at_ipv4_dotted_ok (Some a)"
    | a b where "dns_words l gw = [a, b]" "at_ipv4_dotted_ok (Some a)" "at_ipv4_dotted_ok (Some b)"
    using dns_words_ok [OF assms] by blast
  then have "strtok_loop blank [] (dns_line l gw) = dns_words l gw \<and> length (dns_line l gw) \<le> 31 \<and>
      list_all (\<lambda>c. c \<noteq> NL) (dns_line l gw)"
  proof cases
    case (1 a)
    then have "dns_line l gw = a" using safe [of a] by (simp add: dns_line_def strlcpy_short)
    then show ?thesis using 1 safe [of a] dotted_ok_safe [of a] by simp
  next
    case (2 a b)
    then have "dns_line l gw = a @ CHR '' '' # b" using safe [of a] safe [of b] by (simp add: dns_line_def strlcpy_short)
    then show ?thesis using 2 safe [of a] safe [of b] dotted_ok_safe [of a] dotted_ok_safe [of b] by simp
  qed
  then show "strtok_loop blank [] (dns_line l gw) = dns_words l gw" "length (dns_line l gw) \<le> 31"
    "list_all (\<lambda>c. c \<noteq> NL) (dns_line l gw)" by blast+
qed

lemma blanks [simp]: "blank CHR '' ''" "blank TAB" by (simp_all add: blank_def)

lemma service_lines_ok:
  assumes "safe_text ip" "safe_text gw" "safe_text name" "length dns \<le> 31" "list_all (\<lambda>c. c \<noteq> NL) dns"
  shows "list_all line_ok (service_lines ip gw name dns)" "list_all line_ok (primary_lines gw name dns)"
    "length (script (service_lines ip gw name dns @ primary_lines gw name dns @ [''close''])) < 4096"
  using assms safe_chars [of ip] safe_chars [of gw] safe_chars [of name]
  by (simp_all add: service_lines_def primary_lines_def line_ok_def kServiceId_def)

lemma service_lines_commands:
  assumes "safe_text ip" "safe_text gw" "safe_text name" "strtok_loop blank [] dns = ws"
  shows "map (strtok blank) (service_lines ip gw name dns) = service_commands ip gw name ws"
    "map (strtok blank) (primary_lines gw name dns) = global_commands gw name ws"
  using assms by (simp_all add: service_lines_def primary_lines_def service_commands_def global_commands_def kServiceId_def
      strtok_def blank_def)

lemma lease_gateway:
  assumes "at_lease_addrs_ok (Some l)"
  shows "at_ipv4_dotted_ok (Some (ni_ip l))"
    "at_ipv4_dotted_ok (Some (lease_gw l))"
  using assms by (auto simp: at_lease_addrs_ok_def lease_gw_def)

text \<open>
  C6: what is published is exactly what is meant. For a checked interface name and a lease that passes the
  check, \<open>scutil\<close> is started once, on a script that was not cut off and whose words, line by line, are the
  intended commands with the address, the gateway, the interface and the one or two name servers of the
  lease in their places: no text of the phone can add a command or a word. The global keys are only set in
  a session that has a snapshot to return to. If the name or the lease fails the check, nothing is run.
\<close>

theorem publish_exact:
  "if at_ifname_ok (Some name) \<and> at_lease_addrs_ok (Some l)
    then length (dns_words l (lease_gw l)) \<in> {1, 2} \<and>
      (\<exists>scr. commands scr = service_commands (ni_ip l) (lease_gw l) name (dns_words l (lease_gw l)) @
         (if prim \<and> n_session_open s then global_commands (lease_gw l) name (dns_words l (lease_gw l)) else []) @ [[''close'']] \<and>
       at_net_publish_path v (Some name) (Some l) prim s =
         (case scutil_run v scr s of (rc, s') \<Rightarrow> (if rc = 0 then 0 else -1, s')))
    else at_net_publish_path v (Some name) (Some l) prim s = (-1, s)"
proof (cases "at_ifname_ok (Some name) \<and> at_lease_addrs_ok (Some l)")
  case True
  let ?gw = "lease_gw l"
  have safe: "safe_text (ni_ip l)" "safe_text ?gw" "safe_text name" and gw: "at_ipv4_dotted_ok (Some ?gw)"
    using True lease_gateway [of l] dotted_ok_safe ifname_ok_safe by auto
  note dns = dns_line_ok [OF conjunct2 [OF True] gw]
  note ok = service_lines_ok [OF safe dns(2,3)] and cm = service_lines_commands [OF safe dns(1)]
  define ls where "ls = service_lines (ni_ip l) ?gw name (dns_line l ?gw) @
    (if prim \<and> n_session_open s then primary_lines ?gw name (dns_line l ?gw) else []) @ [''close'']"
  have "list_all line_ok ls" using ok(1,2) by (simp add: ls_def line_ok_def)
  then have "commands (script ls) = map (strtok blank) ls" by (rule commands_of_script)
  then have c: "commands (script ls) = service_commands (ni_ip l) ?gw name (dns_words l ?gw) @
      (if prim \<and> n_session_open s then global_commands ?gw name (dns_words l ?gw) else []) @ [[''close'']]"
    using cm unfolding ls_def by (simp add: strtok_def blank_def del: script_simps)
  have p: "(if prim \<and> \<not> n_session_open s then False else prim) = (prim \<and> n_session_open s)" by auto
  have q: "(if prim \<and> n_session_open s
      then service_lines (ni_ip l) ?gw name (dns_line l ?gw) @ primary_lines ?gw name (dns_line l ?gw) @ [''close'']
      else service_lines (ni_ip l) ?gw name (dns_line l ?gw) @ [''close'']) = ls" by (simp add: ls_def)
  have "length (script ls) < 4096" using ok(3) by (simp add: ls_def)
  then have "at_net_publish_path v (Some name) (Some l) prim s =
      (case scutil_run v (script ls) s of (rc, s') \<Rightarrow> (if rc = 0 then 0 else -1, s'))"
    using True unfolding at_net_publish_path_def Let_def option.sel p q by (simp add: strlcpy_short split_def)
  then show ?thesis using True c dns_words_ok [OF conjunct2 [OF True] gw] by auto
next
  case False
  then show ?thesis by (auto simp: at_net_publish_path_def)
qed

section \<open>The way back of the default routes\<close>

text \<open>The dictionaries that a script stores, following the description of the script language of \<open>scutil\<close>.\<close>

definition unquoted :: "string \<Rightarrow> string" where
  "unquoted w = filter (\<lambda>c. c \<noteq> CHR 0x22) w"

fun scutil_sets :: "string list list \<Rightarrow> (string \<times> string) list \<Rightarrow> (string \<times> (string \<times> string) list) list" where
  "scutil_sets [] d = []"
| "scutil_sets (c # cs) d =
     (if c = [''d.init''] then scutil_sets cs []
      else if length c = 3 \<and> c ! 0 = ''d.add'' then scutil_sets cs (d @ [(c ! 1, unquoted (c ! 2))])
      else if length c = 2 \<and> c ! 0 = ''set'' then (c ! 1, d) # scutil_sets cs d
      else scutil_sets cs d)"

text \<open>An address or an interface name, as the tools print them with \<open>-n\<close>.\<close>

definition plain_word :: "nat \<Rightarrow> string \<Rightarrow> bool" where
  "plain_word n w \<longleftrightarrow> length w < n \<and> list_all (\<lambda>c. isalnum c \<or> c = CHR ''.'' \<or> c = CHR '':'' \<or> c = CHR ''%'') w \<and>
     (w \<noteq> '''' \<longrightarrow> hd w \<noteq> CHR '':'') \<and>
     (\<forall>label \<in> {''Kind'', ''Gateway'', ''Interface''}. \<not> strncaseeq (length label) w label)"

definition route_ok :: "string \<Rightarrow> nat \<Rightarrow> route \<Rightarrow> bool" where
  "route_ok fam n r \<longleftrightarrow> (case r of (kind, gw, iface) \<Rightarrow> plain_word n gw \<and> plain_word 32 iface \<and>
     (kind = ''none'' \<or> kind = fam \<and> gw \<noteq> '''' \<or> kind = ''iface'' \<and> iface \<noteq> ''''))"

definition route_adds :: "string \<Rightarrow> string list \<Rightarrow> route \<Rightarrow> string list list" where
  "route_adds fam opt r = (case r of (kind, gw, iface) \<Rightarrow>
     if kind = fam then [[ROUTE, ''-n'', ''add''] @ opt @ [''default'', gw]]
     else if kind = ''iface'' then [[ROUTE, ''-n'', ''add''] @ opt @ [''default'', ''-interface'', iface]] else [])"

definition route_fields :: "route \<Rightarrow> route \<Rightarrow> string \<Rightarrow> bool \<Rightarrow> (string \<times> string) list" where
  "route_fields r4 r6 wdev on = (case r4 of (kind, gw, iface) \<Rightarrow> case r6 of (kind6, gw6, if6) \<Rightarrow>
     [(''Kind'', kind), (''Gateway'', gw), (''Interface'', or_none iface),
      (''Kind6'', kind6), (''Gateway6'', gw6), (''Interface6'', or_none if6),
      (''WifiDev'', or_none wdev), (''WifiWasOn'', bool_text on)])"

lemma plain_char:
  assumes "isalnum c \<or> c = CHR ''.'' \<or> c = CHR '':'' \<or> c = CHR ''%''"
  shows "\<not> blank c" "c \<noteq> NL" "c \<noteq> CHR 0x22" "\<not> at_start (Some c)" "c \<noteq> CHR ''}''"
  using assms not_alnum by (auto simp: blank_def at_start_def)

lemma plain_chars:
  assumes "plain_word n w"
  shows "list_all (\<lambda>c. \<not> blank c) w" "list_all (\<lambda>c. c \<noteq> NL) w" "unquoted w = w" "length w < n"
    "list_all (\<lambda>c. \<not> at_start (Some c) \<and> c \<noteq> CHR 0x22) w" "list_all (\<lambda>c. c \<noteq> CHR ''}'') w"
proof -
  have c: "\<forall>c\<in>set w. isalnum c \<or> c = CHR ''.'' \<or> c = CHR '':'' \<or> c = CHR ''%''"
    using assms by (auto simp: plain_word_def list_all_iff)
  show "list_all (\<lambda>c. \<not> blank c) w" "list_all (\<lambda>c. c \<noteq> NL) w" "unquoted w = w" "length w < n"
    "list_all (\<lambda>c. \<not> at_start (Some c) \<and> c \<noteq> CHR 0x22) w" "list_all (\<lambda>c. c \<noteq> CHR ''}'') w"
    using c plain_char assms by (fastforce simp: list_all_iff unquoted_def filter_id_conv plain_word_def)+
qed

lemma strncaseeq_prefix: "strncaseeq (length (t @ u)) s (t @ u) \<Longrightarrow> strncaseeq (length t) s t"
  unfolding strncaseeq_take by (metis append_eq_conv_conj length_map map_append take_map take_take min.absorb1 le_add1 length_append)

lemma plain_word_ok:
  assumes "plain_word n w" "l \<in> {''Kind'', ''Gateway'', ''Interface''}" "label = l \<or> label = l @ ''6''"
  shows "word_ok label w"
proof -
  have "\<not> strncaseeq (length l) w l" using assms(1,2) unfolding plain_word_def by blast
  then have "\<not> strncaseeq (length label) w label" using assms(3) strncaseeq_prefix [of l "''6''" w] by blast
  moreover have "w \<noteq> [] \<Longrightarrow> last w \<noteq> CHR ''}''"
    using plain_chars(6) [OF assms(1)] last_in_set [of w] by (auto simp: list_all_iff)
  moreover have "w \<noteq> [] \<Longrightarrow> hd w \<noteq> CHR '':''" using assms(1) unfolding plain_word_def by blast
  ultimately show ?thesis using plain_chars(5) [OF assms(1)]
    by (cases w) (simp_all add: word_ok_def)
qed

lemma literal_word_ok:
  assumes "v \<in> {''none'', ''ipv4'', ''ipv6'', ''iface'', ''true'', ''false''}"
  shows "plain_word 32 v"
  using assms by (auto simp: plain_word_def isalnum_def isalpha_def isdigit_def tolower_def)

lemma or_none_ok: "plain_word 32 w \<Longrightarrow> plain_word 32 (or_none w)"
  using literal_word_ok [of "''none''"] by (simp add: or_none_def)

lemma plain_mono: "plain_word m w \<Longrightarrow> m \<le> n \<Longrightarrow> plain_word n w"
  by (simp add: plain_word_def)

lemma plain_tok: "plain_word n w \<Longrightarrow> w \<noteq> '''' \<Longrightarrow> strtok_loop blank [] w = [w]"
  using strtok_word [of blank w "[]"] plain_chars(1) by simp

lemma quoted_tok: "plain_word n w \<Longrightarrow> strtok_loop blank [] (quoted w) = [quoted w]"
  using strtok_word [of blank "quoted w" "[]"] plain_chars(1) by (simp add: quoted_def blank_def)

lemma unquoted_quoted: "plain_word n w \<Longrightarrow> unquoted (quoted w) = w"
  using plain_chars(3) by (simp add: unquoted_def quoted_def)

lemma quoted_line: "plain_word n w \<Longrightarrow> list_all (\<lambda>c. c \<noteq> NL) (quoted w) \<and> length (quoted w) \<le> n + 1"
  using plain_chars(2,4) by (fastforce simp: quoted_def)

lemma kind_ok: "route_ok fam n (kind, gw, iface) \<Longrightarrow> fam \<in> {''ipv4'', ''ipv6''} \<Longrightarrow>
    plain_word 32 kind \<and> kind \<noteq> '''' \<and> length kind \<le> 5"
  using literal_word_ok [of kind] by (auto simp: route_ok_def)

lemma bool_text_ok: "plain_word 32 (bool_text b)" "bool_text b \<noteq> ''''" "length (bool_text b) \<le> 5"
  using literal_word_ok [of "bool_text b"] by (simp_all add: bool_text_def)

lemma snapshot_stored:
  assumes "route_ok ''ipv4'' 64 r4" "route_ok ''ipv6'' 128 r6" "plain_word 32 wdev"
  shows "map_of (scutil_sets (commands (snapshot_script r4 r6 wdev on has_v4 has_dns)) []) kBackupRoute =
    Some (route_fields r4 r6 wdev on)"
proof -
  obtain kind gw iface kind6 gw6 if6 where r: "r4 = (kind, gw, iface)" "r6 = (kind6, gw6, if6)" by (metis prod_cases3)
  have "plain_word 32 iface" "plain_word 32 if6" using assms(1,2) unfolding r route_ok_def by blast+
  then have w: "plain_word 32 kind" "kind \<noteq> ''''" "plain_word 32 kind6" "kind6 \<noteq> ''''"
    "plain_word 64 gw" "plain_word 128 gw6" "plain_word 32 (or_none iface)" "plain_word 32 (or_none if6)"
    "plain_word 32 (or_none wdev)"
    using kind_ok [of "''ipv4''" 64 kind gw iface] kind_ok [of "''ipv6''" 128 kind6 gw6 if6] assms
    unfolding r route_ok_def by (blast intro: or_none_ok)+
  have ne: "or_none v \<noteq> ''''" for v by (simp add: or_none_def)
  let ?ls = "snapshot_lines r4 r6 wdev on has_v4 has_dns"
  note q = quoted_line [OF w(5)] quoted_line [OF w(6)] quoted_line [OF w(9)] quoted_line [OF bool_text_ok(1), of on]
  note p = plain_chars(2,4) [OF w(1)] plain_chars(2,4) [OF w(3)] plain_chars(2,4) [OF w(7)] plain_chars(2,4) [OF w(8)]
    plain_chars(2) [OF bool_text_ok(1)] bool_text_ok(3) [of has_v4] bool_text_ok(3) [of has_dns]
  have ok: "list_all line_ok ?ls" using p q by (simp add: snapshot_lines_def r line_ok_def kBackupRoute_def kBackupValid_def)
  have "length (script ?ls) < 2048" using p q by (simp add: snapshot_lines_def r kBackupRoute_def kBackupValid_def)
  then have "snapshot_script r4 r6 wdev on has_v4 has_dns = script ?ls"
    by (simp add: snapshot_script_def strlcpy_short)
  then have "commands (snapshot_script r4 r6 wdev on has_v4 has_dns) = map (strtok blank) ?ls"
    using commands_of_script [OF ok] by simp
  also have "\<dots> = [[''open''], [''d.init''], [''d.add'', ''Kind'', kind], [''d.add'', ''Gateway'', quoted gw],
      [''d.add'', ''Interface'', or_none iface], [''d.add'', ''Kind6'', kind6], [''d.add'', ''Gateway6'', quoted gw6],
      [''d.add'', ''Interface6'', or_none if6], [''d.add'', ''WifiDev'', quoted (or_none wdev)],
      [''d.add'', ''WifiWasOn'', quoted (bool_text on)], [''set'', kBackupRoute], [''d.init''],
      [''d.add'', ''HasIPv4'', bool_text has_v4], [''d.add'', ''HasDNS'', bool_text has_dns], [''d.add'', ''Ready'', ''true''],
      [''set'', kBackupValid], [''close'']]"
    using plain_tok [OF w(1,2)] plain_tok [OF w(3,4)] plain_tok [OF w(7) ne] plain_tok [OF w(8) ne] quoted_tok [OF w(5)]
      quoted_tok [OF w(6)] quoted_tok [OF w(9)] quoted_tok [OF bool_text_ok(1)] plain_tok [OF bool_text_ok(1,2)]
    by (simp add: snapshot_lines_def r strtok_def blank_def kBackupRoute_def kBackupValid_def)
  finally show ?thesis
    using unquoted_quoted [OF w(5)] unquoted_quoted [OF w(6)] unquoted_quoted [OF w(9)] unquoted_quoted [OF bool_text_ok(1)]
      plain_chars(3) [OF w(1)] plain_chars(3) [OF w(3)] plain_chars(3) [OF w(7)] plain_chars(3) [OF w(8)]
    by (simp add: route_fields_def r)
qed

lemma dumped_field:
  assumes "\<forall>(k, v) \<in> set d. key_ok k \<and> plain_word 128 v" "l \<in> {''Kind'', ''Gateway'', ''Interface''}"
    "label = l \<or> label = l @ ''6''" "length (entry_of label d) < n"
  shows "field (Some (scutil_dump d)) label n = entry_of label d"
  unfolding field_def
proof (rule field_of_dump)
  have "\<forall>c\<in>set l. isalnum c" using assms(2) by (auto simp: isalnum_def isalpha_def)
  then show "key_ok label" using assms(2,3) by (auto simp: key_ok_def list_all_iff isalnum_def isdigit_def)
  show "\<forall>(k, v) \<in> set d. key_ok k \<and> word_ok label v" using assms(1) plain_word_ok [OF _ assms(2,3)] by blast
qed (rule assms(4))

lemma route_fields_ok:
  assumes "route_ok ''ipv4'' 64 (kind, gw, iface)" "route_ok ''ipv6'' 128 (kind6, gw6, if6)" "plain_word 32 wdev"
  shows "\<forall>(k, v) \<in> set (route_fields (kind, gw, iface) (kind6, gw6, if6) wdev on). key_ok k \<and> plain_word 128 v"
proof -
  have "plain_word 32 iface" "plain_word 32 if6" using assms(1,2) unfolding route_ok_def by blast+
  then have w: "plain_word 32 kind" "plain_word 32 kind6" "plain_word 64 gw" "plain_word 128 gw6"
    "plain_word 32 (or_none iface)" "plain_word 32 (or_none if6)" "plain_word 32 (or_none wdev)"
    using kind_ok [OF assms(1)] kind_ok [OF assms(2)] assms unfolding route_ok_def by (blast intro: or_none_ok)+
  have k: "key_ok ''Kind''" "key_ok ''Gateway''" "key_ok ''Interface''" "key_ok ''Kind6''" "key_ok ''Gateway6''"
    "key_ok ''Interface6''" "key_ok ''WifiDev''" "key_ok ''WifiWasOn''"
    by (simp_all add: key_ok_def isalnum_def isalpha_def isdigit_def)
  show ?thesis using k w plain_mono [of 32 _ 128] plain_mono [of 64 _ 128] bool_text_ok(1) by (simp add: route_fields_def)
qed

lemma restored_fields:
  assumes "route_ok ''ipv4'' 64 (kind, gw, iface)" "route_ok ''ipv6'' 128 (kind6, gw6, if6)" "plain_word 32 wdev"
    and d: "d = route_fields (kind, gw, iface) (kind6, gw6, if6) wdev on"
  shows "field (Some (scutil_dump d)) ''Kind'' 32 = kind" "field (Some (scutil_dump d)) ''Gateway'' 64 = gw"
    "field (Some (scutil_dump d)) ''Interface'' 32 = or_none iface" "field (Some (scutil_dump d)) ''Kind6'' 32 = kind6"
    "field (Some (scutil_dump d)) ''Gateway6'' 128 = gw6" "field (Some (scutil_dump d)) ''Interface6'' 32 = or_none if6"
proof -
  have e: "entry_of ''Kind'' d = kind" "entry_of ''Gateway'' d = gw" "entry_of ''Interface'' d = or_none iface"
    "entry_of ''Kind6'' d = kind6" "entry_of ''Gateway6'' d = gw6" "entry_of ''Interface6'' d = or_none if6"
    by (simp_all add: d route_fields_def entry_of_def strcaseeq_def tolower_def)
  have w: "plain_word 32 iface" "plain_word 32 if6" "plain_word 64 gw" "plain_word 128 gw6"
    using assms(1,2) unfolding route_ok_def by blast+
  have n: "length kind < 32" "length gw < 64" "length (or_none iface) < 32" "length kind6 < 32" "length gw6 < 128" "length (or_none if6) < 32"
    using kind_ok [OF assms(1)] kind_ok [OF assms(2)] w or_none_ok [THEN plain_chars(4)] plain_chars(4) by auto
  note f = dumped_field [OF route_fields_ok [OF assms(1-3), of on, folded d]]
  show "field (Some (scutil_dump d)) ''Kind'' 32 = kind" "field (Some (scutil_dump d)) ''Gateway'' 64 = gw"
    "field (Some (scutil_dump d)) ''Interface'' 32 = or_none iface" "field (Some (scutil_dump d)) ''Kind6'' 32 = kind6"
    "field (Some (scutil_dump d)) ''Gateway6'' 128 = gw6" "field (Some (scutil_dump d)) ''Interface6'' 32 = or_none if6"
    using f [of "''Kind''" "''Kind''" 32] f [of "''Gateway''" "''Gateway''" 64] f [of "''Interface''" "''Interface''" 32]
      f [of "''Kind''" "''Kind6''" 32] f [of "''Gateway''" "''Gateway6''" 128] f [of "''Interface''" "''Interface6''" 32]
    by (simp_all add: e n)
qed

definition runs :: "string list list \<Rightarrow> net_call list" where
  "runs = map (\<lambda>a. Run a None Shared)"

lemma run_calls: "\<forall>a w. nv_spawn v a w \<Longrightarrow> n_calls (snd (run_cmd v argv s)) = n_calls s @ runs [argv]"
  by (simp add: run_cmd_def runs_def Let_def)

lemma delete_loop6_calls:
  assumes "\<forall>a w. nv_spawn v a w"
  shows "\<exists>k \<le> n. (0 < n \<longrightarrow> 0 < k) \<and>
    n_calls (delete_loop6 v n s) = n_calls s @ runs (replicate k [ROUTE, ''-n'', ''delete'', ''-inet6'', ''default''])"
proof (induction n arbitrary: s)
  case (Suc n)
  let ?a = "[ROUTE, ''-n'', ''delete'', ''-inet6'', ''default'']"
  obtain rc s1 where r: "run_cmd v ?a s = (rc, s1)" by fastforce
  then have c: "n_calls s1 = n_calls s @ runs [?a]" using run_calls [OF assms, of ?a s] by simp
  show ?case
  proof (cases "rc = 0")
    case True
    obtain k where "k \<le> n" "n_calls (delete_loop6 v n s1) = n_calls s1 @ runs (replicate k ?a)" using Suc.IH by blast
    then show ?thesis using r c True by (intro exI [of _ "Suc k"]) (simp add: runs_def)
  next
    case False
    then show ?thesis using r c by (intro exI [of _ 1]) (simp add: runs_def)
  qed
qed (simp add: runs_def)

lemma restore_calls4:
  assumes "\<forall>a w. nv_spawn v a w" "route_ok ''ipv4'' 64 (kind, gw, iface)"
  shows "n_calls (snd (restore_default_route v (kind, gw, or_none iface) s)) =
    n_calls s @ runs ([ROUTE, ''-n'', ''delete'', ''default''] # route_adds ''ipv4'' [] (kind, gw, iface))"
  using assms(2) run_calls [OF assms(1)]
  by (auto simp: restore_default_route_def route_adds_def route_ok_def or_none_def runs_def Let_def split_def)

lemma restore_calls6:
  assumes "\<forall>a w. nv_spawn v a w" "route_ok ''ipv6'' 128 (kind, gw, iface)" "iface \<noteq> ''none''"
  shows "\<exists>k \<in> {1..4}. n_calls (snd (restore_default_route6 v (kind, gw, or_none iface) s)) =
    n_calls s @ runs (replicate k [ROUTE, ''-n'', ''delete'', ''-inet6'', ''default''] @ route_adds ''ipv6'' [''-inet6''] (kind, gw, iface))"
proof -
  obtain k where "k \<le> 4" "0 < k" and k: "n_calls (delete_loop6 v 4 s) =
      n_calls s @ runs (replicate k [ROUTE, ''-n'', ''delete'', ''-inet6'', ''default''])"
    using delete_loop6_calls [OF assms(1), of 4 s] by auto
  moreover have "n_calls (snd (restore_default_route6 v (kind, gw, or_none iface) s)) =
      n_calls (delete_loop6 v 4 s) @ runs (route_adds ''ipv6'' [''-inet6''] (kind, gw, iface))"
    using assms(2,3) run_calls [OF assms(1)]
    by (auto simp: restore_default_route6_def route_adds_def route_ok_def or_none_def runs_def Let_def split_def
        simp del: delete_loop6.simps)
  ultimately show ?thesis by (intro bexI [of _ k]) (simp_all add: runs_def)
qed

text \<open>
  C7: the default routes come back: if \<open>scutil show\<close> prints the dictionary that the snapshot script stored
  (its commands read as \<open>scutil\<close> does), restoring the routes deletes the present ones and adds exactly the
  IPv4 and the IPv6 route of the snapshot, by gateway or by interface as it was, or none if there was none.
  Quoting, the buffer sizes and the keys that are prefixes of each other do not get in the way.
\<close>

theorem routes_come_back:
  assumes "\<forall>a w. nv_spawn v a w" "route_ok ''ipv4'' 64 r4" "route_ok ''ipv6'' 128 r6" "snd (snd r6) \<noteq> ''none''" "plain_word 32 wdev"
    and "map_of (scutil_sets (commands (snapshot_script r4 r6 wdev on has_v4 has_dns)) []) kBackupRoute = Some d"
    and "scutil_show v kBackupRoute 2048 s = (0, Some (scutil_dump d), s1)"
  shows "\<exists>k \<in> {1..4}. n_calls (restore_routes v s) = n_calls s1 @ runs
    ([ROUTE, ''-n'', ''delete'', ''default''] # route_adds ''ipv4'' [] r4 @
     replicate k [ROUTE, ''-n'', ''delete'', ''-inet6'', ''default''] @ route_adds ''ipv6'' [''-inet6''] r6)"
proof -
  obtain kind gw iface kind6 gw6 if6 where r: "r4 = (kind, gw, iface)" "r6 = (kind6, gw6, if6)" by (metis prod_cases3)
  note ok = assms(2,3,5) [unfolded r]
  have d: "d = route_fields (kind, gw, iface) (kind6, gw6, if6) wdev on"
    using snapshot_stored [OF assms(2,3,5)] assms(6) unfolding r by simp
  have ne: "kind \<noteq> ''''" "kind6 \<noteq> ''''" using kind_ok [OF ok(1)] kind_ok [OF ok(2)] by simp_all
  let ?s2 = "snd (restore_default_route v (kind, gw, or_none iface) s1)"
  have "restore_routes v s = snd (restore_default_route6 v (kind6, gw6, or_none if6) ?s2)"
    using assms(7) restored_fields [OF ok d] ne by (simp add: restore_routes_def Let_def)
  moreover obtain k where "k \<in> {1..4}" "n_calls (snd (restore_default_route6 v (kind6, gw6, or_none if6) ?s2)) =
      n_calls ?s2 @ runs (replicate k [ROUTE, ''-n'', ''delete'', ''-inet6'', ''default''] @ route_adds ''ipv6'' [''-inet6''] r6)"
    using restore_calls6 [OF assms(1) ok(2), of ?s2] assms(4) unfolding r by auto
  moreover have "n_calls ?s2 = n_calls s1 @ runs ([ROUTE, ''-n'', ''delete'', ''default''] # route_adds ''ipv4'' [] r4)"
    using restore_calls4 [OF assms(1) ok(1)] unfolding r .
  ultimately show ?thesis by (intro bexI [of _ k]) (simp_all add: runs_def)
qed

definition sample_r4 :: route where "sample_r4 = (''ipv4'', ''192.168.0.1'', ''en0'')"
definition sample_r6 :: route where "sample_r6 = (''ipv6'', ''fe80::1%en0'', ''en0'')"

definition sample_store :: "bool net_env" where
  "sample_store = sample_machine\<lparr>nv_reads := (\<lambda>_ _. [scutil_dump (route_fields sample_r4 sample_r6 ''en0'' True)]),
     nv_wait := (\<lambda>_ _. Some (Some 0))\<rparr>"

lemma sample_route_ok: "route_ok ''ipv4'' 64 sample_r4" "route_ok ''ipv6'' 128 sample_r6" "plain_word 32 ''en0''"
  by code_simp+

lemma sample_shown: "\<exists>s1. n_calls s1 = [Run SCUTIL (Some (script [''show '' @ kBackupRoute])) (Merged 2048)] \<and>
  scutil_show sample_store kBackupRoute 2048 sample_net = (0, Some (scutil_dump (route_fields sample_r4 sample_r6 ''en0'' True)), s1)"
proof -
  let ?d = "scutil_dump (route_fields sample_r4 sample_r6 ''en0'' True)"
  have "trimmed ?d = ?d" "\<not> strstr ?d ''No such key''" "?d \<noteq> []" "length ?d < 2048" by code_simp+
  then show ?thesis
    by (simp add: scutil_show_def capture_cmd_stdin_def sample_store_def sample_machine_def sample_net_def status_ok_def
        strlcpy_def kBackupRoute_def Let_def act_def)
qed

theorem routes_come_back_witness:
  "\<exists>k \<in> {1..4}. n_calls (restore_routes sample_store sample_net) =
    Run SCUTIL (Some (script [''show '' @ kBackupRoute])) (Merged 2048) # runs
    ([[ROUTE, ''-n'', ''delete'', ''default''], [ROUTE, ''-n'', ''add'', ''default'', ''192.168.0.1'']] @
     replicate k [ROUTE, ''-n'', ''delete'', ''-inet6'', ''default''] @ [[ROUTE, ''-n'', ''add'', ''-inet6'', ''default'', ''fe80::1%en0'']])"
proof -
  obtain s1 where s1: "n_calls s1 = [Run SCUTIL (Some (script [''show '' @ kBackupRoute])) (Merged 2048)]"
    "scutil_show sample_store kBackupRoute 2048 sample_net = (0, Some (scutil_dump (route_fields sample_r4 sample_r6 ''en0'' True)), s1)"
    using sample_shown by blast
  have "\<forall>a w. nv_spawn sample_store a w" "snd (snd sample_r6) \<noteq> ''none''"
    by (simp_all add: sample_store_def sample_machine_def sample_r6_def)
  from routes_come_back [OF this(1) sample_route_ok(1,2) this(2) sample_route_ok(3) snapshot_stored [OF sample_route_ok] s1(2)]
  show ?thesis unfolding s1(1) by (simp add: route_adds_def sample_r4_def sample_r6_def)
qed

section \<open>The end of a session\<close>

text \<open>The keys that the scripts among some calls remove.\<close>

definition removed :: "net_call list \<Rightarrow> string set" where
  "removed cs = {k. \<exists>txt out. Run SCUTIL (Some txt) out \<in> set cs \<and> [''remove'', k] \<in> set (commands txt)}"

definition clears :: "'w net_env \<Rightarrow> 'w net \<Rightarrow> 'w net \<Rightarrow> string set \<Rightarrow> bool" where
  "clears v s s' K \<longleftrightarrow> (\<exists>cs. n_calls s' = n_calls s @ cs \<and> n_world s' = fold (nv_do v) cs (n_world s) \<and>
     K \<subseteq> removed cs \<and> (\<forall>d. set_call d False \<notin> set cs))"

lemma clears_refl [simp]: "clears v s s {}"
  by (simp add: clears_def)

lemma clears_trans: "clears v a b K \<Longrightarrow> clears v b c L \<Longrightarrow> clears v a c (K \<union> L)"
  unfolding clears_def removed_def by fastforce

lemma clears_trans0: "clears v a b {} \<Longrightarrow> clears v b c K \<Longrightarrow> clears v a c K"
  using clears_trans [of v a b "{}" c K] by simp

lemma clears_act [simp]: "\<forall>d. c \<noteq> set_call d False \<Longrightarrow> clears v s (act v c s) {}"
  by (auto simp: clears_def act_def)

text \<open>A tool other than the one that turns the radio off.\<close>

definition not_off :: "string list \<Rightarrow> bool" where
  "not_off argv \<longleftrightarrow> (\<forall>d. argv \<noteq> [NETWORKSETUP, ''-setairportpower'', d, ''off''])"

lemma not_off_simps [simp]: "not_off []" "not_off [a]" "not_off [a, b]" "not_off [a, b, c]" "not_off (a # b # c # d # e # r)"
  "not_off [a, b, c, d] = (\<not> (a = NETWORKSETUP \<and> b = ''-setairportpower'' \<and> d = ''off''))"
  by (auto simp: not_off_def)

lemma clears_flags [simp]: "clears v s (s'\<lparr>n_we_off := b\<rparr>) K = clears v s s' K" "clears v s (s'\<lparr>n_wifi_dev := d\<rparr>) K = clears v s s' K"
  "clears v s (s'\<lparr>n_session_open := o'\<rparr>) K = clears v s s' K"
  by (simp_all add: clears_def)

lemma clears_run [simp]: "not_off argv \<Longrightarrow> clears v s (snd (run_cmd v argv s)) {}"
  by (simp add: run_cmd_def Let_def set_call_def not_off_def)

lemma clears_show [simp]: "clears v s (snd (snd (scutil_show v key n s))) {}"
  by (simp add: scutil_show_def capture_cmd_stdin_def Let_def set_call_def)

lemma clears_scutil [simp]: "clears v s (snd (scutil_run v scr s)) {}"
  by (simp add: scutil_run_def run_cmd_stdin_def Let_def set_call_def)

text \<open>Tools start, and \<open>scutil\<close> takes its script in one piece.\<close>

definition tools_start :: "'w net_env \<Rightarrow> bool" where
  "tools_start v \<longleftrightarrow> (\<forall>a w. nv_spawn v a w) \<and> (\<forall>a t w. nv_writes v a t w = [])"

lemma write_all_at_once [simp]: "write_loop t [] = t"
  by (cases t) simp_all

lemma clears_script:
  assumes "tools_start v" "list_all line_ok ls" "length (script ls) < n" "K \<subseteq> {k. [''remove'', k] \<in> strtok blank ` set ls}"
  shows "clears v s (snd (scutil_run v (strlcpy n (script ls)) s)) K"
  using assms(1,4) commands_of_script [OF assms(2)]
  by (auto simp: strlcpy_short [OF assms(3)] clears_def removed_def tools_start_def scutil_run_def run_cmd_stdin_def act_def
      set_call_def Let_def)

definition backup_keys :: "string set" where
  "backup_keys = {kBackupIPv4, kBackupDNS, kBackupRoute, kBackupWifi, kBackupValid}"

definition service_keys :: "string set" where
  "service_keys =
     {''State:/Network/Service/MacOSWiredTetheringUSB/IPv4'', ''State:/Network/Service/MacOSWiredTetheringUSB/DNS'',
      ''State:/Network/Service/MacOSWiredTetheringUSB/Interface'', ''State:/Network/Service/MacOSWiredTetheringUSB'',
      ''Setup:/Network/Service/MacOSWiredTetheringUSB/IPv4'', ''Setup:/Network/Service/MacOSWiredTetheringUSB/Interface'',
      ''Setup:/Network/Service/MacOSWiredTetheringUSB''}"

lemma clears_remove_key:
  assumes "tools_start v" "list_all (\<lambda>c. \<not> blank c \<and> c \<noteq> NL) key" "key \<noteq> ''''" "length key < 400"
  shows "clears v s (scutil_remove_key v key s) {key}"
proof -
  have "strtok_loop blank [] key = [key]" using assms(2,3) strtok_word [of blank key "[]"] by (simp add: list_all_iff)
  then show ?thesis unfolding scutil_remove_key_def using assms
    by (intro clears_script) (auto simp: line_ok_def list_all_iff strtok_def blank_def)
qed

lemma clears_backup_keys:
  assumes "tools_start v"
  shows "clears v s (remove_backup_keys v s) backup_keys"
proof -
  have k: "list_all (\<lambda>c. \<not> blank c \<and> c \<noteq> NL) key \<and> key \<noteq> '''' \<and> length key < 400"
    if "key \<in> backup_keys \<union> {''State:/Network/MacOSWiredTethering/Backup'', ''State:/Network/MacOSWiredTethering''}" for key
    using that by (auto simp: backup_keys_def kBackupIPv4_def kBackupDNS_def kBackupRoute_def kBackupWifi_def kBackupValid_def blank_def)
  note r = clears_remove_key [OF assms]
  define s1 where "s1 = scutil_remove_key v kBackupIPv4 s"
  define s2 where "s2 = scutil_remove_key v kBackupDNS s1"
  define s3 where "s3 = scutil_remove_key v kBackupRoute s2"
  define s4 where "s4 = scutil_remove_key v kBackupWifi s3"
  define s5 where "s5 = scutil_remove_key v kBackupValid s4"
  define s6 where "s6 = scutil_remove_key v ''State:/Network/MacOSWiredTethering/Backup'' s5"
  have c: "clears v s s1 {kBackupIPv4}" "clears v s1 s2 {kBackupDNS}" "clears v s2 s3 {kBackupRoute}" "clears v s3 s4 {kBackupWifi}"
    "clears v s4 s5 {kBackupValid}"
    unfolding s1_def s2_def s3_def s4_def s5_def using k by (auto intro!: r simp: backup_keys_def)
  have k0: "clears v t (scutil_remove_key v key t) {}" for t key
    by (simp add: scutil_remove_key_def)
  note c5 = clears_trans [OF clears_trans [OF clears_trans [OF clears_trans [OF c(1,2)] c(3)] c(4)] c(5)]
  note c7 = clears_trans [OF clears_trans [OF c5 k0 [of s5 "''State:/Network/MacOSWiredTethering/Backup''", folded s6_def]]
      k0 [of s6 "''State:/Network/MacOSWiredTethering''"]]
  have "clears v s (remove_backup_keys v s) (((({kBackupIPv4} \<union> {kBackupDNS}) \<union> {kBackupRoute}) \<union> {kBackupWifi}) \<union> {kBackupValid} \<union> {} \<union> {})"
    using c7 unfolding remove_backup_keys_def Let_def s6_def s5_def s4_def s3_def s2_def s1_def .
  then show ?thesis by (simp add: backup_keys_def insert_commute)
qed

lemma clears_service:
  assumes "tools_start v"
  shows "clears v s (snd (at_net_unpublish_path v s)) service_keys" "clears v s (snd (at_net_remove_service v s)) {}"
proof -
  show "clears v s (snd (at_net_unpublish_path v s)) service_keys"
    unfolding at_net_unpublish_path_def snd_conv
    by (rule clears_script [OF assms]) (simp_all add: line_ok_def kServiceId_def strtok_def blank_def service_keys_def)
  have "clears v s (snd (run_cmd v [NETWORKSETUP, ''-removenetworkservice'', kServiceName] s)) {}" by simp
  then show "clears v s (snd (at_net_remove_service v s)) {}"
    unfolding at_net_remove_service_def Let_def snd_conv scutil_run_def [symmetric] by (rule clears_trans0) simp
qed

lemma clears_power_on [simp]: "clears v s (snd (wifi_power_on v dev s)) {}"
  by (simp add: wifi_power_on_def capture_cmd_merged_def Let_def set_call_def)

lemma clears_find [simp]: "clears v s (snd (snd (wifi_find_device v dev n s))) {}"
  by (simp add: wifi_find_device_def capture_cmd_merged_def Let_def split_def set_call_def)

lemma clears_set_power [simp]: "clears v s (snd (wifi_set_power v dev True s)) {}"
  by (simp add: wifi_set_power_def)

lemma clears_verify_loop: "clears v s (snd (verify_loop v n dev True s)) {}"
proof (induction n arbitrary: s)
  case 0
  show ?case using clears_power_on [of v s dev] by (simp add: Let_def split_def)
next
  case (Suc n)
  let ?s1 = "act v (Usleep 350000) (snd (wifi_set_power v dev True s))"
  let ?s2 = "snd (run_cmd v [IFCONFIG, the dev, ''up''] ?s1)"
  have 1: "clears v s ?s1 {}" by (rule clears_trans0 [OF clears_set_power clears_act]) (simp add: set_call_def)
  have 2: "clears v ?s1 ?s2 {}" by simp
  have 3: "clears v s (snd (wifi_power_on v dev ?s2)) {}"
    by (rule clears_trans0 [OF clears_trans0 [OF 1 2] clears_power_on])
  have "snd (verify_loop v (Suc n) dev True s) = snd (wifi_power_on v dev ?s2) \<or>
      snd (verify_loop v (Suc n) dev True s) = snd (verify_loop v n dev True (snd (wifi_power_on v dev ?s2)))"
    by (simp add: Let_def split_def)
  then show ?case using 3 clears_trans0 [OF 3 Suc.IH] by (elim disjE) simp_all
qed

lemma clears_verify [simp]: "clears v s (snd (wifi_set_power_verify v dev True s)) {}"
  by (simp add: wifi_set_power_verify_def clears_verify_loop del: verify_loop.simps)

lemma clears_marker [simp]: "clears v s (clear_wifi_marker v s) {}"
proof -
  have u: "clears v t (act v (Unlink p) t) {}" for t p by (simp add: set_call_def)
  show ?thesis using u clears_trans0 [OF u u] by (auto simp: clear_wifi_marker_def Let_def split: option.split)
qed

lemma clears_marker_off: "clears v s (clear_wifi_marker v (s\<lparr>n_we_off := b\<rparr>)) {}"
  using clears_trans0 [of v s "s\<lparr>n_we_off := b\<rparr>"] by simp

lemma clears_restore_wifi [simp]: "clears v s (snd (restore_wifi_device v dev s)) {}"
proof -
  define p where "p = (if nonempty dev \<and> dev \<noteq> Some ''none'' then (dev, '''', False, s)
     else if n_wifi_dev s \<noteq> '''' then (Some (n_wifi_dev s), '''', False, s)
     else let (rc, found, s) = wifi_find_device v '''' 32 s in (if rc = 0 then Some found else None, found, True, s))"
  obtain use found same s1 where p1: "p = (use, found, same, s1)" by (metis prod_cases4)
  have 1: "clears v s s1 {}" using p1 clears_find [of v s "''''" 32] by (auto simp: p_def Let_def split_def split: if_splits)
  show ?thesis
  proof (cases use)
    case None
    then show ?thesis using 1 p1 by (simp add: restore_wifi_device_def p_def [symmetric] Let_def)
  next
    case (Some d)
    obtain rc s2 where s2: "wifi_set_power_verify v (Some d) True s1 = (rc, s2)" by fastforce
    obtain rc3 f3 s3 where s3: "wifi_find_device v found 32 s2 = (rc3, f3, s3)" by (metis prod_cases3)
    obtain rc4 s4 where s4: "wifi_set_power_verify v (Some f3) True s3 = (rc4, s4)" by fastforce
    have 2: "clears v s s2 {}" using clears_trans0 [OF 1 clears_verify [of v s1 "Some d"]] s2 by simp
    have 3: "clears v s s3 {}" using clears_trans0 [OF 2 clears_find [of v s2 found 32]] s3 by simp
    have 4: "clears v s s4 {}" using clears_trans0 [OF 3 clears_verify [of v s3 "Some f3"]] s4 by simp
    show ?thesis using Some p1 s2 s3 s4 3 4 clears_trans0 [OF 2 clears_marker_off] clears_trans0 [OF 4 clears_marker_off]
      by (simp add: restore_wifi_device_def p_def [symmetric] Let_def)
  qed
qed

lemma clears_restore_backup_wifi [simp]: "clears v s (restore_wifi_from_backup v s) {}"
proof -
  obtain rc dump s1 where s1: "scutil_show v kBackupWifi 2048 s = (rc, dump, s1)" by (metis prod_cases3)
  have 1: "clears v s s1 {}" using clears_show [of v s kBackupWifi 2048] s1 by simp
  show ?thesis using 1 clears_trans0 [OF 1 clears_restore_wifi] s1 by (simp add: restore_wifi_from_backup_def Let_def)
qed

lemma clears_delete_loop6: "clears v s (delete_loop6 v n s) {}"
proof (induction n arbitrary: s)
  case (Suc n)
  obtain rc s1 where s1: "run_cmd v [ROUTE, ''-n'', ''delete'', ''-inet6'', ''default''] s = (rc, s1)" by fastforce
  then have 1: "clears v s s1 {}" using clears_run [where v = v and s = s and argv = "[ROUTE, ''-n'', ''delete'', ''-inet6'', ''default'']"] by simp
  show ?case using s1 1 clears_trans0 [OF 1 Suc.IH] by simp
qed simp

lemma clears_run2: "clears v a b {} \<Longrightarrow> not_off argv \<Longrightarrow> clears v a (snd (run_cmd v argv b)) {}"
  using clears_trans0 clears_run by blast

lemma clears_routes [simp]: "clears v s (restore_routes v s) {}"
proof -
  obtain rc route s1 where s1: "scutil_show v kBackupRoute 2048 s = (rc, route, s1)" by (metis prod_cases3)
  have 1: "clears v s s1 {}" using clears_show [of v s kBackupRoute 2048] s1 by simp
  have 4: "clears v t (snd (restore_default_route v r t)) {}" for r t
    by (cases r) (simp add: restore_default_route_def Let_def split_def clears_run2)
  have 6: "clears v t (snd (restore_default_route6 v r t)) {}" for r t
    by (cases r) (simp add: restore_default_route6_def Let_def split_def clears_run2 clears_delete_loop6 del: delete_loop6.simps)
  show ?thesis using clears_trans0 [OF 1 4] clears_trans0 [OF clears_trans0 [OF 1 4] 6] s1
    by (simp add: restore_routes_def Let_def)
qed

lemma clears_global [simp]: "clears v s (restore_global v had b k s) {}"
  by (simp add: restore_global_def scutil_copy_key_def scutil_remove_key_def)

lemma clears_backup:
  assumes "tools_start v"
  shows "clears v s (snd (restore_from_backup v True s)) backup_keys"
proof -
  define s1 where "s1 = restore_wifi_from_backup v s"
  define s2 where "s2 = (if n_we_off s1
    then snd (restore_wifi_device v (if n_wifi_dev s1 \<noteq> '''' then Some (n_wifi_dev s1) else None) s1) else s1)"
  obtain rc valid s3 where s3: "scutil_show v kBackupValid 2048 s2 = (rc, valid, s3)" by (metis prod_cases3)
  define s4 where "s4 = restore_global v (field valid ''HasIPv4'' 32 = ''true'') kBackupIPv4 kGlobalIPv4 s3"
  define s5 where "s5 = restore_global v (field valid ''HasDNS'' 32 = ''true'') kBackupDNS kGlobalDNS s4"
  have "clears v s2 s3 {}" using clears_show [of v s2 kBackupValid 2048] s3 by simp
  moreover have "clears v s s1 {}" "clears v s1 s2 {}" "clears v s3 s4 {}" "clears v s4 s5 {}" "clears v s5 (restore_routes v s5) {}"
    by (simp_all add: s1_def s2_def s4_def s5_def)
  ultimately have 1: "clears v s s1 {}" "clears v s1 s2 {}" "clears v s2 s3 {}" "clears v s3 s4 {}" "clears v s4 s5 {}"
    "clears v s5 (restore_routes v s5) {}" by blast+
  have 3: "clears v s s3 {}" by (rule clears_trans0 [OF clears_trans0 [OF 1(1,2)] 1(3)])
  have 6: "clears v s (restore_routes v s5) {}" by (rule clears_trans0 [OF clears_trans0 [OF clears_trans0 [OF 3 1(4)] 1(5)] 1(6)])
  have "snd (restore_from_backup v True s) = remove_backup_keys v (if rc \<noteq> 0 then s3 else restore_routes v s5)"
    using s3 unfolding restore_from_backup_def Let_def s1_def [symmetric] s2_def [symmetric]
    by (simp add: s4_def s5_def)
  then show ?thesis using clears_trans0 [OF 3 clears_backup_keys [OF assms]] clears_trans0 [OF 6 clears_backup_keys [OF assms]] by simp
qed

lemma clears_had: "clears v s (snd (had_session v s)) {}"
proof -
  have e: "clears v t (snd (scutil_key_exists v k t)) {}" for t k
    by (simp add: scutil_key_exists_def split_def Let_def)
  show ?thesis using e [of s kBackupValid] clears_trans0 [OF e e] by (simp add: had_session_def split_def Let_def)
qed

lemma open_show: "n_session_open (snd (snd (scutil_show v k n s))) = n_session_open s"
  using show_keeps [of s v k n] by (simp add: flags_same_def)

lemma open_run [simp]: "n_session_open (snd (run_cmd v argv s)) = n_session_open s"
  "n_session_open (snd (run_cmd_stdin v argv inp s)) = n_session_open s" "n_session_open (act v c s) = n_session_open s"
  by (simp_all add: run_cmd_def run_cmd_stdin_def act_def Let_def split: option.split)

lemma open_power [simp]: "n_session_open (snd (wifi_power_on v dev s)) = n_session_open s"
  "n_session_open (snd (wifi_set_power v dev on s)) = n_session_open s"
  "n_session_open (snd (snd (wifi_find_device v old n s))) = n_session_open s"
  by (simp_all add: wifi_power_on_def wifi_set_power_def wifi_find_device_def capture_cmd_merged_def Let_def split_def)

lemma open_verify: "n_session_open (snd (verify_loop v n dev on s)) = n_session_open s"
proof (induction n arbitrary: s)
  case 0
  then show ?case by (simp add: Let_def split_def)
next
  case (Suc n)
  then show ?case by (cases on) (simp_all add: Let_def split_def)
qed

lemma open_verify' [simp]: "n_session_open (snd (wifi_set_power_verify v dev on s)) = n_session_open s"
  by (simp add: wifi_set_power_verify_def open_verify del: verify_loop.simps)

lemma open_marker [simp]: "n_session_open (clear_wifi_marker v s) = n_session_open s"
  using flags_files(1) [of s v] by (simp add: flags_same_def)

lemma open_restore_wifi [simp]: "n_session_open (snd (restore_wifi_device v dev s)) = n_session_open s"
  by (simp add: restore_wifi_device_def Let_def split_def split: option.split)

lemma open_service [simp]: "n_session_open (snd (at_net_unpublish_path v s)) = n_session_open s"
  "n_session_open (snd (at_net_remove_service v s)) = n_session_open s"
  by (simp_all add: at_net_unpublish_path_def at_net_remove_service_def scutil_run_def Let_def)

lemma open_had: "n_session_open (snd (had_session v s)) = n_session_open s"
  by (simp add: had_session_def scutil_key_exists_def open_show Let_def split_def)

lemma end_session_result:
  assumes "tools_start v"
  shows "case at_net_end_session v s of (rc, s') \<Rightarrow> rc = 0 \<and> \<not> n_session_open s' \<and>
    (n_session_open s \<or> n_we_off s \<longrightarrow> fst (had_session v s)) \<and>
    clears v s s' (service_keys \<union> (if fst (had_session v s) then backup_keys else {}))"
proof -
  obtain had s1 where h: "had_session v s = (had, s1)" by fastforce
  have 1: "clears v s s1 {}" "n_session_open s1 = n_session_open s" "n_session_open s \<or> n_we_off s \<longrightarrow> had"
    using clears_had [of v s] open_had [of v s] h by (auto simp: had_session_def)
  have svc: "clears v t (snd (at_net_remove_service v (snd (at_net_unpublish_path v t)))) service_keys" for t
    using clears_trans [OF clears_service [OF assms]] by simp
  show ?thesis
  proof (cases had)
    case False
    define s2 where "s2 = (if wifi_marker_present v s1 then snd (restore_wifi_device v None s1) else s1)"
    have "clears v s1 s2 {}" "\<not> n_session_open s2" using 1 False by (simp_all add: s2_def)
    then have "clears v s (snd (at_net_remove_service v (snd (at_net_unpublish_path v s2)))) service_keys"
      using clears_trans0 [OF clears_trans0 [OF 1(1)] svc] by blast
    then show ?thesis using h 1 False \<open>\<not> n_session_open s2\<close>
      by (simp add: at_net_end_session_def s2_def [symmetric])
  next
    case True
    define s2 where "s2 = snd (restore_from_backup v True s1)"
    define s3 where "s3 = (if n_we_off s2
      then snd (restore_wifi_device v (if n_wifi_dev s2 \<noteq> '''' then Some (n_wifi_dev s2) else None) s2) else s2)"
    have 2: "clears v s s2 backup_keys" unfolding s2_def by (rule clears_trans0 [OF 1(1) clears_backup [OF assms]])
    have "clears v s2 s3 {}" by (simp add: s3_def)
    then have "clears v s s3 backup_keys" using clears_trans [OF 2] by fastforce
    then have "clears v s (snd (at_net_remove_service v (snd (at_net_unpublish_path v s3)))) (service_keys \<union> backup_keys)"
      using clears_trans [OF _ svc [of s3]] by (metis sup_commute)
    moreover have "at_net_end_session v s =
        (0, (snd (at_net_remove_service v (snd (at_net_unpublish_path v s3))))\<lparr>n_session_open := False\<rparr>)"
      using h True unfolding at_net_end_session_def Let_def by (simp add: s2_def s3_def)
    ultimately show ?thesis using h 1(3) True by simp
  qed
qed

text \<open>
  C12: ending a session always succeeds and closes it, and, when the tools start and \<open>scutil\<close> takes its scripts,
  every key of the published service has been removed; and if this process opened a session or turned the
  radio off, or a backup of an earlier process was found, all keys of the backup have been removed as well, so
  that no later start restores an outdated network.
\<close>

theorem session_ends:
  assumes "tools_start v"
  shows "case at_net_end_session v s of (rc, s') \<Rightarrow> rc = 0 \<and> \<not> n_session_open s' \<and>
    (n_session_open s \<or> n_we_off s \<longrightarrow> fst (had_session v s)) \<and>
    clears v s s' (service_keys \<union> (if fst (had_session v s) then backup_keys else {}))"
  by (rule end_session_result [OF assms])

theorem session_ends_witness:
  "case at_net_end_session sample_machine (sample_net\<lparr>n_session_open := True\<rparr>) of (rc, s') \<Rightarrow>
    rc = 0 \<and> \<not> n_session_open s' \<and> clears sample_machine (sample_net\<lparr>n_session_open := True\<rparr>) s' (service_keys \<union> backup_keys)"
proof -
  have "tools_start sample_machine" by (simp add: tools_start_def sample_machine_def)
  from session_ends [OF this, of "sample_net\<lparr>n_session_open := True\<rparr>"] show ?thesis
    by (auto split: prod.splits)
qed

section \<open>The start of a session\<close>

lemma open_scutil [simp]: "n_session_open (snd (scutil_run v scr s)) = n_session_open s"
  "n_session_open (snd (snd (capture_cmd v argv n s))) = n_session_open s"
  by (simp_all add: scutil_run_def capture_cmd_def Let_def)

lemma open_keys [simp]: "n_session_open (scutil_remove_key v k s) = n_session_open s"
  "n_session_open (snd (scutil_copy_key v k k' s)) = n_session_open s"
  "n_session_open (snd (scutil_key_exists v k s)) = n_session_open s"
  "n_session_open (remove_backup_keys v s) = n_session_open s"
  "n_session_open (restore_global v had k k' s) = n_session_open s"
  by (simp_all add: scutil_remove_key_def scutil_copy_key_def scutil_key_exists_def remove_backup_keys_def restore_global_def
      open_show Let_def split_def)

lemma open_delete6: "n_session_open (delete_loop6 v n s) = n_session_open s"
  by (induction n arbitrary: s) (simp_all add: split_def Let_def)

lemma open_routes [simp]: "n_session_open (snd (restore_default_route v r s)) = n_session_open s"
  "n_session_open (snd (restore_default_route6 v r s)) = n_session_open s"
  "n_session_open (restore_routes v s) = n_session_open s"
  "n_session_open (snd (snapshot_default_route v s)) = n_session_open s"
  "n_session_open (snd (snapshot_default_route6 v s)) = n_session_open s"
proof -
  have 1: "n_session_open (snd (restore_default_route v r t)) = n_session_open t" for r t
    by (cases r) (simp add: restore_default_route_def split_def Let_def)
  have 2: "n_session_open (snd (restore_default_route6 v r t)) = n_session_open t" for r t
    by (cases r) (simp add: restore_default_route6_def split_def Let_def open_delete6 del: delete_loop6.simps)
  show "n_session_open (snd (restore_default_route v r s)) = n_session_open s" by (rule 1)
  show "n_session_open (snd (restore_default_route6 v r s)) = n_session_open s" by (rule 2)
  show "n_session_open (restore_routes v s) = n_session_open s"
    by (simp add: restore_routes_def 1 2 open_show Let_def split_def)
  show "n_session_open (snd (snapshot_default_route v s)) = n_session_open s"
    by (simp add: snapshot_default_route_def split_def Let_def)
  show "n_session_open (snd (snapshot_default_route6 v s)) = n_session_open s"
    by (simp add: snapshot_default_route6_def split_def Let_def)
qed

lemma open_backup [simp]: "n_session_open (restore_wifi_from_backup v s) = n_session_open s"
  "n_session_open (snd (restore_from_backup v b s)) = n_session_open s"
  "n_session_open (snd (snd (snapshot_wifi v d n s))) = n_session_open s"
proof -
  have 1: "n_session_open (restore_wifi_from_backup v t) = n_session_open t" for t
    by (simp add: restore_wifi_from_backup_def open_show Let_def split_def)
  show "n_session_open (restore_wifi_from_backup v s) = n_session_open s" by (rule 1)
  show "n_session_open (snd (restore_from_backup v b s)) = n_session_open s"
    by (simp add: restore_from_backup_def 1 open_show Let_def split_def)
  show "n_session_open (snd (snd (snapshot_wifi v d n s))) = n_session_open s"
    by (simp add: snapshot_wifi_def persist_wifi_backup_def Let_def split_def)
qed

lemma open_stale: "n_session_open (destroy_stale_feth v s) = n_session_open s"
proof -
  have "n_session_open (fold (\<lambda>tok s. if \<not> starts_with tok ''feth'' then s else snd (run_cmd v [IFCONFIG, tok, ''destroy''] s)) ts t) =
      n_session_open t" for ts t
    by (induction ts arbitrary: t) simp_all
  then show ?thesis by (simp add: destroy_stale_feth_def Let_def split_def)
qed

text \<open>The last thing that led to \<open>s\<close> was a snapshot script that \<open>scutil\<close> accepted.\<close>

definition snapshot_accepted :: "'w net_env \<Rightarrow> 'w net \<Rightarrow> bool" where
  "snapshot_accepted v s \<longleftrightarrow>
     (\<exists>r4 r6 wdev on a b s1. scutil_run v (snapshot_script r4 r6 wdev on a b) s1 = (0, s))"

lemma snapshot_taken:
  assumes "take_snapshot_to_backup v s = (rc, s')"
  shows "n_session_open s' = n_session_open s \<and> rc \<in> {0, -1} \<and>
    (rc = 0 \<longrightarrow> snapshot_accepted v s')"
proof -
  obtain r4 r6 wdev on a b s1 rc1 where s1: "n_session_open s1 = n_session_open s"
    and r: "scutil_run v (snapshot_script r4 r6 wdev on a b) s1 = (rc1, s')" and rc: "rc = (if rc1 \<noteq> 0 then -1 else 0)"
  proof -
    obtain a t1 where t1: "scutil_key_exists v kGlobalIPv4 s = (a, t1)" by fastforce
    obtain b t2 where t2: "scutil_key_exists v kGlobalDNS t1 = (b, t2)" by fastforce
    define t4 where "t4 = (let t = (if a then snd (scutil_copy_key v kGlobalIPv4 kBackupIPv4 t2) else t2)
      in if b then snd (scutil_copy_key v kGlobalDNS kBackupDNS t) else t)"
    obtain r4 t5 where t5: "snapshot_default_route v t4 = (r4, t5)" by fastforce
    obtain r6 t6 where t6: "snapshot_default_route6 v t5 = (r6, t6)" by fastforce
    obtain wdev on t7 where t7: "snapshot_wifi v '''' 32 t6 = (wdev, on, t7)" by (metis prod_cases3)
    obtain rc1 t8 where t8: "scutil_run v (snapshot_script r4 r6 wdev on a b) t7 = (rc1, t8)" by fastforce
    have o: "n_session_open t4 = n_session_open s"
      using open_keys(3) [of v kGlobalIPv4 s] open_keys(3) [of v kGlobalDNS t1] t1 t2 by (simp add: t4_def Let_def)
    have "n_session_open t7 = n_session_open t4"
      using open_routes(4) [of v t4] open_routes(5) [of v t5] open_backup(3) [of v "''''" 32 t6] t5 t6 t7 by simp
    moreover have "take_snapshot_to_backup v s = (if rc1 \<noteq> 0 then -1 else 0, t8)"
      using t1 t2 t5 t6 t7 t8 by (simp add: take_snapshot_to_backup_def t4_def Let_def)
    ultimately show thesis using that [of t7 r4 r6 wdev on a b rc1] t8 o assms by simp
  qed
  have "n_session_open s' = n_session_open s1" using open_scutil(1) [of v "snapshot_script r4 r6 wdev on a b" s1] r by simp
  moreover have "\<exists>r4 r6 wdev on a b s1. scutil_run v (snapshot_script r4 r6 wdev on a b) s1 = (rc1, s')"
    using r by (intro exI)
  ultimately show ?thesis using s1 rc by (cases "rc1 = 0") (simp_all add: snapshot_accepted_def del: split_paired_Ex)
qed

text \<open>
  C11: the system's own route is only taken when there is something to give back: a session counts as open
  only after \<open>scutil\<close> has accepted the snapshot script as the last thing that was done, any other outcome is
  an error that leaves it closed, an open session is left alone; and without an open session making the
  tunnel the default route runs nothing and fails.
\<close>

theorem takeover_needs_snapshot:
  "(case at_net_begin_session v s of (rc, s') \<Rightarrow>
     if n_session_open s then rc = 0 \<and> s' = s
     else rc \<in> {0, -1} \<and> n_session_open s' = (rc = 0) \<and>
       (rc = 0 \<longrightarrow> snapshot_accepted v (s'\<lparr>n_session_open := False\<rparr>))) \<and>
   (\<not> n_session_open s \<longrightarrow> at_net_prefer_default_route v name gateway s = (-1, s))"
proof -
  have "case at_net_begin_session v s of (rc, s') \<Rightarrow> rc \<in> {0, -1} \<and> n_session_open s' = (rc = 0) \<and>
       (rc = 0 \<longrightarrow> snapshot_accepted v (s'\<lparr>n_session_open := False\<rparr>))"
    if o: "\<not> n_session_open s"
  proof -
    obtain kind gw iface s2 where s2: "snapshot_default_route v (destroy_stale_feth v s) = ((kind, gw, iface), s2)"
      by (metis prod_cases4 prod.collapse)
    obtain stale s3 where s3: "scutil_key_exists v kBackupValid s2 = (stale, s3)" by fastforce
    define s4 where "s4 = (if \<not> stale then s3
      else if kind \<noteq> ''none'' \<and> \<not> iface_is_virtual_tether (Some iface) then remove_backup_keys v s3
      else snd (at_net_remove_service v (snd (at_net_unpublish_path v (snd (restore_from_backup v True s3))))))"
    obtain rc s5 where s5: "take_snapshot_to_backup v s4 = (rc, s5)" by fastforce
    have "\<not> n_session_open s2" using o open_routes(4) [of v "destroy_stale_feth v s"] s2 by (simp add: open_stale)
    then have "\<not> n_session_open s3" using open_keys(3) [of v kBackupValid s2] s3 by simp
    then have "\<not> n_session_open s4" by (simp add: s4_def)
    then have c: "\<not> n_session_open s5" "rc \<in> {0, -1}"
      "rc = 0 \<longrightarrow> snapshot_accepted v s5"
      using snapshot_taken [OF s5] by auto
    have "s5\<lparr>n_session_open := False\<rparr> = s5" using c(1) by (cases s5) simp
    then have "rc = 0 \<longrightarrow> snapshot_accepted v (s5\<lparr>n_session_open := False\<rparr>)" using c(3) by (simp only:)
    moreover have "at_net_begin_session v s = (case take_snapshot_to_backup v s4 of (rc, s) \<Rightarrow>
        if rc \<noteq> 0 then (-1, s) else (0, s\<lparr>n_session_open := True\<rparr>))"
      using o s2 s3 unfolding at_net_begin_session_def Let_def s4_def by simp
    then have "at_net_begin_session v s = (if rc \<noteq> 0 then (-1, s5) else (0, s5\<lparr>n_session_open := True\<rparr>))"
      using s5 by simp
    ultimately show ?thesis using c(1,2) by (cases "rc = 0") simp_all
  qed
  moreover have "n_session_open s \<Longrightarrow> at_net_begin_session v s = (0, s)" by (simp add: at_net_begin_session_def)
  moreover have "\<not> n_session_open s \<Longrightarrow> at_net_prefer_default_route v name gateway s = (-1, s)"
    by (simp add: at_net_prefer_default_route_def)
  ultimately show ?thesis by (cases "n_session_open s") auto
qed

lemma sample_scutil: "fst (scutil_run sample_machine scr s) = 0"
  by (simp add: scutil_run_def run_cmd_stdin_def sample_machine_def exited_ok_def Let_def)

lemma sample_snapshot: "fst (take_snapshot_to_backup sample_machine s) = 0"
  by (simp add: take_snapshot_to_backup_def split_def Let_def sample_scutil)

lemma sample_begin: "fst (at_net_begin_session sample_machine sample_net) = 0"
  by (simp add: at_net_begin_session_def split_def Let_def sample_snapshot)

theorem takeover_needs_snapshot_witness:
  "(case at_net_begin_session sample_machine sample_net of (rc, s') \<Rightarrow>
     rc = 0 \<and> n_session_open s' \<and> snapshot_accepted sample_machine (s'\<lparr>n_session_open := False\<rparr>)) \<and>
   at_net_prefer_default_route sample_machine (Some ''utun5'') (Some ''10.0.0.1'') sample_net = (-1, sample_net)"
proof -
  have "\<not> n_session_open sample_net" by (simp add: sample_net_def)
  then show ?thesis
    using takeover_needs_snapshot [where v = sample_machine and s = sample_net and name = "Some ''utun5''" and gateway = "Some ''10.0.0.1''"]
      sample_begin by (auto split: prod.splits)
qed

section \<open>The radio and the tools\<close>

lemma clears_on_air:
  assumes "radio_ok v dev on_air" "clears v s s' K" "on_air (n_world s)"
  shows "on_air (n_world s')"
proof -
  obtain cs where cs: "n_world s' = fold (nv_do v) cs (n_world s)" "set_call dev False \<notin> set cs"
    using assms(2) by (auto simp: clears_def)
  have "on_air (fold (nv_do v) cs w)" if "on_air w" "set_call dev False \<notin> set cs" for w
    using that
  proof (induction cs arbitrary: w)
    case (Cons c cs)
    have "on_air (nv_do v c w)"
    proof (cases "c = set_call dev True")
      case True
      then show ?thesis using assms(1) by (simp add: radio_ok_def)
    next
      case False
      then have "c \<noteq> set_call dev on" for on using Cons.prems(2) by (cases on) auto
      then show ?thesis using assms(1) Cons.prems(1) by (simp add: radio_ok_def)
    qed
    then show ?case using Cons by simp
  qed simp
  then show ?thesis using cs assms(3) by simp
qed

lemma clears_publish [simp]: "clears v s (snd (at_net_publish_path v name lease prim s)) {}"
  by (simp add: at_net_publish_path_def Let_def split_def)

lemma clear_dhcp_result:
  assumes "tools_start v"
  shows "\<not> n_session_open (snd (at_net_clear_dhcp v name s)) \<and>
    clears v s (snd (at_net_clear_dhcp v name s)) (service_keys \<union> (if n_session_open s then backup_keys else {}))"
proof -
  obtain s1 where s1: "at_net_end_session v s = (0, s1)" "\<not> n_session_open s1"
    "clears v s s1 (service_keys \<union> (if n_session_open s then backup_keys else {}))"
  proof -
    obtain rc s1 where "at_net_end_session v s = (rc, s1)" by fastforce
    moreover have "clears v s s1 (service_keys \<union> (if n_session_open s then backup_keys else {}))"
      if "clears v s s1 (service_keys \<union> (if fst (had_session v s) then backup_keys else {}))" "n_session_open s \<longrightarrow> fst (had_session v s)"
      using that unfolding clears_def by (auto split: if_splits)
    ultimately show thesis using end_session_result [OF assms, of s] that [of s1] by auto
  qed
  define s2 where "s2 = (case name of None \<Rightarrow> s1
     | Some name \<Rightarrow> snd (run_cmd v [IFCONFIG, name, ''down''] (snd (run_cmd v [IFCONFIG, name, ''inet'', ''-alias''] s1))))"
  let ?K = "service_keys \<union> (if n_session_open s then backup_keys else {})"
  have c: "clears v s1 s2 {}" "\<not> n_session_open s2"
    using s1(2) by (auto simp: s2_def clears_run2 split: option.split)
  have svc: "clears v s2 (snd (at_net_remove_service v (snd (at_net_unpublish_path v s2)))) service_keys"
    using clears_trans [OF clears_service [OF assms]] by simp
  have "?K \<union> {} \<union> service_keys = ?K" by auto
  then have "clears v s (snd (at_net_remove_service v (snd (at_net_unpublish_path v s2)))) ?K"
    using clears_trans [OF clears_trans [OF s1(3) c(1)] svc] by (simp only:)
  moreover have "snd (at_net_clear_dhcp v name s) = snd (at_net_remove_service v (snd (at_net_unpublish_path v s2)))"
    using s1(1) by (simp add: at_net_clear_dhcp_def s2_def Let_def)
  ultimately show ?thesis using c(2) by simp
qed

end
