(* ===== verification/JsonStatus.thy ===== *)
theory JsonStatus
  imports Engine UsbInfo
begin

text \<open>
  The status channel, \<open>engine/src/json_status.c\<close>: lines of JSON written to a UNIX socket or to the
  standard output. The channel is the descriptor \<open>g_fd\<close> with the record of its system calls. The results
  of \<open>write\<close> are a list, in the order of the calls; a list that ends too early is a call that has not
  returned (\<open>None\<close>). A formatted line is the text \<open>vsnprintf\<close> would produce without a limit.
\<close>

abbreviation LF :: char where "LF \<equiv> CHR 0x0A"
abbreviation QT :: char where "QT \<equiv> CHR 0x22"

datatype wres = Wrote nat | WIntr | WErr

datatype status_call = SSocket | SConnect string | SNoSigpipe | SSleep | SClose int | SWrite int string | SFlush
  | SStderr string

record chan =
  ch_fd :: int
  ch_calls :: "status_call list"
  ch_ws :: "wres list"

definition scall :: "status_call \<Rightarrow> chan \<Rightarrow> chan" where
  "scall k c = c\<lparr>ch_calls := ch_calls c @ [k]\<rparr>"

definition set_status_fd :: "int \<Rightarrow> chan \<Rightarrow> chan" where
  "set_status_fd fd c = c\<lparr>ch_fd := fd\<rparr>"

text \<open>The return value, the bytes that went out, and the results that are left.\<close>

fun write_all :: "wres list \<Rightarrow> string \<Rightarrow> (int \<times> string \<times> wres list) option" where
  "write_all ws [] = Some (0, [], ws)"
| "write_all [] (b # bs) = None"
| "write_all (WIntr # ws) (b # bs) = write_all ws (b # bs)"
| "write_all (WErr # ws) (b # bs) = Some (-1, [], ws)"
| "write_all (Wrote w # ws) (b # bs) =
     (if w = 0 then Some (-1, [], ws)
      else map_option (\<lambda>(rc, out, ws). (rc, take w (b # bs) @ out, ws)) (write_all ws (drop w (b # bs))))"

text \<open>What \<open>at_log\<close> prints when no logger is installed.\<close>

datatype at_log_level = AT_LOG_DEBUG | AT_LOG_INFO | AT_LOG_WARN | AT_LOG_ERROR

fun level_tag :: "at_log_level \<Rightarrow> string" where
  "level_tag AT_LOG_DEBUG = ''DEBUG''"
| "level_tag AT_LOG_INFO = ''INFO''"
| "level_tag AT_LOG_WARN = ''WARN''"
| "level_tag AT_LOG_ERROR = ''ERROR''"

definition stderr_log :: "at_log_level \<Rightarrow> string \<Rightarrow> chan \<Rightarrow> chan" where
  "stderr_log level msg c = scall (SStderr (''['' @ level_tag level @ ''] '' @ strlcpy 1024 msg @ [LF])) c"

text \<open>\<open>fd\<close> is what \<open>socket\<close> returns and \<open>conn i\<close> whether attempt \<open>i\<close> connects; \<open>sun_path\<close> has 104 bytes.\<close>

fun connect_loop :: "nat \<Rightarrow> nat \<Rightarrow> (nat \<Rightarrow> bool) \<Rightarrow> int \<Rightarrow> string \<Rightarrow> chan \<Rightarrow> int \<times> chan" where
  "connect_loop 0 i conn fd path c =
     (-1, stderr_log AT_LOG_ERROR (''Status socket failed ('' @ path @ '')'') (scall (SClose fd) c))"
| "connect_loop (Suc k) i conn fd path c =
     (let c = scall (SConnect (strlcpy 104 path)) c in
      if conn i then (0, set_status_fd fd (scall SNoSigpipe c))
      else connect_loop k (i + 1) conn fd path (scall SSleep c))"

definition at_status_open :: "int \<Rightarrow> (nat \<Rightarrow> bool) \<Rightarrow> string option \<Rightarrow> chan \<Rightarrow> int \<times> chan" where
  "at_status_open fd conn path c =
     (case path of None \<Rightarrow> (0, set_status_fd 1 c)
      | Some path \<Rightarrow>
          if path = '''' then (0, set_status_fd 1 c) else
          let c = scall SSocket c in
          if fd < 0 then (-1, c) else connect_loop 150 0 conn fd path c)"

definition at_status_close :: "chan \<Rightarrow> chan" where
  "at_status_close c =
     (let c = (if ch_fd c \<ge> 0 \<and> ch_fd c \<noteq> 1 then scall (SClose (ch_fd c)) c else c) in c\<lparr>ch_fd := -1\<rparr>)"

definition at_status_fd :: "chan \<Rightarrow> int" where
  "at_status_fd c = ch_fd c"

definition at_status_emit :: "string \<Rightarrow> chan \<Rightarrow> (int \<times> chan) option" where
  "at_status_emit s c =
     (let line = strlcpy 2046 s;
          line = (if line = '''' \<or> last line \<noteq> LF then line @ [LF] else line) in
      if ch_fd c \<ge> 0 then do {
        (rc, out, ws) \<leftarrow> write_all (ch_ws c) line;
        (let c = scall (SWrite (ch_fd c) out) (c\<lparr>ch_ws := ws\<rparr>) in
         Some (rc, if ch_fd c = 1 then scall SFlush c else c)) }
      else Some (0, c))"

text \<open>A string escaped into a local array of \<open>n\<close> bytes, and the decimal digits of a number.\<close>

definition escaped :: "nat \<Rightarrow> string \<Rightarrow> string option" where
  "escaped n s = map_option (\<lambda>(rc, d). cstr d) (at_json_escape (Some s) (replicate n NUL))"

fun decimal :: "nat \<Rightarrow> string" where
  "decimal n = (if n < 10 then [digit n] else decimal (n div 10) @ [digit (n mod 10)])"

declare decimal.simps [simp del]

fun level_name :: "at_log_level \<Rightarrow> string" where
  "level_name AT_LOG_DEBUG = ''debug''"
| "level_name AT_LOG_INFO = ''info''"
| "level_name AT_LOG_WARN = ''warn''"
| "level_name AT_LOG_ERROR = ''error''"

definition at_status_log :: "at_log_level \<Rightarrow> string \<Rightarrow> chan \<Rightarrow> chan option" where
  \<open>at_status_log level message c = do {
     esc \<leftarrow> escaped 1024 message;
     (rc, c) \<leftarrow> at_status_emit (''{"type":"log","level":"'' @ level_name level @ ''","message":"'' @ esc @ ''"}'') c;
     (let fd = ch_fd c in
      Some (if fd \<noteq> 2 then scall (SStderr (''['' @ level_name level @ ''] '' @ message @ [LF])) c else c)) }\<close>

text \<open>\<open>at_log\<close>: whether the channel is the installed logger, and the formatted message.\<close>

definition at_log :: "bool \<Rightarrow> at_log_level \<Rightarrow> string \<Rightarrow> chan \<Rightarrow> chan option" where
  "at_log logger level msg c =
     (if logger then at_status_log level (strlcpy 1024 msg) c else Some (stderr_log level msg c))"

fun kind_name :: "at_device_kind \<Rightarrow> string" where
  "kind_name AT_KIND_RNDIS = ''rndis''"
| "kind_name AT_KIND_ANDROID = ''android''"
| "kind_name AT_KIND_UNKNOWN = ''unknown''"

definition device_line :: "at_usb_device_info \<Rightarrow> string option" where
  \<open>device_line d = do {
     name \<leftarrow> escaped 256 (di_name d);
     vendor \<leftarrow> escaped 256 (di_vendor d);
     serial \<leftarrow> escaped 128 (di_serial d);
     Some (''{"type":"device","vid":'' @ decimal (unat (di_vid d)) @ '',"pid":'' @ decimal (unat (di_pid d)) @
       '',"location":'' @ decimal (unat (di_location_id d)) @ '',"name":"'' @ name @ ''","vendor":"'' @ vendor @
       ''","serial":"'' @ serial @ ''","kind":"'' @ kind_name (di_kind d) @
       ''","control":'' @ decimal (unat (di_control_ifc d)) @ '',"data":'' @ decimal (unat (di_data_ifc d)) @ ''}'') }\<close>

fun devices_loop :: "at_usb_device_info list \<Rightarrow> chan \<Rightarrow> chan option" where
  "devices_loop [] c = Some c"
| "devices_loop (d # ds) c = do { line \<leftarrow> device_line d; (rc, c) \<leftarrow> at_status_emit line c; devices_loop ds c }"

definition at_status_devices :: "at_usb_device_info list \<Rightarrow> chan \<Rightarrow> chan option" where
  \<open>at_status_devices devs c = do {
     (rc, c) \<leftarrow> at_status_emit (''{"type":"devices_begin","count":'' @ decimal (length devs) @ ''}'') c;
     c \<leftarrow> devices_loop devs c;
     (rc, c) \<leftarrow> at_status_emit ''{"type":"devices_end"}'' c;
     Some c }\<close>

fun state_name :: "at_state \<Rightarrow> string" where
  "state_name AT_STATE_CONNECTING = ''connecting''"
| "state_name AT_STATE_CONNECTED = ''connected''"
| "state_name AT_STATE_STOPPING = ''stopping''"
| "state_name AT_STATE_ERROR = ''error''"
| "state_name AT_STATE_IDLE = ''idle''"

definition mac_field :: "buf \<Rightarrow> string option" where
  "mac_field mac = map_option cstr (at_mac_format mac (replicate 24 NUL))"

text \<open>The line for an engine; \<open>pid\<close> is what \<open>getpid\<close> returns.\<close>

definition engine_line :: "nat \<Rightarrow> at_engine option \<Rightarrow> string option" where
  \<open>engine_line pid e =
     (let st = at_engine_stats e; net = at_engine_net e in do {
        mac \<leftarrow> at_engine_mac e;
        macs \<leftarrow> mac_field mac;
        ip \<leftarrow> escaped 64 (ni_ip net);
        gw \<leftarrow> escaped 64 (ni_gateway net);
        dns \<leftarrow> escaped 160 (ni_dns net);
        iface \<leftarrow> escaped 32 (at_engine_iface e);
        err \<leftarrow> escaped 512 (at_engine_error e);
        (let state = state_name (at_engine_state e) in
         Some (''{"type":"status","state":"'' @ state @ ''","iface":"'' @ iface @ ''","ip":"'' @ ip @
           ''","gateway":"'' @ gw @ ''","dns":"'' @ dns @ ''","mac":"'' @ macs @ ''","error":"'' @ err @
           ''","rx_bytes":'' @ decimal (unat (st_rx_bytes st)) @ '',"tx_bytes":'' @ decimal (unat (st_tx_bytes st)) @
           '',"rx_frames":'' @ decimal (unat (st_rx_frames st)) @ '',"tx_frames":'' @ decimal (unat (st_tx_frames st)) @
           '',"rx_errors":'' @ decimal (unat (st_rx_errors st)) @ '',"tx_errors":'' @ decimal (unat (st_tx_errors st)) @
           '',"pid":'' @ decimal pid @ '',"link_mbps":'' @ decimal (unat (at_engine_link_mbps e)) @ '',"mtu":1500}'')) })\<close>

definition at_status_engine :: "nat \<Rightarrow> at_engine option \<Rightarrow> chan \<Rightarrow> (int \<times> chan) option" where
  "at_status_engine pid e c =
     (if e = None then Some (0, c) else do { line \<leftarrow> engine_line pid e; at_status_emit line c })"

section \<open>Writing\<close>

lemma write_all_prefix:
  "write_all ws bs = Some (rc, out, ws') \<Longrightarrow>
   (rc = 0 \<and> out = bs \<or> rc = -1 \<and> (\<exists>c rest. bs = out @ c # rest)) \<and> (\<exists>us. ws = us @ ws')"
proof (induction ws bs arbitrary: rc out rule: write_all.induct)
  case (5 w ws b bs)
  show ?case
  proof (cases "w = 0")
    case True
    then show ?thesis using "5.prems" by auto
  next
    case False
    obtain out2 where r: "write_all ws (drop w (b # bs)) = Some (rc, out2, ws')" "out = take w (b # bs) @ out2"
      using "5.prems" False by auto
    have "b # bs = take w (b # bs) @ drop w (b # bs)" by simp
    then show ?thesis using "5.IH" [OF False r(1)] r(2) by (metis append.assoc append_Cons)
  qed
qed auto

text \<open>Enough calls that make progress: the loop returns.\<close>

lemma write_all_returns:
  assumes "length bs \<le> length (filter (\<lambda>w. w \<noteq> WIntr) ws)"
  shows "write_all ws bs \<noteq> None"
  using assms
proof (induction ws bs rule: write_all.induct)
  case (5 w ws b bs)
  then show ?case by (cases "w = 0") auto
qed auto

section \<open>What a reader of the channel makes of a line\<close>

text \<open>A flat JSON object of strings and natural numbers: its values, a reader and a printer.\<close>

datatype jval = JStr string | JNum nat

fun scan_num :: "nat \<Rightarrow> string \<Rightarrow> nat \<times> string" where
  "scan_num acc [] = (acc, [])"
| "scan_num acc (c # cs) = (if isdigit c then scan_num (10 * acc + (of_char c - 48)) cs else (acc, c # cs))"

definition json_value :: "string \<Rightarrow> (jval \<times> string) option" where
  "json_value s =
     (case s of [] \<Rightarrow> None
      | c # r \<Rightarrow> if c = QT then map_option (apfst JStr) (json_scan r)
          else if isdigit c then Some (apfst JNum (scan_num 0 s)) else None)"

fun json_members :: "nat \<Rightarrow> string \<Rightarrow> ((string \<times> jval) list \<times> string) option" where
  "json_members 0 s = None"
| "json_members (Suc k) s =
     (case s of [] \<Rightarrow> None
      | q # r \<Rightarrow> if q \<noteq> QT then None else do {
          (key, r) \<leftarrow> json_scan r;
          (case r of [] \<Rightarrow> None
           | d # r \<Rightarrow> if d \<noteq> CHR '':'' then None else do {
               (v, r) \<leftarrow> json_value r;
               (case r of [] \<Rightarrow> None
                | e # r \<Rightarrow>
                    if e = CHR '','' then do { (ms, r) \<leftarrow> json_members k r; Some ((key, v) # ms, r) }
                    else if e = CHR ''}'' then Some ([(key, v)], r) else None) }) })"

definition json_object :: "string \<Rightarrow> ((string \<times> jval) list \<times> string) option" where
  "json_object s = (case s of [] \<Rightarrow> None | c # r \<Rightarrow> if c = CHR ''{'' then json_members (length r) r else None)"

definition jenc :: "string \<Rightarrow> string" where
  "jenc s = concat (map json_enc s)"

fun jtext :: "jval \<Rightarrow> string" where
  "jtext (JStr s) = [QT] @ jenc s @ [QT]"
| "jtext (JNum n) = decimal n"

fun jmembers :: "(string \<times> jval) list \<Rightarrow> string" where
  "jmembers [] = ''''"
| "jmembers ((k, v) # ms) = [QT] @ k @ [QT, CHR '':''] @ jtext v @ (if ms = [] then '''' else '','' @ jmembers ms)"

definition jobject :: "(string \<times> jval) list \<Rightarrow> string" where
  "jobject ms = ''{'' @ jmembers ms @ ''}''"

lemma digit_props: "n < 10 \<Longrightarrow> isdigit (digit n) \<and> of_char (digit n) - 48 = n"
  by (simp add: isdigit_def digit_def)

lemma scan_num_decimal: "scan_num acc (decimal n @ r) = scan_num (acc * 10 ^ length (decimal n) + n) r"
proof (induction n arbitrary: r acc rule: decimal.induct)
  case (1 n)
  show ?case
  proof (cases "n < 10")
    case True
    then show ?thesis using digit_props [OF True] by (simp add: decimal.simps [of n] mult.commute)
  next
    case False
    let ?m = "n mod 10"
    have m: "isdigit (digit ?m)" "of_char (digit ?m) - 48 = ?m" using digit_props [of ?m] by simp_all
    have d: "decimal n = decimal (n div 10) @ [digit ?m]" using False by (simp add: decimal.simps [of n])
    have "10 * (acc * 10 ^ length (decimal (n div 10)) + n div 10) + ?m = acc * 10 ^ length (decimal n) + n"
      unfolding d by simp
    then have "scan_num acc (decimal n @ r) = scan_num (acc * 10 ^ length (decimal n) + n) r"
      using "1.IH" [OF False] m unfolding d append_assoc by (simp only: append.simps scan_num.simps if_True)
    then show ?thesis by simp
  qed
qed

lemma decimal_nonempty: "\<exists>c cs. decimal n = c # cs \<and> isdigit c"
proof (induction n rule: decimal.induct)
  case (1 n)
  then show ?case using digit_props [of n] by (cases "n < 10") (auto simp: decimal.simps [of n])
qed

lemma decimal_digits: "c \<in> set (decimal n) \<Longrightarrow> isdigit c"
proof (induction n rule: decimal.induct)
  case (1 n)
  then show ?case using digit_props [of n] digit_props [of "n mod 10"] by (cases "n < 10") (auto simp: decimal.simps [of n])
qed

lemma length_decimal: "n < 10 ^ Suc k \<Longrightarrow> length (decimal n) \<le> Suc k"
proof (induction k arbitrary: n)
  case (Suc k)
  then have "n div 10 < 10 ^ Suc k" by (simp add: less_mult_imp_div_less mult.commute)
  then show ?case using Suc.IH [of "n div 10"] by (cases "n < 10") (simp_all add: decimal.simps [of n])
qed (simp add: decimal.simps)

lemma json_value_text:
  assumes "r \<noteq> []" "\<not> isdigit (hd r)"
  shows "json_value (jtext v @ r) = Some (v, r)"
proof (cases v)
  case (JStr s)
  then show ?thesis by (simp add: json_value_def jenc_def json_scan_encs)
next
  case (JNum n)
  obtain c cs where d: "decimal n = c # cs" "isdigit c" using decimal_nonempty by blast
  have "scan_num 0 (decimal n @ r) = (n, r)" using assms by (cases r) (simp_all add: scan_num_decimal)
  moreover have "c \<noteq> QT" using d(2) by (auto simp: isdigit_def)
  ultimately show ?thesis using d by (simp add: json_value_def JNum)
qed

lemma json_members_text:
  "ms \<noteq> [] \<Longrightarrow> length ms \<le> k \<Longrightarrow> list_all (\<lambda>(key, v). jenc key = key) ms \<Longrightarrow>
   json_members k (jmembers ms @ CHR ''}'' # r) = Some (ms, r)"
proof (induction ms arbitrary: k)
  case (Cons m ms)
  obtain key v where m: "m = (key, v)" by fastforce
  obtain k' where k: "k = Suc k'" using Cons.prems(2) by (cases k) auto
  have key: "json_scan (key @ QT # t) = Some (key, t)" for t
    using Cons.prems(3) json_scan_encs [of key t] by (simp add: m jenc_def)
  have nd: "\<not> isdigit (CHR '','')" "\<not> isdigit (CHR ''}'')" by (simp_all add: isdigit_def)
  show ?case
  proof (cases "ms = []")
    case True
    then show ?thesis using json_value_text [of "CHR ''}'' # r" v] nd by (simp add: m k key)
  next
    case False
    then show ?thesis
      using json_value_text [of "CHR '','' # jmembers ms @ CHR ''}'' # r" v] nd Cons.IH [of k'] Cons.prems
      by (simp add: m k key)
  qed
qed simp

lemma length_jmembers: "length ms \<le> length (jmembers ms)"
  by (induction ms rule: jmembers.induct) auto

lemma json_object_text:
  assumes "ms \<noteq> []" "list_all (\<lambda>(key, v). jenc key = key) ms"
  shows "json_object (jobject ms @ r) = Some (ms, r)"
  using json_members_text [OF assms(1) _ assms(2), of "length (jmembers ms @ CHR ''}'' # r)"] length_jmembers [of ms]
  by (simp add: json_object_def jobject_def)

text \<open>Text without quotes, backslashes and control characters is its own encoding.\<close>

lemma plain_enc: "list_all (\<lambda>c. json_rep c = None) s \<Longrightarrow> jenc s = s"
  by (induction s) (simp_all add: jenc_def json_enc_def)

lemma enc_no_LF: "LF \<notin> set (jenc s)"
proof -
  have h: "LF \<noteq> hexd n" if "n < 16" for n using less_16_cases [OF that] by (auto simp: hexd_def)
  then have "LF \<notin> set (hex2 n)" if "n < 32" for n
    using that h [of "n div 16"] h [of "n mod 16"] by (simp add: hex2_def)
  then have "LF \<notin> set (json_enc c)" for c
    by (auto simp: json_enc_def json_rep_def)
  then show ?thesis by (auto simp: jenc_def)
qed

lemma jobject_no_LF: "list_all (\<lambda>(k, v). LF \<notin> set k) ms \<Longrightarrow> LF \<notin> set (jobject ms)"
proof -
  have "LF \<notin> set (jtext v)" for v
    using decimal_digits [of LF] enc_no_LF by (cases v) (auto simp: isdigit_def)
  then show "list_all (\<lambda>(k, v). LF \<notin> set k) ms \<Longrightarrow> LF \<notin> set (jobject ms)"
    unfolding jobject_def by (induction ms rule: jmembers.induct) auto
qed

section \<open>Every line is a complete JSON object\<close>

text \<open>A string field shows a text escaped into \<open>n\<close> bytes: a prefix of it, and all of it if it fits.\<close>

definition text_of :: "nat \<Rightarrow> string \<Rightarrow> jval \<Rightarrow> bool" where
  "text_of n s v = (case v of
     JStr t \<Rightarrow> t = take (length t) (cstr s) \<and> (if length (jenc (cstr s)) + 1 < n then t = cstr s else True)
   | JNum _ \<Rightarrow> False)"

definition status_schema :: "nat \<Rightarrow> at_engine \<Rightarrow> (string \<times> (jval \<Rightarrow> bool)) list" where
  "status_schema pid e =
     [(''type'', \<lambda>v. v = JStr ''status''), (''state'', \<lambda>v. v = JStr (state_name (e_state e))),
      (''iface'', text_of 32 (at_utun_name (e_utun e))), (''ip'', text_of 64 (ni_ip (e_net e))),
      (''gateway'', text_of 64 (ni_gateway (e_net e))), (''dns'', text_of 160 (ni_dns (e_net e))),
      (''mac'', \<lambda>v. v = JStr (mac_text (e_host_mac e))), (''error'', text_of 512 (strlcpy 256 (e_error e))),
      (''rx_bytes'', \<lambda>v. v = JNum (unat (e_rx_bytes e))), (''tx_bytes'', \<lambda>v. v = JNum (unat (e_tx_bytes e))),
      (''rx_frames'', \<lambda>v. v = JNum (unat (e_rx_frames e))), (''tx_frames'', \<lambda>v. v = JNum (unat (e_tx_frames e))),
      (''rx_errors'', \<lambda>v. v = JNum (unat (e_rx_errors e))), (''tx_errors'', \<lambda>v. v = JNum (unat (e_tx_errors e))),
      (''pid'', \<lambda>v. v = JNum pid), (''link_mbps'', \<lambda>v. v = JNum (unat (e_link_mbps e))), (''mtu'', \<lambda>v. v = JNum 1500)]"

definition device_schema :: "at_usb_device_info \<Rightarrow> (string \<times> (jval \<Rightarrow> bool)) list" where
  "device_schema d =
     [(''type'', \<lambda>v. v = JStr ''device''), (''vid'', \<lambda>v. v = JNum (unat (di_vid d))), (''pid'', \<lambda>v. v = JNum (unat (di_pid d))),
      (''location'', \<lambda>v. v = JNum (unat (di_location_id d))), (''name'', text_of 256 (di_name d)),
      (''vendor'', text_of 256 (di_vendor d)), (''serial'', text_of 128 (di_serial d)),
      (''kind'', \<lambda>v. v = JStr (kind_name (di_kind d))), (''control'', \<lambda>v. v = JNum (unat (di_control_ifc d))),
      (''data'', \<lambda>v. v = JNum (unat (di_data_ifc d)))]"

definition fits_schema :: "(string \<times> (jval \<Rightarrow> bool)) list \<Rightarrow> (string \<times> jval) list \<Rightarrow> bool" where
  "fits_schema ss fs \<longleftrightarrow> list_all2 (\<lambda>(k, P) (k', v). k = k' \<and> P v) ss fs"

lemma escaped_text:
  assumes "0 < n"
  obtains t where "escaped n s = Some (jenc t)" "text_of n s (JStr t)" "length (jenc t) < n"
proof -
  have "length ([] :: string) < length (replicate n NUL)" "take (length ([] :: string)) (replicate n NUL) = []"
    using assms by simp_all
  from json_loop_spec [OF this, of s] obtain m rc rest where l:
    "json_loop s 0 (replicate n NUL) = Some (rc, jenc (take m (cstr s)) @ NUL # rest)"
    "length (jenc (take m (cstr s)) @ NUL # rest) = n"
    "rc = (if cstr s = [] \<or> length (jenc (cstr s)) + 1 < n then 0 else -1)"
    "if rc = 0 then m = length (cstr s) else m < length (cstr s)" by (auto simp: jenc_def)
  have "NUL \<notin> set (cstr s)" by (auto simp: cstr_def dest: set_takeWhileD)
  then have "NUL \<notin> set (take m (cstr s))" by (auto dest: in_set_takeD)
  then have nn: "NUL \<notin> set (jenc (take m (cstr s)))" unfolding jenc_def by (rule json_encs_not_NUL)
  have e: "at_json_escape (Some s) (replicate n NUL) = Some (rc, jenc (take m (cstr s)) @ NUL # rest)"
    using assms l(1) by (simp add: at_json_escape_def)
  show thesis
    by (rule that [of "take m (cstr s)"]) (use e l nn in \<open>auto simp: escaped_def text_of_def split: if_splits\<close>)
qed

lemma hexd_plain: "n < 16 \<Longrightarrow> json_rep (hexd n) = None"
  by (drule less_16_cases) (auto simp: hexd_def json_rep_def)

lemma mac_plain: "list_all (\<lambda>c. json_rep c = None) (mac_text mac)"
proof -
  have h: "list_all (\<lambda>c. json_rep c = None) (hex2 (unat (b :: byte)))" for b
    using unat_byte_less [of b] by (simp add: hex2_def hexd_plain)
  have "json_rep CHR '':'' = None" by (simp add: json_rep_def)
  then show ?thesis using h by (simp add: mac_text_def)
qed

lemma mac_enc: "jenc (mac_text mac) = mac_text mac"
  by (rule plain_enc [OF mac_plain])

lemma mac_field_text: "mac_field mac = Some (mac_text mac)"
proof -
  have "json_rep NUL \<noteq> None" by (simp add: json_rep_def)
  then have "NUL \<notin> set (mac_text mac)" using mac_plain [of mac] by (auto simp: list_all_iff)
  then show ?thesis by (simp add: mac_field_def at_mac_format_def store_bytes_def splice_at_def)
qed

lemma name_enc: "jenc (state_name st) = state_name st" "jenc (kind_name k) = kind_name k" "jenc (level_name l) = level_name l"
  by (cases st; cases k; cases l; simp add: jenc_def json_enc_def json_rep_def)+

lemma engine_line_text:
  assumes "length (e_host_mac e) = 6"
  obtains fs where "engine_line pid (Some e) = Some (jobject fs)" "fits_schema (status_schema pid e) fs"
    "pid < 10 ^ Suc 9 \<Longrightarrow> length (jobject fs) < 2046"
proof -
  obtain ip where ip: "escaped 64 (ni_ip (e_net e)) = Some (jenc ip)" "text_of 64 (ni_ip (e_net e)) (JStr ip)" "length (jenc ip) < 64"
    using escaped_text [of 64] by auto
  obtain gw where gw: "escaped 64 (ni_gateway (e_net e)) = Some (jenc gw)" "text_of 64 (ni_gateway (e_net e)) (JStr gw)" "length (jenc gw) < 64"
    using escaped_text [of 64] by auto
  obtain dns where dns: "escaped 160 (ni_dns (e_net e)) = Some (jenc dns)" "text_of 160 (ni_dns (e_net e)) (JStr dns)" "length (jenc dns) < 160"
    using escaped_text [of 160] by auto
  obtain ifc where ifc: "escaped 32 (at_utun_name (e_utun e)) = Some (jenc ifc)" "text_of 32 (at_utun_name (e_utun e)) (JStr ifc)"
    "length (jenc ifc) < 32" using escaped_text [of 32] by auto
  obtain err where err: "escaped 512 (strlcpy 256 (e_error e)) = Some (jenc err)" "text_of 512 (strlcpy 256 (e_error e)) (JStr err)"
    "length (jenc err) < 512" using escaped_text [of 512] by auto
  let ?n = "\<lambda>w :: u64. JNum (unat w)"
  let ?fs = "[(''type'', JStr ''status''), (''state'', JStr (state_name (e_state e))), (''iface'', JStr ifc), (''ip'', JStr ip),
    (''gateway'', JStr gw), (''dns'', JStr dns), (''mac'', JStr (mac_text (e_host_mac e))), (''error'', JStr err),
    (''rx_bytes'', ?n (e_rx_bytes e)), (''tx_bytes'', ?n (e_tx_bytes e)), (''rx_frames'', ?n (e_rx_frames e)),
    (''tx_frames'', ?n (e_tx_frames e)), (''rx_errors'', ?n (e_rx_errors e)), (''tx_errors'', ?n (e_tx_errors e)),
    (''pid'', JNum pid), (''link_mbps'', JNum (unat (e_link_mbps e))), (''mtu'', JNum 1500)]"
  have st: "jenc ''status'' = ''status''" by (simp add: jenc_def json_enc_def json_rep_def)
  have mtu: "decimal 1500 = ''1500''" by code_simp
  show thesis
  proof (rule that [of ?fs])
    show "engine_line pid (Some e) = Some (jobject ?fs)"
      using assms by (simp add: engine_line_def at_engine_mac_def load_bytes_def at_engine_net_def at_engine_iface_def
        at_engine_error_def at_engine_stats_def at_engine_state_def at_engine_link_mbps_def Let_def mac_field_text
        ip(1) gw(1) dns(1) ifc(1) err(1) jobject_def name_enc mac_enc st mtu)
    show "fits_schema (status_schema pid e) ?fs"
      using ip(2) gw(2) dns(2) ifc(2) err(2) by (simp add: fits_schema_def status_schema_def)
    have d: "length (decimal (unat (w :: u64))) \<le> 20" for w
      using length_decimal [of "unat w" 19] unat_u64_less [of w] by simp
    have l: "length (decimal (unat (e_link_mbps e))) \<le> 10"
      using length_decimal [of "unat (e_link_mbps e)" 9] unat_u32_less [of "e_link_mbps e"] by simp
    have s: "length (state_name (e_state e)) \<le> 10" by (cases "e_state e") simp_all
    show "length (jobject ?fs) < 2046" if "pid < 10 ^ Suc 9"
      using length_decimal [OF that] d [of "e_rx_bytes e"] d [of "e_tx_bytes e"] d [of "e_rx_frames e"] d [of "e_tx_frames e"]
        d [of "e_rx_errors e"] d [of "e_tx_errors e"] l s ip(3) gw(3) dns(3) ifc(3) err(3)
      by (simp add: jobject_def name_enc mac_enc st mtu)
  qed
qed

lemma schema_keys: "fits_schema ss fs \<Longrightarrow> map fst fs = map fst ss"
  unfolding fits_schema_def by (induction rule: list_all2_induct) auto

text \<open>The keys of the schemas are plain text.\<close>

definition plain_keys :: "string list \<Rightarrow> bool" where
  "plain_keys ks \<longleftrightarrow> list_all (\<lambda>k. jenc k = k \<and> LF \<notin> set k) ks"

lemma schema_plain: "plain_keys (map fst (status_schema pid e))" "plain_keys (map fst (device_schema d))"
  by (simp_all add: plain_keys_def status_schema_def device_schema_def jenc_def json_enc_def json_rep_def)

lemma object_reads:
  assumes "plain_keys (map fst fs)" "fs \<noteq> []"
  shows "json_object (jobject fs) = Some (fs, '''')" "LF \<notin> set (jobject fs)"
proof -
  have "list_all (\<lambda>(k, v). jenc k = k) fs" "list_all (\<lambda>(k, v). LF \<notin> set k) fs"
    using assms(1) by (auto simp: plain_keys_def list_all_iff)
  then show "json_object (jobject fs) = Some (fs, '''')" "LF \<notin> set (jobject fs)"
    using json_object_text [OF assms(2), of "''''"] jobject_no_LF by simp_all
qed

text \<open>One line put on the channel: completely, or, after an error, a proper part of it.\<close>

definition line_out :: "string \<Rightarrow> int \<Rightarrow> chan \<Rightarrow> chan \<Rightarrow> bool" where
  "line_out s rc c c' \<longleftrightarrow>
     ch_fd c' = ch_fd c \<and> (\<exists>out. ch_calls c' = ch_calls c @ SWrite (ch_fd c) out # (if ch_fd c = 1 then [SFlush] else []) \<and>
       (if rc = 0 then out = s @ [LF] else rc = -1 \<and> (\<exists>k \<le> length s. out = take k (s @ [LF]))))"

lemma emit_line:
  assumes "LF \<notin> set s" "length s < 2046" "0 \<le> ch_fd c" "2046 \<le> length (filter (\<lambda>w. w \<noteq> WIntr) (ch_ws c))"
  obtains rc c' where "at_status_emit s c = Some (rc, c')" "line_out s rc c c'"
proof -
  have line: "(if s = '''' \<or> last s \<noteq> LF then s @ [LF] else s) = s @ [LF]"
    using assms(1) last_in_set [of s] by (auto simp del: last_in_set)
  have "length (s @ [LF]) \<le> length (filter (\<lambda>w. w \<noteq> WIntr) (ch_ws c))" using assms(2,4) by simp
  then obtain rc out ws where w: "write_all (ch_ws c) (s @ [LF]) = Some (rc, out, ws)"
    using write_all_returns by fastforce
  let ?c = "scall (SWrite (ch_fd c) out) (c\<lparr>ch_ws := ws\<rparr>)"
  have e: "at_status_emit s c = Some (rc, if ch_fd c = 1 then scall SFlush ?c else ?c)"
    using assms(2,3) line w by (simp add: at_status_emit_def strlcpy_def Let_def scall_def)
  have "(if rc = 0 then out = s @ [LF] else rc = -1 \<and> (\<exists>k \<le> length s. out = take k (s @ [LF])))"
  proof (cases "rc = 0")
    case False
    then obtain x rest where o: "rc = -1" "s @ [LF] = out @ x # rest" using write_all_prefix [OF w] by auto
    have "length (s @ [LF]) = length (out @ x # rest)" by (simp only: o(2))
    then have "length out \<le> length s" by simp
    moreover have "out = take (length out) (s @ [LF])" by (simp add: o(2))
    ultimately show ?thesis using o(1) by auto
  qed (use write_all_prefix [OF w] in auto)
  then have "line_out s rc c (if ch_fd c = 1 then scall SFlush ?c else ?c)" by (simp add: line_out_def scall_def)
  with e show thesis by (rule that)
qed

text \<open>
  C38: the status report. For every state of the engine, and when the writes go on making progress, the
  report returns and has put exactly one line on the channel: a JSON object without line breaks that a
  reader takes apart into the seventeen fields of the protocol, with their types, the state, the counters
  and the MAC as they are and every text a prefix of the real one (all of it if it fits its buffer).
  If a write fails, a part of this line is out and the error is reported.
\<close>

theorem status_report:
  assumes "length (e_host_mac e) = 6" "pid < 10 ^ 10" "0 \<le> ch_fd c"
    "2046 \<le> length (filter (\<lambda>w. w \<noteq> WIntr) (ch_ws c))"
  shows "\<exists>fs rc c'. at_status_engine pid (Some e) c = Some (rc, c') \<and> line_out (jobject fs) rc c c' \<and>
    fits_schema (status_schema pid e) fs \<and> json_object (jobject fs) = Some (fs, '''') \<and> LF \<notin> set (jobject fs)"
proof -
  have "pid < 10 ^ Suc 9" using assms(2) by simp
  then obtain fs where fs: "engine_line pid (Some e) = Some (jobject fs)" "fits_schema (status_schema pid e) fs"
    "length (jobject fs) < 2046" using engine_line_text [OF assms(1), of pid] by blast
  have "plain_keys (map fst fs)" using schema_keys [OF fs(2)] schema_plain(1) by simp
  moreover have "fs \<noteq> []" using fs(2) by (auto simp: fits_schema_def status_schema_def)
  ultimately have o: "json_object (jobject fs) = Some (fs, '''')" "LF \<notin> set (jobject fs)" by (rule object_reads)+
  obtain rc c' where "at_status_emit (jobject fs) c = Some (rc, c')" "line_out (jobject fs) rc c c'"
    using emit_line [OF o(2) fs(3) assms(3,4)] by blast
  then show ?thesis using fs(1,2) o by (intro exI [of _ fs] exI [of _ rc] exI [of _ c']) (simp add: at_status_engine_def)
qed

theorem status_report_witness:
  "\<exists>fs rc c'. at_status_engine 42 (Some engine_zero) \<lparr>ch_fd = 5, ch_calls = [], ch_ws = replicate 2046 (Wrote 1)\<rparr> = Some (rc, c') \<and>
     line_out (jobject fs) rc \<lparr>ch_fd = 5, ch_calls = [], ch_ws = replicate 2046 (Wrote 1)\<rparr> c' \<and>
     fits_schema (status_schema 42 engine_zero) fs \<and> json_object (jobject fs) = Some (fs, '''') \<and> LF \<notin> set (jobject fs)"
  by (rule status_report) (simp_all add: engine_zero_def filter_replicate)

section \<open>The device list\<close>

lemma device_line_text:
  obtains fs where "device_line d = Some (jobject fs)" "fits_schema (device_schema d) fs" "length (jobject fs) < 2046"
proof -
  obtain name where name: "escaped 256 (di_name d) = Some (jenc name)" "text_of 256 (di_name d) (JStr name)" "length (jenc name) < 256"
    using escaped_text [of 256] by auto
  obtain vendor where vendor: "escaped 256 (di_vendor d) = Some (jenc vendor)" "text_of 256 (di_vendor d) (JStr vendor)"
    "length (jenc vendor) < 256" using escaped_text [of 256] by auto
  obtain serial where serial: "escaped 128 (di_serial d) = Some (jenc serial)" "text_of 128 (di_serial d) (JStr serial)"
    "length (jenc serial) < 128" using escaped_text [of 128] by auto
  let ?fs = "[(''type'', JStr ''device''), (''vid'', JNum (unat (di_vid d))), (''pid'', JNum (unat (di_pid d))),
    (''location'', JNum (unat (di_location_id d))), (''name'', JStr name), (''vendor'', JStr vendor), (''serial'', JStr serial),
    (''kind'', JStr (kind_name (di_kind d))), (''control'', JNum (unat (di_control_ifc d))), (''data'', JNum (unat (di_data_ifc d)))]"
  have ty: "jenc ''device'' = ''device''" by (simp add: jenc_def json_enc_def json_rep_def)
  show thesis
  proof (rule that [of ?fs])
    show "device_line d = Some (jobject ?fs)"
      by (simp add: device_line_def name(1) vendor(1) serial(1) jobject_def name_enc ty)
    show "fits_schema (device_schema d) ?fs"
      using name(2) vendor(2) serial(2) by (simp add: fits_schema_def device_schema_def)
    have "length (decimal (unat (w :: u16))) \<le> 5" for w
      using length_decimal [of "unat w" 4] unat_u16_less [of w] by simp
    moreover have "length (decimal (unat (b :: byte))) \<le> 3" for b
      using length_decimal [of "unat b" 2] unat_byte_less [of b] by simp
    moreover have "length (decimal (unat (di_location_id d))) \<le> 10"
      using length_decimal [of "unat (di_location_id d)" 9] unat_u32_less [of "di_location_id d"] by simp
    moreover have "length (kind_name (di_kind d)) \<le> 7" by (cases "di_kind d") simp_all
    ultimately have "length (decimal (unat (di_vid d))) \<le> 5" "length (decimal (unat (di_pid d))) \<le> 5"
      "length (decimal (unat (di_location_id d))) \<le> 10" "length (decimal (unat (di_control_ifc d))) \<le> 3"
      "length (decimal (unat (di_data_ifc d))) \<le> 3" "length (kind_name (di_kind d)) \<le> 7" by blast+
    then show "length (jobject ?fs) < 2046"
      using name(3) vendor(3) serial(3) by (simp add: jobject_def name_enc ty)
  qed
qed

text \<open>What the reader receives, and a channel whose next \<open>k\<close> writes take a whole line.\<close>

definition received :: "chan \<Rightarrow> string" where
  "received c = concat (map (\<lambda>k. case k of SWrite fd s \<Rightarrow> s | _ \<Rightarrow> '''') (ch_calls c))"

definition ready :: "nat \<Rightarrow> chan \<Rightarrow> bool" where
  "ready k c \<longleftrightarrow> 0 \<le> ch_fd c \<and> take k (ch_ws c) = replicate k (Wrote 2046)"

lemma emit_ready:
  assumes "LF \<notin> set s" "length s < 2046" "ready (Suc k) c"
  obtains c' where "at_status_emit s c = Some (0, c')" "ready k c'" "received c' = received c @ s @ [LF]"
proof -
  have line: "(if s = '''' \<or> last s \<noteq> LF then s @ [LF] else s) = s @ [LF]"
    using assms(1) last_in_set [of s] by (auto simp del: last_in_set)
  obtain ws where ws: "ch_ws c = Wrote 2046 # ws" "take k ws = replicate k (Wrote 2046)"
    using assms(3) by (cases "ch_ws c") (auto simp: ready_def)
  obtain b bs where b: "s @ [LF] = b # bs" by (cases "s @ [LF]") auto
  have "length (b # bs) \<le> 2046" using assms(2) b by (metis Suc_leI length_append_singleton)
  then have w: "write_all (ch_ws c) (s @ [LF]) = Some (0, s @ [LF], ws)" by (simp add: ws(1) b)
  let ?c = "scall (SWrite (ch_fd c) (s @ [LF])) (c\<lparr>ch_ws := ws\<rparr>)"
  show thesis
    by (rule that [of "if ch_fd c = 1 then scall SFlush ?c else ?c"])
      (use assms line w ws(2) in \<open>simp_all add: at_status_emit_def strlcpy_def Let_def scall_def ready_def received_def\<close>)
qed

lemma devices_loop_out:
  "ready (length ds + k) c \<Longrightarrow> \<exists>fss c'. devices_loop ds c = Some c' \<and> ready k c' \<and>
     list_all2 (\<lambda>d fs. fits_schema (device_schema d) fs) ds fss \<and>
     received c' = received c @ concat (map (\<lambda>fs. jobject fs @ [LF]) fss)"
proof (induction ds arbitrary: c)
  case (Cons d ds)
  obtain fs where fs: "device_line d = Some (jobject fs)" "fits_schema (device_schema d) fs" "length (jobject fs) < 2046"
    by (rule device_line_text)
  have "LF \<notin> set (jobject fs)"
    using object_reads(2) [of fs] schema_keys [OF fs(2)] schema_plain(2) fs(2)
    by (auto simp: fits_schema_def device_schema_def)
  moreover have "ready (Suc (length ds + k)) c" using Cons.prems by simp
  ultimately obtain c1 where c1: "at_status_emit (jobject fs) c = Some (0, c1)" "ready (length ds + k) c1"
      "received c1 = received c @ jobject fs @ [LF]" using emit_ready [OF _ fs(3)] by blast
  obtain fss c' where r: "devices_loop ds c1 = Some c'" "ready k c'" "list_all2 (\<lambda>d fs. fits_schema (device_schema d) fs) ds fss"
      "received c' = received c1 @ concat (map (\<lambda>fs. jobject fs @ [LF]) fss)" using Cons.IH [OF c1(2)] by blast
  show ?case
    by (rule exI [of _ "fs # fss"], rule exI [of _ c']) (use fs c1 r in simp)
qed (auto intro!: exI [of _ "[]"])

text \<open>
  The device list as the app reads it: a line that announces the number of devices, for each device
  in order one complete JSON object with its ids, its interfaces and its texts, and a closing line.
\<close>

theorem device_list:
  assumes "ready (length ds + 2) c" "length ds < 10 ^ 10"
  shows "\<exists>fss c'. at_status_devices ds c = Some c' \<and>
    received c' = received c @ jobject [(''type'', JStr ''devices_begin''), (''count'', JNum (length ds))] @ [LF] @
      concat (map (\<lambda>fs. jobject fs @ [LF]) fss) @ jobject [(''type'', JStr ''devices_end'')] @ [LF] \<and>
    list_all2 (\<lambda>d fs. fits_schema (device_schema d) fs) ds fss \<and>
    list_all (\<lambda>fs. json_object (jobject fs) = Some (fs, '''') \<and> LF \<notin> set (jobject fs)) fss"
proof -
  let ?b = "jobject [(''type'', JStr ''devices_begin''), (''count'', JNum (length ds))]"
  let ?e = "jobject [(''type'', JStr ''devices_end'')]"
  have enc: "jenc ''devices_begin'' = ''devices_begin''" "jenc ''devices_end'' = ''devices_end''"
    by (simp_all add: jenc_def json_enc_def json_rep_def)
  have "plain_keys [''type'', ''count'']" by (simp add: plain_keys_def jenc_def json_enc_def json_rep_def)
  then have lf: "LF \<notin> set ?b" "LF \<notin> set ?e"
    using object_reads(2) [of "[(''type'', JStr ''devices_begin''), (''count'', JNum (length ds))]"]
      object_reads(2) [of "[(''type'', JStr ''devices_end'')]"] by (simp_all add: plain_keys_def)
  have len: "length ?b < 2046" "length ?e < 2046"
    using length_decimal [of "length ds" 9] assms(2) by (simp_all add: jobject_def enc)
  have "ready (Suc (length ds + 1)) c" using assms(1) by simp
  then obtain c1 where c1: "at_status_emit ?b c = Some (0, c1)" "ready (length ds + 1) c1" "received c1 = received c @ ?b @ [LF]"
    using emit_ready [OF lf(1) len(1)] by blast
  obtain fss c2 where c2: "devices_loop ds c1 = Some c2" "ready 1 c2" "list_all2 (\<lambda>d fs. fits_schema (device_schema d) fs) ds fss"
      "received c2 = received c1 @ concat (map (\<lambda>fs. jobject fs @ [LF]) fss)" using devices_loop_out [OF c1(2)] by blast
  have "ready (Suc 0) c2" using c2(2) by simp
  then obtain c3 where c3: "at_status_emit ?e c2 = Some (0, c3)" "received c3 = received c2 @ ?e @ [LF]"
    using emit_ready [OF lf(2) len(2)] by blast
  have reads: "list_all (\<lambda>fs. json_object (jobject fs) = Some (fs, '''') \<and> LF \<notin> set (jobject fs)) fss"
    unfolding list_all_length
  proof (intro allI impI)
    fix i assume "i < length fss"
    then have f: "fits_schema (device_schema (ds ! i)) (fss ! i)" using c2(3) by (simp add: list_all2_conv_all_nth)
    then have "plain_keys (map fst (fss ! i))" "fss ! i \<noteq> []"
      using schema_keys [OF f] schema_plain(2) by (auto simp: fits_schema_def device_schema_def)
    then show "json_object (jobject (fss ! i)) = Some (fss ! i, '''') \<and> LF \<notin> set (jobject (fss ! i))"
      using object_reads by blast
  qed
  have b: "?b = ''{\"type\":\"devices_begin\",\"count\":'' @ decimal (length ds) @ ''}''" and e: "?e = ''{\"type\":\"devices_end\"}''"
    by (simp_all add: jobject_def enc)
  have "at_status_devices ds c = Some c3"
    unfolding at_status_devices_def b [symmetric] e [symmetric] c1(1) using c2(1) c3(1) by simp
  then show ?thesis using c1(3) c2(3,4) c3(2) reads by (intro exI [of _ fss] exI [of _ c3]) simp
qed

text \<open>A device without texts.\<close>

definition plain_device :: at_usb_device_info where
  "plain_device = \<lparr>di_vid = 0x18D1, di_pid = 0x4EE3, di_location_id = 1, di_name = '''', di_vendor = '''', di_serial = '''',
     di_kind = AT_KIND_RNDIS, di_control_ifc = 0, di_data_ifc = 1\<rparr>"

theorem device_list_witness:
  "\<exists>fss c'. at_status_devices [plain_device] \<lparr>ch_fd = 1, ch_calls = [], ch_ws = replicate 3 (Wrote 2046)\<rparr> = Some c' \<and>
     list_all2 (\<lambda>d fs. fits_schema (device_schema d) fs) [plain_device] fss"
  using device_list [of "[plain_device]" "\<lparr>ch_fd = 1, ch_calls = [], ch_ws = replicate 3 (Wrote 2046)\<rparr>"]
  by (auto simp: ready_def numeral_3_eq_3)

end
