(* ===== verification/EngineMain.thy ===== *)
theory EngineMain
  imports JsonStatus NetParse
begin

text \<open>
  The command line program, \<open>engine/src/main.c\<close>: arguments, the device list, the choice of the device and
  the session with its status channel. The registry, the results of the system calls and what the threads
  of the engine do between two looks at it are arguments.
\<close>

abbreviation (input) AT_MAX_DEVICES :: int where "AT_MAX_DEVICES \<equiv> 32"

section \<open>Numbers on the command line\<close>

text \<open>\<open>strtoul\<close> of the C library, with \<open>unsigned long\<close> of 64 bits, for base 0 and 16.\<close>

definition digit_val :: "char \<Rightarrow> nat option" where
  "digit_val c =
     (let n = of_char c :: nat in
      if 48 \<le> n \<and> n \<le> 57 then Some (n - 48)
      else if 97 \<le> n \<and> n \<le> 122 then Some (n - 87)
      else if 65 \<le> n \<and> n \<le> 90 then Some (n - 55) else None)"

fun scan_digits :: "nat \<Rightarrow> nat \<Rightarrow> string \<Rightarrow> nat" where
  "scan_digits base acc [] = acc"
| "scan_digits base acc (c # cs) =
     (case digit_val c of None \<Rightarrow> acc
      | Some d \<Rightarrow> if d < base then scan_digits base (acc * base + d) cs else acc)"

definition has_hex_prefix :: "string \<Rightarrow> bool" where
  "has_hex_prefix s = (case s of z # x # d # _ \<Rightarrow> z = CHR ''0'' \<and> (x = CHR ''x'' \<or> x = CHR ''X'') \<and>
     (case digit_val d of Some v \<Rightarrow> v < 16 | None \<Rightarrow> False) | _ \<Rightarrow> False)"

definition strtoul :: "nat \<Rightarrow> string \<Rightarrow> u64" where
  "strtoul base s =
     (let s = dropWhile isspace s;
          neg = (s \<noteq> '''' \<and> hd s = CHR ''-'');
          s = (if s \<noteq> '''' \<and> (hd s = CHR ''-'' \<or> hd s = CHR ''+'') then tl s else s);
          hex = ((base = 0 \<or> base = 16) \<and> has_hex_prefix s);
          base = (if base \<noteq> 0 then base else if hex then 16 else if s \<noteq> '''' \<and> hd s = CHR ''0'' then 8 else 10);
          n = scan_digits base 0 (if hex then drop 2 s else s)
      in if n \<ge> 2 ^ 64 then - 1 else if neg then - of_nat n else of_nat n)"

section \<open>Arguments\<close>

record opts =
  o_json :: bool
  o_default_route :: bool
  o_filter :: bool
  o_socket :: string
  o_want :: at_usb_device_info
  o_cmd :: "string option"

definition info_zero :: at_usb_device_info where
  "info_zero = \<lparr>di_vid = 0, di_pid = 0, di_location_id = 0, di_name = '''', di_vendor = '''', di_serial = '''',
     di_kind = AT_KIND_UNKNOWN, di_control_ifc = 0, di_data_ifc = 0\<rparr>"

definition opts_zero :: opts where
  "opts_zero = \<lparr>o_json = False, o_default_route = False, o_filter = False, o_socket = '''', o_want = info_zero, o_cmd = None\<rparr>"

definition take_arg :: "nat \<Rightarrow> string list \<Rightarrow> (string \<times> string list) option" where
  "take_arg out_len rest = (case rest of [] \<Rightarrow> None | x # rest \<Rightarrow> Some (strlcpy out_len x, rest))"

lemma take_arg_length: "take_arg n rest = Some (x, rest') \<Longrightarrow> length rest' < length rest"
  by (auto simp: take_arg_def split: list.splits)

text \<open>The comparisons of an argument with the option names, in their order.\<close>

datatype arg_kind = ArgJson | ArgLocation | ArgVid | ArgPid | ArgSerial | ArgSocket | ArgDefaultRoute | ArgVersion
  | ArgHelp | ArgWord | ArgUnknown

definition classify_arg :: "string \<Rightarrow> arg_kind" where
  "classify_arg a =
     (if a = ''--json'' \<or> a = ''-j'' then ArgJson
      else if a = ''--location'' \<or> a = ''-L'' then ArgLocation
      else if a = ''--vid'' \<or> a = ''-v'' then ArgVid
      else if a = ''--pid'' \<or> a = ''-p'' then ArgPid
      else if a = ''--serial'' \<or> a = ''-s'' then ArgSerial
      else if a = ''--socket'' \<or> a = ''-S'' then ArgSocket
      else if a = ''--default-route'' \<or> a = ''-R'' then ArgDefaultRoute
      else if a = ''--version'' \<or> a = ''-V'' then ArgVersion
      else if a = ''--help'' \<or> a = ''-h'' then ArgHelp
      else if a = '''' \<or> hd a \<noteq> CHR ''-'' then ArgWord
      else ArgUnknown)"

text \<open>One option that takes a value, and the size of the array the value is copied to.\<close>

definition set_value :: "arg_kind \<Rightarrow> string \<Rightarrow> opts \<Rightarrow> opts" where
  "set_value k tmp p =
     (case k of
        ArgLocation \<Rightarrow> p\<lparr>o_want := (o_want p)\<lparr>di_location_id := ucast (strtoul 0 tmp)\<rparr>, o_filter := True\<rparr>
      | ArgVid \<Rightarrow> p\<lparr>o_want := (o_want p)\<lparr>di_vid := ucast (strtoul 16 tmp)\<rparr>, o_filter := True\<rparr>
      | ArgPid \<Rightarrow> p\<lparr>o_want := (o_want p)\<lparr>di_pid := ucast (strtoul 16 tmp)\<rparr>, o_filter := True\<rparr>
      | ArgSerial \<Rightarrow> p\<lparr>o_want := (o_want p)\<lparr>di_serial := tmp\<rparr>, o_filter := True\<rparr>
      | ArgSocket \<Rightarrow> p\<lparr>o_socket := tmp\<rparr>
      | _ \<Rightarrow> p)"

definition value_size :: "arg_kind \<Rightarrow> nat" where
  "value_size k = (case k of ArgLocation \<Rightarrow> 32 | ArgVid \<Rightarrow> 16 | ArgPid \<Rightarrow> 16 | ArgSerial \<Rightarrow> 64 | _ \<Rightarrow> 512)"

text \<open>The loop over the arguments: the exit code of an early return, or the options.\<close>

function parse_args :: "string list \<Rightarrow> opts \<Rightarrow> int + opts" where
  "parse_args [] p = Inr p"
| "parse_args (a # rest) p =
     (let k = classify_arg a in
      if k = ArgJson then parse_args rest (p\<lparr>o_json := True\<rparr>)
      else if k = ArgDefaultRoute then parse_args rest (p\<lparr>o_default_route := True\<rparr>)
      else if k = ArgVersion \<or> k = ArgHelp then Inl 0
      else if k = ArgWord \<and> o_cmd p = None then parse_args rest (p\<lparr>o_cmd := Some a\<rparr>)
      else if k = ArgWord \<or> k = ArgUnknown then Inl 2
      else case take_arg (value_size k) rest of None \<Rightarrow> Inl 2
           | Some (tmp, rest') \<Rightarrow> parse_args rest' (set_value k tmp p))"
  by pat_completeness auto
termination
  by (relation "measure (length \<circ> fst)") (auto dest: take_arg_length)

section \<open>Choosing the device\<close>

definition passes :: "bool \<Rightarrow> at_usb_device_info \<Rightarrow> at_usb_device_info \<Rightarrow> bool" where
  "passes have_filter want d =
     (if have_filter then
        (let ok = True;
             ok = (if di_location_id want \<noteq> 0 \<and> di_location_id d \<noteq> di_location_id want then False else ok);
             ok = (if di_vid want \<noteq> 0 \<and> di_vid d \<noteq> di_vid want then False else ok);
             ok = (if di_pid want \<noteq> 0 \<and> di_pid d \<noteq> di_pid want then False else ok);
             ok = (if di_serial want \<noteq> '''' \<and> di_serial want \<noteq> di_serial d then False else ok)
         in ok)
      else True)"

fun pick_loop :: "bool \<Rightarrow> at_usb_device_info \<Rightarrow> at_usb_device_info list \<Rightarrow> at_usb_device_info option \<Rightarrow> at_usb_device_info option" where
  "pick_loop have_filter want [] chosen = chosen"
| "pick_loop have_filter want (d # ds) chosen =
     (if \<not> passes have_filter want d then pick_loop have_filter want ds chosen
      else if di_kind d = AT_KIND_RNDIS then Some d
      else pick_loop have_filter want ds (if chosen = None then Some d else chosen))"

definition pick_device :: "reg_device list option \<Rightarrow> bool \<Rightarrow> at_usb_device_info \<Rightarrow> int \<times> at_usb_device_info" where
  "pick_device it have_filter want =
     (case at_usb_list_devices it AT_MAX_DEVICES of (rc, devs) \<Rightarrow>
        if rc \<noteq> 0 then (-1, want) else
        case pick_loop have_filter want devs None of None \<Rightarrow> (-1, want) | Some d \<Rightarrow> (0, d))"

section \<open>The program's state\<close>

text \<open>
  The channel, whether it is the logger, the name of the pid file (\<open>''''\<close>: none), what was done to pid
  files, and the printed lines of a device list in plain text.
\<close>

datatype file_call = FWrite string | FUnlink string

datatype printed = PNoDevices | PHeader | PDevice at_usb_device_info string

record mstate =
  m_chan :: chan
  m_logger :: bool
  m_pidfile :: string
  m_files :: "file_call list"
  m_out :: "printed list"

definition mlog :: "at_log_level \<Rightarrow> string \<Rightarrow> mstate \<Rightarrow> mstate option" where
  "mlog level msg m = map_option (\<lambda>c. m\<lparr>m_chan := c\<rparr>) (at_log (m_logger m) level msg (m_chan m))"

definition unlink_pidfile :: "mstate \<Rightarrow> mstate" where
  "unlink_pidfile m =
     (if m_pidfile m \<noteq> '''' then m\<lparr>m_files := m_files m @ [FUnlink (m_pidfile m)], m_pidfile := ''''\<rparr> else m)"

text \<open>\<open>ok\<close>: whether \<open>fopen\<close> succeeds.\<close>

definition write_pidfile :: "nat \<Rightarrow> bool \<Rightarrow> string option \<Rightarrow> mstate \<Rightarrow> mstate option" where
  "write_pidfile pid ok path m =
     (case path of None \<Rightarrow> Some m
      | Some path \<Rightarrow>
          if path = '''' then Some m else
          let m = m\<lparr>m_pidfile := strlcpy 512 (path @ ''.pid'')\<rparr> in
          if \<not> ok then map_option (\<lambda>m. m\<lparr>m_pidfile := ''''\<rparr>)
            (mlog AT_LOG_WARN (''Failed to create PID file ('' @ m_pidfile m @ '')'') m)
          else mlog AT_LOG_INFO (''Engine PID '' @ decimal pid @ '' ('' @ m_pidfile m @ '')'')
            (m\<lparr>m_files := m_files m @ [FWrite (m_pidfile m)]\<rparr>))"

section \<open>The list command\<close>

definition print_device :: "at_usb_device_info \<Rightarrow> printed" where
  "print_device d = PDevice d (if di_kind d = AT_KIND_RNDIS then ''rndis'' else ''android'')"

definition cmd_list :: "reg_device list option \<Rightarrow> bool \<Rightarrow> mstate \<Rightarrow> (int \<times> mstate) option" where
  "cmd_list it json_mode m =
     (case at_usb_list_devices it AT_MAX_DEVICES of (rc, devs) \<Rightarrow>
        if rc \<noteq> 0 then map_option (Pair 1) (mlog AT_LOG_ERROR ''Failed to list USB devices'' m)
        else if json_mode then map_option (\<lambda>c. (0, m\<lparr>m_chan := c\<rparr>)) (at_status_devices devs (m_chan m))
        else if devs = [] then Some (0, m\<lparr>m_out := m_out m @ [PNoDevices]\<rparr>)
        else Some (0, m\<lparr>m_out := m_out m @ PHeader # map print_device devs\<rparr>))"

section \<open>A session\<close>

text \<open>
  A round of the loop: a signal that arrived before it, what the threads did to the engine before the
  status report and between the report and the look at the state, what they logged, and what \<open>recv\<close> gave,
  with the bytes the stack buffer held before (\<open>strncmp\<close> may look past the received ones).
\<close>

datatype recv_result = RecvNothing | RecvClosed | RecvError | RecvData string

record tick =
  tk_signal :: bool
  tk_run :: "at_engine \<Rightarrow> at_engine"
  tk_logs :: "(at_log_level \<times> string) list"
  tk_more :: "at_engine \<Rightarrow> at_engine"
  tk_recv :: recv_result
  tk_stale :: string

fun thread_logs :: "(at_log_level \<times> string) list \<Rightarrow> mstate \<Rightarrow> mstate option" where
  "thread_logs [] m = Some m"
| "thread_logs ((l, s) # ls) m = mlog l s m \<bind> thread_logs ls"

definition wants_stop :: "tick \<Rightarrow> string \<Rightarrow> bool" where
  "wants_stop t d \<longleftrightarrow> d \<noteq> '''' \<and> take 4 (take 64 d @ drop (length (take 64 d)) (tk_stale t)) = ''stop''"

text \<open>The loop; the flag of the result tells whether it has ended.\<close>

fun serve :: "nat \<Rightarrow> tick list \<Rightarrow> at_engine \<Rightarrow> mstate \<Rightarrow> (bool \<times> at_engine \<times> mstate) option" where
  "serve pid [] e m = Some (False, e, m)"
| "serve pid (t # ts) e m =
     (if tk_signal t then Some (True, e, m) else do {
        m \<leftarrow> thread_logs (tk_logs t) m;
        (let e = tk_run t e in do {
           (rc, c) \<leftarrow> at_status_engine pid (Some e) (m_chan m);
           (let m = m\<lparr>m_chan := c\<rparr> in
            if rc \<noteq> 0 then map_option (\<lambda>m. (True, e, m)) (mlog AT_LOG_INFO ''GUI disconnected; stopping the engine'' m) else
            let e = tk_more t e in
            if at_engine_state (Some e) = AT_STATE_ERROR then Some (True, e, m) else
            let sfd = at_status_fd (m_chan m) in
            if sfd > 0 \<and> sfd \<noteq> 1 then
              (case tk_recv t of
                 RecvClosed \<Rightarrow> map_option (\<lambda>m. (True, e, m)) (mlog AT_LOG_INFO ''GUI disconnected; stopping the engine'' m)
               | RecvData d \<Rightarrow> if wants_stop t d then Some (True, e, m) else serve pid ts e m
               | _ \<Rightarrow> serve pid ts e m)
            else serve pid ts e m) }) })"

definition idle_line :: string where
  \<open>idle_line = ''{"type":"status","state":"idle"}''\<close>

definition no_device_line :: string where
  \<open>no_device_line = ''{"type":"status","state":"error","error":"no rndis device"}''\<close>

definition not_enabled_line :: string where
  \<open>not_enabled_line = ''{"type":"status","state":"error","error":"tethering not enabled"}''\<close>

definition error_line :: "string \<Rightarrow> string option" where
  \<open>error_line err = map_option (\<lambda>esc. ''{"type":"status","state":"error","error":"'' @ esc @ ''"}'') (escaped 512 err)\<close>

text \<open>The last line on the channel, closing it, and removing the pid file.\<close>

definition finish :: "string \<Rightarrow> mstate \<Rightarrow> mstate option" where
  "finish line m = do {
     (rc, c) \<leftarrow> at_status_emit line (m_chan m);
     Some (unlink_pidfile (m\<lparr>m_chan := at_status_close c\<rparr>)) }"

record connect_env =
  ce_pid :: nat
  ce_fd :: int
  ce_conn :: "nat \<Rightarrow> bool"
  ce_fopen :: bool
  ce_registry :: "reg_device list option"
  ce_start :: start_env
  ce_start_logs :: "(at_log_level \<times> string) list"
  ce_ticks :: "tick list"
  ce_stop_logs :: "(at_log_level \<times> string) list"
  ce_gone :: bool

text \<open>
  The exit code, the program's state, and the engine: as it was started, as it was when the loop ended, and
  as it is at the end. \<open>None\<close>: undefined behaviour, or the program is still running.
\<close>

definition connect_engine ::
  "connect_env \<Rightarrow> at_engine \<Rightarrow> mstate \<Rightarrow> (int \<times> mstate \<times> at_engine) option" where
  "connect_engine v e m = do {
     (ended, e, m) \<leftarrow> serve (ce_pid v) (ce_ticks v) e m;
     (if \<not> ended then None else
      let failed = (at_engine_state (Some e) = AT_STATE_ERROR); err = strlcpy 256 (at_engine_error (Some e)) in do {
        m \<leftarrow> mlog AT_LOG_INFO ''Stopping tether'' m;
        (let e = at_engine_stop (ce_gone v) e in do {
           m \<leftarrow> thread_logs (ce_stop_logs v) m;
           line \<leftarrow> (if failed then error_line err else Some idle_line);
           m \<leftarrow> finish line m;
           Some (if failed then 1 else 0, m, e) }) }) }"

definition cmd_connect ::
  "connect_env \<Rightarrow> bool \<Rightarrow> at_usb_device_info \<Rightarrow> bool \<Rightarrow> string option \<Rightarrow> mstate \<Rightarrow> (int \<times> mstate \<times> at_engine option) option" where
  "cmd_connect v have_filter want default_route path m =
     (case at_status_open (ce_fd v) (ce_conn v) path (m_chan m) of (rc, c) \<Rightarrow>
        let m = m\<lparr>m_chan := c\<rparr> in
        if rc \<noteq> 0 then map_option (\<lambda>m. (1, m, None)) (mlog AT_LOG_ERROR ''Could not open the status channel'' m) else do {
          m \<leftarrow> write_pidfile (ce_pid v) (ce_fopen v) path m;
          (let m = m\<lparr>m_logger := True\<rparr>; (rc, want) = pick_device (ce_registry v) have_filter want in
           if rc \<noteq> 0 then do {
             m \<leftarrow> mlog AT_LOG_ERROR ''No RNDIS device to connect. Turn on USB tethering.'' m;
             map_option (\<lambda>m. (1, m, None)) (finish no_device_line m) }
           else if di_kind want \<noteq> AT_KIND_RNDIS then do {
             m \<leftarrow> mlog AT_LOG_ERROR ''The device is not in RNDIS mode. Enable USB tethering on the phone.'' m;
             map_option (\<lambda>m. (1, m, None)) (finish not_enabled_line m) }
           else do {
             m \<leftarrow> mlog AT_LOG_INFO (''Connecting to '' @ di_name want @ '' ('' @ hex4 (di_vid want) @ '':'' @ hex4 (di_pid want) @ '')'') m;
             (err, e, final) \<leftarrow> at_engine_start (ce_start v) (Some default_route);
             m \<leftarrow> thread_logs (ce_start_logs v) m;
             (case e of
                None \<Rightarrow> do { line \<leftarrow> error_line err; map_option (\<lambda>m. (1, m, final)) (finish line m) }
              | Some e \<Rightarrow> map_option (\<lambda>(rc, m, e). (rc, m, Some e)) (connect_engine v e m)) }) })"

text \<open>\<open>restore\<close>: what it asks of the network layer, beside its log line.\<close>

definition cmd_restore :: "mstate \<Rightarrow> (int \<times> mstate \<times> ext_call list) option" where
  "cmd_restore m = map_option (\<lambda>m. (0, m, [EndSession, RestoreWifi])) (mlog AT_LOG_INFO ''Restoring leftover tether session'' m)"

text \<open>
  \<open>main\<close>: the exit code, the state, the engine at the end and the network calls of \<open>restore\<close>; usage and
  version texts are left out.
\<close>

definition main_cmd :: "connect_env \<Rightarrow> string list \<Rightarrow> mstate \<Rightarrow> (int \<times> mstate \<times> at_engine option \<times> ext_call list) option" where
  "main_cmd v args m =
     (case parse_args args opts_zero of Inl rc \<Rightarrow> Some (rc, m, None, [])
      | Inr p \<Rightarrow>
          (let cmd = (case o_cmd p of None \<Rightarrow> ''list'' | Some c \<Rightarrow> c) in
           if cmd = ''list'' then
             let c = (if o_socket p \<noteq> '''' then snd (at_status_open (ce_fd v) (ce_conn v) (Some (o_socket p)) (m_chan m))
                      else if o_json p then snd (at_status_open (ce_fd v) (ce_conn v) None (m_chan m)) else m_chan m)
             in map_option (\<lambda>(rc, m). (rc, m, None, []))
                  (cmd_list (ce_registry v) (o_json p \<or> o_socket p \<noteq> '''') (m\<lparr>m_chan := c\<rparr>))
           else if cmd = ''connect'' then
             map_option (\<lambda>(rc, m, e). (rc, m, e, []))
               (cmd_connect v (o_filter p) (o_want p) (o_default_route p) (if o_socket p \<noteq> '''' then Some (o_socket p) else None) m)
           else if cmd = ''restore'' then map_option (\<lambda>(rc, m, ks). (rc, m, None, ks)) (cmd_restore m)
           else if cmd = ''help'' then Some (0, m, None, [])
           else Some (2, m, None, [])))"

section \<open>The device that is chosen is the one that is opened\<close>

lemma pick_loop_eq:
  "pick_loop hf want ds chosen =
     (case find (\<lambda>d. passes hf want d \<and> di_kind d = AT_KIND_RNDIS) ds of
        Some d \<Rightarrow> Some d
      | None \<Rightarrow> (case chosen of Some c \<Rightarrow> Some c | None \<Rightarrow> find (passes hf want) ds))"
  by (induction ds arbitrary: chosen) (auto split: option.splits)

lemma find_loop_location:
  assumes "svc \<in> set svcs" "di_location_id (fill_device_info svc) \<noteq> 0" "distinct (map (di_location_id \<circ> fill_device_info) svcs)"
  shows "find_loop (fill_device_info svc) svcs = Some svc"
  using assms(1,3)
proof (induction svcs)
  case (Cons s svcs)
  show ?case
  proof (cases "s = svc")
    case False
    then have "svc \<in> set svcs" using Cons.prems(1) by simp
    moreover from this have "di_location_id (fill_device_info s) \<noteq> di_location_id (fill_device_info svc)"
      using Cons.prems(2) by force
    ultimately show ?thesis using Cons assms(2) by (auto simp: service_matches_def)
  qed (use assms(2) in \<open>simp add: service_matches_def\<close>)
qed simp

text \<open>
  C39: the device that is chosen is one of the listed ones and fits the filter; it is in RNDIS mode if any
  device that fits is; and, since every attached device has a location of its own, opening it finds exactly
  this device in the registry. Nothing is chosen only if no listed device fits.
\<close>

theorem picked_is_opened:
  fixes svcs :: "reg_device list" and hf :: bool and want :: at_usb_device_info
  assumes "distinct (map (di_location_id \<circ> fill_device_info) svcs)" "\<forall>svc \<in> set svcs. di_location_id (fill_device_info svc) \<noteq> 0"
  defines "fitting \<equiv> filter (passes hf want) (snd (at_usb_list_devices (Some svcs) 32))"
  shows "case pick_device (Some svcs) hf want of (rc, d) \<Rightarrow>
    if fitting = [] then rc = -1 \<and> d = want
    else rc = 0 \<and> d \<in> set fitting \<and> (di_kind d = AT_KIND_RNDIS) = (\<exists>d' \<in> set fitting. di_kind d' = AT_KIND_RNDIS) \<and>
      (\<exists>svc. find_service (Some svcs) d = Some svc \<and> fill_device_info svc = d)"
proof -
  define devs where "devs = snd (at_usb_list_devices (Some svcs) 32)"
  have l: "at_usb_list_devices (Some svcs) 32 = (0, devs)" by (simp add: devs_def at_usb_list_devices_def)
  have f: "fitting = filter (passes hf want) devs" by (simp add: fitting_def devs_def)
  have devs: "set devs \<subseteq> fill_device_info ` set svcs"
    using set_take_subset by (fastforce simp: devs_def at_usb_list_devices_def list_loop_eq)
  have found: "\<exists>svc. find_service (Some svcs) d = Some svc \<and> fill_device_info svc = d" if "d \<in> set devs" for d
  proof -
    have "d \<in> fill_device_info ` set svcs" using devs that by blast
    then obtain svc where "svc \<in> set svcs" "d = fill_device_info svc" by blast
    then show ?thesis using find_loop_location [OF _ _ assms(1)] assms(2) by (auto simp: find_service_def)
  qed
  show ?thesis
  proof (cases "find (\<lambda>d. passes hf want d \<and> di_kind d = AT_KIND_RNDIS) devs")
    case (Some d)
    have "d \<in> set devs" "passes hf want d" "di_kind d = AT_KIND_RNDIS" using Some by (auto simp: find_Some_iff)
    moreover have "pick_device (Some svcs) hf want = (0, d)" by (simp add: pick_device_def l pick_loop_eq Some)
    ultimately show ?thesis using found by (auto simp: f filter_empty_conv)
  next
    case no: None
    then have n: "\<not> (\<exists>d \<in> set devs. passes hf want d \<and> di_kind d = AT_KIND_RNDIS)" by (auto simp: find_None_iff)
    show ?thesis
    proof (cases "find (passes hf want) devs")
      case None
      have "pick_device (Some svcs) hf want = (-1, want)" by (simp add: pick_device_def l pick_loop_eq no None)
      moreover have "fitting = []" using None by (auto simp: f filter_empty_conv find_None_iff)
      ultimately show ?thesis by simp
    next
      case (Some d)
      have "d \<in> set devs" "passes hf want d" using Some by (auto simp: find_Some_iff)
      moreover have "pick_device (Some svcs) hf want = (0, d)" by (simp add: pick_device_def l pick_loop_eq no Some)
      ultimately show ?thesis using found n by (auto simp: f filter_empty_conv)
    qed
  qed
qed

theorem picked_is_opened_witness:
  "case pick_device (Some [sample_phone]) False info_zero of (rc, d) \<Rightarrow>
     if filter (passes False info_zero) (snd (at_usb_list_devices (Some [sample_phone]) 32)) = [] then rc = -1 \<and> d = info_zero
     else rc = 0 \<and> d \<in> set (filter (passes False info_zero) (snd (at_usb_list_devices (Some [sample_phone]) 32))) \<and>
       (di_kind d = AT_KIND_RNDIS) = (\<exists>d' \<in> set (filter (passes False info_zero) (snd (at_usb_list_devices (Some [sample_phone]) 32))).
          di_kind d' = AT_KIND_RNDIS) \<and>
       (\<exists>svc. find_service (Some [sample_phone]) d = Some svc \<and> fill_device_info svc = d)"
  by (rule picked_is_opened) (simp_all add: sample_phone_info)

section \<open>The helper's command line\<close>

lemma digit_val_digit: "d < 10 \<Longrightarrow> digit_val (digit d) = Some d"
  by (simp add: digit_val_def digit_def Let_def)

lemma scan_digits_decimal: "scan_digits 10 acc (decimal n @ r) = scan_digits 10 (acc * 10 ^ length (decimal n) + n) r"
proof (induction n arbitrary: r acc rule: decimal.induct)
  case (1 n)
  show ?case
  proof (cases "n < 10")
    case True
    then show ?thesis by (simp add: decimal.simps [of n] digit_val_digit)
  next
    case False
    have d: "decimal n = decimal (n div 10) @ [digit (n mod 10)]" using False by (simp add: decimal.simps [of n])
    have "(acc * 10 ^ length (decimal (n div 10)) + n div 10) * 10 + n mod 10 = acc * 10 ^ length (decimal n) + n"
      unfolding d by simp
    then show ?thesis using "1.IH" [OF False] unfolding d append_assoc
      by (simp only: append.simps scan_digits.simps digit_val_digit [of "n mod 10"] option.case if_True) simp
  qed
qed

lemma decimal_head: "0 < n \<Longrightarrow> decimal n \<noteq> '''' \<and> hd (decimal n) \<noteq> CHR ''0''"
proof (induction n rule: decimal.induct)
  case (1 n)
  have "digit n \<noteq> CHR ''0''" if "n < 10"
  proof
    assume "digit n = CHR ''0''"
    then have "of_char (digit n) = (48 :: nat)" by simp
    then show False using "1.prems" that by (simp add: digit_def)
  qed
  then show ?case using "1.IH" by (cases "n < 10") (auto simp: decimal.simps [of n] hd_append)
qed

lemma strtoul_decimal:
  assumes "n < 2 ^ 64"
  shows "strtoul 0 (decimal n) = of_nat n"
proof (cases "n = 0")
  case True
  have "decimal 0 = ''0''" by code_simp
  then show ?thesis using True
    by (simp add: strtoul_def isspace_def has_hex_prefix_def Let_def digit_val_def)
next
  case False
  obtain c cs where d: "decimal n = c # cs" "isdigit c" using decimal_nonempty by blast
  have "c \<noteq> CHR ''0''" using decimal_head [of n] False d by simp
  moreover have "\<not> isspace c" "c \<noteq> CHR ''-''" "c \<noteq> CHR ''+''" using d(2) by (auto simp: isdigit_def isspace_def)
  ultimately show ?thesis
    using assms scan_digits_decimal [of 0 n "[]"] by (simp add: strtoul_def has_hex_prefix_def Let_def d(1) split: list.split)
qed

text \<open>How the privileged helper starts the program (\<open>helper/HelperMain.swift\<close>).\<close>

definition helper_args :: "string \<Rightarrow> nat \<Rightarrow> bool \<Rightarrow> string list" where
  "helper_args path loc default_route =
     [''--socket'', path, ''connect'', ''--location'', decimal loc] @ (if default_route then [''--default-route''] else [])"

text \<open>
  C40: the request of the helper arrives unchanged: for every location, socket path and choice of the
  default route, the arguments the helper builds make the program connect to exactly this location.
\<close>

theorem helper_request:
  assumes "loc < 2 ^ 32" "path \<noteq> ''''" "length path < 512"
  shows "main_cmd v (helper_args path loc default_route) m =
    map_option (\<lambda>(rc, m, e). (rc, m, e, []))
      (cmd_connect v True (info_zero\<lparr>di_location_id := of_nat loc\<rparr>) default_route (Some path) m)"
proof -
  have len: "length (decimal loc) \<le> 10" using length_decimal [of loc 9] assms(1) by simp
  have n: "strtoul 0 (strlcpy 32 (decimal loc)) = of_nat loc" using len assms(1) strtoul_decimal [of loc] by (simp add: strlcpy_def)
  have w: "strlcpy 512 path = path" using assms(3) by (simp add: strlcpy_def)
  have k: "classify_arg ''--socket'' = ArgSocket" "classify_arg ''connect'' = ArgWord" "classify_arg ''--location'' = ArgLocation"
    "classify_arg ''--default-route'' = ArgDefaultRoute" by (simp_all add: classify_arg_def)
  have u0: "ucast w = (of_nat (unat w) :: u32)" for w :: u64 by simp
  have v: "unat (of_nat loc :: u64) = loc" using assms(1) by (simp add: unat_of_nat)
  have u: "ucast (of_nat loc :: u64) = (of_nat loc :: u32)" 
    using u0 [of "of_nat loc"] unfolding v .
  have "parse_args (helper_args path loc default_route) opts_zero =
      Inr (opts_zero\<lparr>o_socket := path, o_cmd := Some ''connect'', o_want := info_zero\<lparr>di_location_id := of_nat loc\<rparr>,
        o_filter := True, o_default_route := default_route\<rparr>)"
    by (simp add: helper_args_def k take_arg_def set_value_def value_size_def n w u opts_zero_def)
  then show ?thesis using assms(2) by (simp add: main_cmd_def opts_zero_def)
qed

theorem helper_request_witness:
  "\<forall>v m. main_cmd v (helper_args ''/tmp/x.sock'' 0x14100000 True) m =
    map_option (\<lambda>(rc, m, e). (rc, m, e, []))
      (cmd_connect v True (info_zero\<lparr>di_location_id := of_nat 0x14100000\<rparr>) True (Some ''/tmp/x.sock'') m)"
  by (intro allI, rule helper_request) simp_all

section \<open>How a session ends\<close>

text \<open>The last line tells the outcome, then the channel is closed.\<close>

definition last_word :: "int \<Rightarrow> mstate \<Rightarrow> bool" where
  "last_word code m \<longleftrightarrow> (\<exists>c c' rc line fs. at_status_emit line c = Some (rc, c') \<and> m_chan m = at_status_close c' \<and>
     json_object line = Some (fs, '''') \<and> map_of fs ''type'' = Some (JStr ''status'') \<and>
     map_of fs ''state'' = Some (JStr (if code = 0 then ''idle'' else ''error'')))"

definition says :: "int \<Rightarrow> string \<Rightarrow> bool" where
  "says code line \<longleftrightarrow> (\<exists>fs. json_object line = Some (fs, '''') \<and> map_of fs ''type'' = Some (JStr ''status'') \<and>
     map_of fs ''state'' = Some (JStr (if code = 0 then ''idle'' else ''error'')))"

lemma says_object: "plain_keys (map fst fs) \<Longrightarrow> map_of fs ''type'' = Some (JStr ''status'') \<Longrightarrow>
  map_of fs ''state'' = Some (JStr (if code = 0 then ''idle'' else ''error'')) \<Longrightarrow> says code (jobject fs)"
  unfolding says_def using object_reads(1) [of fs] by fastforce

lemma plain_texts: "jenc ''status'' = ''status''" "jenc ''idle'' = ''idle''" "jenc ''error'' = ''error''"
  "jenc ''no rndis device'' = ''no rndis device''" "jenc ''tethering not enabled'' = ''tethering not enabled''"
  "plain_keys [''type'', ''state'']" "plain_keys [''type'', ''state'', ''error'']"
  by (simp_all add: jenc_def json_enc_def json_rep_def plain_keys_def)

lemma line_says: "says 0 idle_line" "says 1 no_device_line" "says 1 not_enabled_line" "error_line err = Some line \<Longrightarrow> says 1 line"
proof -
  have e: "says 1 (jobject [(''type'', JStr ''status''), (''state'', JStr ''error''), (''error'', JStr t)])" for t
    by (rule says_object) (simp_all add: plain_texts)
  have "jobject [(''type'', JStr ''status''), (''state'', JStr ''idle'')] = idle_line"
    by (simp add: jobject_def plain_texts idle_line_def)
  moreover have "says 0 (jobject [(''type'', JStr ''status''), (''state'', JStr ''idle'')])"
    by (rule says_object) (simp_all add: plain_texts)
  ultimately show "says 0 idle_line" by simp
  show "says 1 no_device_line" using e [of "''no rndis device''"] by (simp add: jobject_def plain_texts no_device_line_def)
  show "says 1 not_enabled_line" using e [of "''tethering not enabled''"] by (simp add: jobject_def plain_texts not_enabled_line_def)
  obtain t where "escaped 512 err = Some (jenc t)" using escaped_text [of 512 err] by (metis zero_less_numeral)
  then show "says 1 line" if "error_line err = Some line" using e [of t] that by (simp add: jobject_def plain_texts error_line_def)
qed

lemma finish_end:
  assumes "finish line m = Some m'" "says code line"
  shows "last_word code m' \<and> m_pidfile m' = [] \<and>
    m_files m' = m_files m @ (if m_pidfile m = [] then [] else [FUnlink (m_pidfile m)])"
proof -
  obtain rc c where c: "at_status_emit line (m_chan m) = Some (rc, c)"
    and m': "m' = unlink_pidfile (m\<lparr>m_chan := at_status_close c\<rparr>)"
    using assms(1) by (auto simp: finish_def bind_eq_Some_conv)
  have u: "m_chan (unlink_pidfile n) = m_chan n" "m_pidfile (unlink_pidfile n) = []"
    "m_files (unlink_pidfile n) = m_files n @ (if m_pidfile n = [] then [] else [FUnlink (m_pidfile n)])" for n
    by (simp_all add: unlink_pidfile_def)
  have "last_word code m'" using assms(2) c m' u(1) unfolding last_word_def says_def by fastforce
  then show ?thesis using m' u by simp
qed

definition same_files :: "mstate \<Rightarrow> mstate \<Rightarrow> bool" where
  "same_files m m' \<longleftrightarrow> m_pidfile m' = m_pidfile m \<and> m_files m' = m_files m"

lemma same_files_trans: "same_files a b \<Longrightarrow> same_files b c \<Longrightarrow> same_files a c"
  by (simp add: same_files_def)

lemma mlog_files: "mlog l s m = Some m' \<Longrightarrow> same_files m m'"
  by (auto simp: mlog_def same_files_def)

lemma thread_logs_files: "thread_logs ls m = Some m' \<Longrightarrow> same_files m m'"
proof (induction ls m arbitrary: m' rule: thread_logs.induct)
  case (2 l s ls m)
  then show ?case by (auto simp: bind_eq_Some_conv dest: mlog_files intro: same_files_trans)
qed (simp add: same_files_def)

lemma serve_files: "serve pid ts e m = Some (ended, e', m') \<Longrightarrow> same_files m m'"
proof (induction pid ts e m arbitrary: ended e' m' rule: serve.induct)
  case (1 pid e m)
  then show ?case by (simp add: same_files_def)
next
  case (2 pid t ts e m)
  show ?case
  proof (cases "tk_signal t")
    case True
    then show ?thesis using "2.prems" by (simp add: same_files_def)
  next
    case False
    then obtain m1 rc c where m1: "thread_logs (tk_logs t) m = Some m1"
      and c: "at_status_engine pid (Some (tk_run t e)) (m_chan m1) = Some (rc, c)"
      using "2.prems" by (auto simp: bind_eq_Some_conv Let_def)
    let ?m = "m1\<lparr>m_chan := c\<rparr>"
    have f: "same_files m ?m" using thread_logs_files [OF m1] by (simp add: same_files_def)
    have "same_files ?m m'"
      using "2.prems" False m1 c "2.IH" [OF False m1 refl c refl refl]
      by (auto simp: Let_def same_files_def dest!: mlog_files split: if_splits recv_result.splits)
    with f show ?thesis by (rule same_files_trans)
  qed
qed

lemma at_engine_start_shape:
  assumes "at_engine_start v opts = Some (err, e, final)"
  shows "case e of Some e \<Rightarrow> final = Some e | None \<Rightarrow> final = None \<or> (\<exists>e1. final = Some (at_engine_stop (st_gone v) e1))"
  using assms by (auto simp: at_engine_start_def fail_start_def Let_def bind_eq_Some_conv split: option.splits if_splits)

definition session_end :: "int \<Rightarrow> mstate \<Rightarrow> mstate \<Rightarrow> bool" where
  "session_end code m m' \<longleftrightarrow> last_word code m' \<and> m_pidfile m' = '''' \<and>
     m_files m' = m_files m @ (if m_pidfile m = '''' then [] else [FUnlink (m_pidfile m)])"

lemma finish_session: "same_files m0 m \<Longrightarrow> finish line m = Some m' \<Longrightarrow> says code line \<Longrightarrow> session_end code m0 m'"
  using finish_end [of line m m' code] by (simp add: session_end_def same_files_def)

lemma connect_engine_end:
  assumes "connect_engine v e m = Some (code, m', e')"
  shows "session_end code m m' \<and> code \<in> {0, 1} \<and>
    (\<exists>e1. e' = at_engine_stop (ce_gone v) e1 \<and> (code = 1) = (e_state e1 = AT_STATE_ERROR))"
proof -
  obtain e1 m1 m2 m3 line where s: "serve (ce_pid v) (ce_ticks v) e m = Some (True, e1, m1)"
    "mlog AT_LOG_INFO ''Stopping tether'' m1 = Some m2" "thread_logs (ce_stop_logs v) m2 = Some m3"
    "(if e_state e1 = AT_STATE_ERROR then error_line (strlcpy 256 (at_engine_error (Some e1))) else Some idle_line) = Some line"
    "finish line m3 = Some m'" "code = (if e_state e1 = AT_STATE_ERROR then 1 else 0)" "e' = at_engine_stop (ce_gone v) e1"
    using assms by (auto simp: connect_engine_def at_engine_state_def bind_eq_Some_conv Let_def split: if_splits)
  have "same_files m m3" using serve_files [OF s(1)] mlog_files [OF s(2)] thread_logs_files [OF s(3)] same_files_trans by blast
  moreover have "says code line" using s(4,6) line_says by (auto split: if_splits)
  ultimately have "session_end code m m'" using finish_session s(5) by blast
  then show ?thesis using s(6,7) by auto
qed

definition engine_cleaned :: "connect_env \<Rightarrow> int \<Rightarrow> at_engine option \<Rightarrow> bool" where
  "engine_cleaned v code eng \<longleftrightarrow> (case eng of None \<Rightarrow> code = 1
     | Some e \<Rightarrow> \<exists>gone e1. e = at_engine_stop gone e1 \<and> (code = 1 \<or> e_state e1 \<noteq> AT_STATE_ERROR))"

lemma write_pidfile_end:
  assumes "write_pidfile pid ok path m = Some m'" "m_pidfile m = ''''"
  shows "m_files m' = m_files m @ (if m_pidfile m' = '''' then [] else [FWrite (m_pidfile m')])"
  using assms by (auto simp: write_pidfile_def Let_def same_files_def strlcpy_def dest!: mlog_files split: option.splits if_splits)

lemma connect_opened:
  assumes "write_pidfile (ce_pid v) (ce_fopen v) path m0 = Some m" "m_pidfile m0 = ''''"
    and "session_end code (m\<lparr>m_logger := True\<rparr>) m'"
  shows "last_word code m' \<and> m_pidfile m' = '''' \<and>
    (m_files m' = m_files m0 \<or> (\<exists>p. m_files m' = m_files m0 @ [FWrite p, FUnlink p]))"
  using write_pidfile_end [OF assms(1,2)] assms(3) by (auto simp: session_end_def split: if_splits)

lemma connect_after_open:
  assumes "cmd_connect v hf want dr path m = Some (code, m', eng)" "at_status_open (ce_fd v) (ce_conn v) path (m_chan m) = (0, c)"
  shows "\<exists>m1. write_pidfile (ce_pid v) (ce_fopen v) path (m\<lparr>m_chan := c\<rparr>) = Some m1 \<and>
    session_end code (m1\<lparr>m_logger := True\<rparr>) m' \<and> code \<in> {0, 1} \<and> engine_cleaned v code eng"
proof -
  obtain m1 where m1: "write_pidfile (ce_pid v) (ce_fopen v) path (m\<lparr>m_chan := c\<rparr>) = Some m1"
    using assms by (auto simp: cmd_connect_def Let_def bind_eq_Some_conv)
  let ?m = "m1\<lparr>m_logger := True\<rparr>"
  obtain rc d where d: "pick_device (ce_registry v) hf want = (rc, d)" by fastforce
  note ends = finish_session [of ?m, OF mlog_files] line_says(2,3)
  show ?thesis
  proof (cases "rc \<noteq> 0 \<or> di_kind d \<noteq> AT_KIND_RNDIS")
    case True
    then have "session_end code ?m m' \<and> code = 1 \<and> eng = None"
      using assms m1 d ends by (auto simp: cmd_connect_def Let_def bind_eq_Some_conv split: if_splits)
    then show ?thesis using m1 by (auto simp: engine_cleaned_def)
  next
    case False
    then obtain ma err e final mb where st: "at_engine_start (ce_start v) (Some dr) = Some (err, e, final)"
      "thread_logs (ce_start_logs v) ma = Some mb" "same_files ?m ma"
      and r: "(case e of None \<Rightarrow> error_line err \<bind> (\<lambda>line. map_option (\<lambda>m. (1, m, final)) (finish line mb))
         | Some e \<Rightarrow> map_option (\<lambda>(rc, m, e). (rc, m, Some e)) (connect_engine v e mb)) = Some (code, m', eng)"
      using assms m1 d mlog_files by (auto simp: cmd_connect_def Let_def bind_eq_Some_conv)
    have f: "same_files ?m mb" using st(2,3) thread_logs_files same_files_trans by blast
    have "session_end code ?m m' \<and> code \<in> {0, 1} \<and> engine_cleaned v code eng"
    proof (cases e)
      case None
      then obtain line where "error_line err = Some line" "finish line mb = Some m'" "code = 1" "eng = final"
        using r by (auto simp: bind_eq_Some_conv)
      then show ?thesis using finish_session [OF f] line_says(4) at_engine_start_shape [OF st(1)] None
        by (auto simp: engine_cleaned_def split: option.splits)
    next
      case (Some e0)
      then obtain e1 where "connect_engine v e0 mb = Some (code, m', e1)" "eng = Some e1" using r by auto
      then show ?thesis using connect_engine_end [of v e0 mb] f
        by (auto simp: engine_cleaned_def session_end_def same_files_def)
    qed
    then show ?thesis using m1 by blast
  qed
qed


definition sample_env :: connect_env where
  "sample_env = \<lparr>ce_pid = 501, ce_fd = 3, ce_conn = (\<lambda>_. True), ce_fopen = True, ce_registry = Some [sample_phone],
     ce_start = good_start\<lparr>st_txq := None\<rparr>, ce_start_logs = [], ce_ticks = [], ce_stop_logs = [], ce_gone = False\<rparr>"

definition sample_main :: mstate where
  "sample_main = \<lparr>m_chan = \<lparr>ch_fd = -1, ch_calls = [], ch_ws = replicate 3 (Wrote 200)\<rparr>, m_logger = False, m_pidfile = '''',
     m_files = [], m_out = []\<rparr>"

definition sample_hello :: string where
  "sample_hello = ''Connecting to '' @ di_name (fill_device_info sample_phone) @ '' ('' @
     hex4 (di_vid (fill_device_info sample_phone)) @ '':'' @ hex4 (di_pid (fill_device_info sample_phone)) @ '')''"

definition sample_opened :: mstate where
  "sample_opened = sample_main\<lparr>m_chan := set_status_fd 1 (m_chan sample_main), m_logger := True\<rparr>"

definition sample_error :: string where
  \<open>sample_error = ''{"type":"status","state":"error","error":"Could not allocate the transmit buffer"}''\<close>

lemma sample_end: "case mlog AT_LOG_INFO sample_hello sample_opened of None \<Rightarrow> False
  | Some m \<Rightarrow> (case finish sample_error m of None \<Rightarrow> False | Some m' \<Rightarrow> True)"
  by code_simp

lemma sample_connect: "\<exists>m' e1. cmd_connect sample_env False info_zero True None sample_main = Some (1, m', Some (at_engine_stop False e1))"
proof -
  obtain m1 m' where m: "mlog AT_LOG_INFO sample_hello sample_opened = Some m1" "finish sample_error m1 = Some m'"
    using sample_end by (auto split: option.splits)
  have p: "pick_device (Some [sample_phone]) False info_zero = (0, fill_device_info sample_phone)"
    "di_kind (fill_device_info sample_phone) = AT_KIND_RNDIS" by code_simp+
  have "error_line ''Could not allocate the transmit buffer'' = Some sample_error" by code_simp
  then have "cmd_connect sample_env False info_zero True None sample_main =
      Some (1, m', Some (at_engine_stop False (start_zero (ce_start sample_env) True)))"
    using m p unfolding sample_hello_def sample_opened_def
    by (simp add: cmd_connect_def sample_env_def at_status_open_def write_pidfile_def at_engine_start_def fail_start_def
        good_start_def strlcpy_def Let_def)
  then show ?thesis by blast
qed


end
