(* ===== verification/NetSession.thy ===== *)
theory NetSession
  imports NetConfig EngineMain
begin

text \<open>
  The engine and the network configuration together: the calls the engine makes are carried out on the
  network of the machine, in their order. However a \<open>connect\<close> ends, the machine gets its network back.
\<close>

section \<open>Carrying out the engine's calls\<close>

definition net_act :: "'w net_env \<Rightarrow> ext_call \<Rightarrow> 'w net \<Rightarrow> 'w net" where
  "net_act v c s =
     (case c of
        BeginSession \<Rightarrow> snd (at_net_begin_session v s)
      | EndSession \<Rightarrow> snd (at_net_end_session v s)
      | RegisterService name \<Rightarrow> snd (at_net_register_service v (Some name) s)
      | ClearDhcp name \<Rightarrow> snd (at_net_clear_dhcp v (Some name) s)
      | ApplyLease name lease prim \<Rightarrow> snd (at_net_apply_lease v (Some name) (Some lease) prim s)
      | PreferDefaultRoute name gw \<Rightarrow> snd (at_net_prefer_default_route v (Some name) (Some gw) s)
      | DisableWifi \<Rightarrow> snd (at_net_disable_wifi_during_tether v s)
      | RestoreWifi \<Rightarrow> snd (at_net_restore_wifi v s)
      | DropIpv6Default \<Rightarrow> snd (at_net_drop_ipv6_default v s)
      | _ \<Rightarrow> s)"

section \<open>The radio is on, or it is remembered that it was turned off\<close>

definition radio_inv :: "('w \<Rightarrow> bool) \<Rightarrow> 'w net \<Rightarrow> bool" where
  "radio_inv on_air s \<longleftrightarrow> on_air (n_world s) \<or> n_we_off s"

definition kept :: "('w \<Rightarrow> bool) \<Rightarrow> 'w net \<Rightarrow> 'w net \<Rightarrow> bool" where
  "kept on_air s s' \<longleftrightarrow> (radio_inv on_air s \<longrightarrow> radio_inv on_air s')"

lemma kept_refl [simp]: "kept on_air s s"
  and kept_trans: "kept on_air a b \<Longrightarrow> kept on_air b c \<Longrightarrow> kept on_air a c"
  by (simp_all add: kept_def)

lemma kept_same: "same_radio on_air s s' \<Longrightarrow> n_we_off s' = n_we_off s \<Longrightarrow> kept on_air s s'"
  by (simp add: kept_def radio_inv_def same_radio_def)

lemma kept_flags [simp]: "kept on_air s (s'\<lparr>n_session_open := b\<rparr>) = kept on_air s s'"
  "kept on_air s (s'\<lparr>n_wifi_dev := d\<rparr>) = kept on_air s s'"
  by (simp_all add: kept_def radio_inv_def)

lemma kept_act: "radio_ok v dev on_air \<Longrightarrow> \<forall>on. c \<noteq> set_call dev on \<Longrightarrow> kept on_air s (act v c s)"
  by (rule kept_same [OF radio_act]) (simp_all add: act_def)

text \<open>A tool other than the one that sets the power.\<close>

definition not_power :: "string list \<Rightarrow> bool" where
  "not_power argv \<longleftrightarrow> (\<forall>d x. argv \<noteq> [NETWORKSETUP, ''-setairportpower'', d, x])"

lemma not_power_simps [simp]: "not_power []" "not_power [a]" "not_power [a, b]" "not_power [a, b, c]" "not_power (a # b # c # d # e # r)"
  "not_power [a, b, c, d] = (\<not> (a = NETWORKSETUP \<and> b = ''-setairportpower''))"
  by (auto simp: not_power_def)

lemma kept_run:
  assumes "radio_ok v dev on_air" "not_power argv"
  shows "kept on_air s (snd (run_cmd v argv s))" "kept on_air s (snd (run_cmd_stdin v argv inp s))"
    "kept on_air s (snd (snd (capture_cmd v argv n s)))" "kept on_air s (snd (snd (capture_cmd_merged v argv n s)))"
proof -
  have "\<forall>on. Run argv None out \<noteq> set_call dev on" "\<forall>on. Run argv (Some t) out \<noteq> set_call dev on" for out t
    using assms(2) by (auto simp: not_power_def set_call_def)
  then show "kept on_air s (snd (run_cmd v argv s))" "kept on_air s (snd (run_cmd_stdin v argv inp s))"
    "kept on_air s (snd (snd (capture_cmd v argv n s)))" "kept on_air s (snd (snd (capture_cmd_merged v argv n s)))"
    using kept_act [OF assms(1)]
    by (simp_all add: run_cmd_def run_cmd_stdin_def capture_cmd_def capture_cmd_merged_def Let_def split: option.split)
qed

lemma kept_scutil:
  assumes "radio_ok v dev on_air"
  shows "kept on_air s (snd (scutil_run v scr s))" "kept on_air s (snd (snd (scutil_show v key n s)))"
    "kept on_air s (snd (scutil_key_exists v key s))" "kept on_air s (snd (scutil_copy_key v key key' s))"
    "kept on_air s (scutil_remove_key v key s)" "kept on_air s (restore_global v had key key' s)"
proof -
  have 1: "kept on_air t (snd (scutil_run v scr t))" for t scr
    using kept_run(2) [OF assms] by (simp add: scutil_run_def)
  have 2: "kept on_air t (snd (snd (scutil_show v key n t)))" for t key n
  proof -
    have "\<forall>on. Run SCUTIL (Some x) out \<noteq> set_call dev on" for x out by (simp add: set_call_def)
    then show ?thesis using kept_act [OF assms] by (simp add: scutil_show_def capture_cmd_stdin_def Let_def)
  qed
  show "kept on_air s (snd (scutil_run v scr s))" "kept on_air s (snd (snd (scutil_show v key n s)))"
    "kept on_air s (snd (scutil_key_exists v key s))" "kept on_air s (snd (scutil_copy_key v key key' s))"
    "kept on_air s (scutil_remove_key v key s)" "kept on_air s (restore_global v had key key' s)"
    using 1 2 by (simp_all add: scutil_key_exists_def scutil_copy_key_def scutil_remove_key_def restore_global_def Let_def split_def)
qed

lemma kept_restore:
  assumes "radio_ok v dev on_air"
  shows "kept on_air s (snd (restore_wifi_device v d s))" "kept on_air s (restore_wifi_from_backup v s)"
proof -
  have 1: "kept on_air t (snd (restore_wifi_device v d t))" for t d
    using radio_restored [OF assms, of d t] by (metis kept_def radio_inv_def snd_conv)
  show "kept on_air s (snd (restore_wifi_device v d s))" by (rule 1)
  obtain rc dump s1 where s1: "scutil_show v kBackupWifi 2048 s = (rc, dump, s1)" by (metis prod_cases3)
  then have "kept on_air s s1" using kept_scutil(2) [OF assms, of s kBackupWifi 2048] by simp
  then show "kept on_air s (restore_wifi_from_backup v s)"
    using s1 kept_trans [OF _ 1] by (simp add: restore_wifi_from_backup_def Let_def)
qed

lemma kept_then: "kept on_air a b \<Longrightarrow> (\<And>t. kept on_air t (f t)) \<Longrightarrow> kept on_air a (f b)"
  using kept_trans by blast

lemma kept_routes:
  assumes "radio_ok v dev on_air"
  shows "kept on_air s (restore_routes v s)" "kept on_air s (snd (snapshot_default_route v s))"
    "kept on_air s (snd (snapshot_default_route6 v s))"
proof -
  note run = kept_run(1) [OF assms] and run2 = kept_trans [OF _ kept_run(1) [OF assms]]
  have d: "kept on_air t (delete_loop6 v n t)" for n t
  proof (induction n arbitrary: t)
    case (Suc n)
    obtain rc t1 where t1: "run_cmd v [ROUTE, ''-n'', ''delete'', ''-inet6'', ''default''] t = (rc, t1)" by fastforce
    then have "kept on_air t t1" using run [of "[ROUTE, ''-n'', ''delete'', ''-inet6'', ''default'']" t] by simp
    then show ?case using t1 kept_trans [OF _ Suc.IH] by simp
  qed simp
  have 4: "kept on_air t (snd (restore_default_route v r t))" for r t
    by (cases r) (simp add: restore_default_route_def Let_def split_def run run2)
  have 6: "kept on_air t (snd (restore_default_route6 v r t))" for r t
    by (cases r) (simp add: restore_default_route6_def Let_def split_def run2 d del: delete_loop6.simps)
  obtain rc route s1 where s1: "scutil_show v kBackupRoute 2048 s = (rc, route, s1)" by (metis prod_cases3)
  then have 1: "kept on_air s s1" using kept_scutil(2) [OF assms, of s kBackupRoute 2048] by simp
  show "kept on_air s (restore_routes v s)"
    using s1 kept_trans [OF 1 4] kept_trans [OF kept_trans [OF 1 4] 6] by (simp add: restore_routes_def Let_def)
  show "kept on_air s (snd (snapshot_default_route v s))" "kept on_air s (snd (snapshot_default_route6 v s))"
    using kept_run(3) [OF assms] by (simp_all add: snapshot_default_route_def snapshot_default_route6_def Let_def split_def)
qed

lemma kept_service:
  assumes "radio_ok v dev on_air"
  shows "kept on_air s (snd (at_net_unpublish_path v s))" "kept on_air s (snd (at_net_remove_service v s))"
    "kept on_air s (snd (at_net_register_service v name s))" "kept on_air s (remove_backup_keys v s)"
proof -
  note run = kept_run [OF assms] and key = kept_scutil(5) [OF assms]
  show "kept on_air s (snd (at_net_unpublish_path v s))" using kept_scutil(1) [OF assms] by (simp add: at_net_unpublish_path_def)
  show "kept on_air s (snd (at_net_remove_service v s))"
    using kept_trans [OF run(1) run(2)] by (simp add: at_net_remove_service_def Let_def)
  have g: "kept on_air t (snd (register_via_scutil v n t))" for n t
    using run(2) by (simp add: register_via_scutil_def Let_def split_def)
  show "kept on_air s (snd (at_net_register_service v name s))"
    using kept_trans [OF kept_trans [OF run(1) run(4)] run(1)] kept_trans [OF kept_trans [OF kept_trans [OF run(1) run(4)] g] run(1)]
    by (simp add: at_net_register_service_def Let_def split_def split: option.split)
  show "kept on_air s (remove_backup_keys v s)"
    unfolding remove_backup_keys_def Let_def
    by (rule kept_trans [OF kept_trans [OF kept_trans [OF kept_trans [OF kept_trans [OF kept_trans [OF key key] key] key] key] key] key])
qed

lemma kept_backup:
  assumes "radio_ok v dev on_air"
  shows "kept on_air s (snd (restore_from_backup v b s))"
proof -
  define s1 where "s1 = restore_wifi_from_backup v s"
  define s2 where "s2 = (if n_we_off s1
    then snd (restore_wifi_device v (if n_wifi_dev s1 \<noteq> '''' then Some (n_wifi_dev s1) else None) s1) else s1)"
  obtain rc valid s3 where s3: "scutil_show v kBackupValid 2048 s2 = (rc, valid, s3)" by (metis prod_cases3)
  define s4 where "s4 = restore_global v (field valid ''HasIPv4'' 32 = ''true'') kBackupIPv4 kGlobalIPv4 s3"
  define s5 where "s5 = restore_global v (field valid ''HasDNS'' 32 = ''true'') kBackupDNS kGlobalDNS s4"
  define s6 where "s6 = (if rc \<noteq> 0 then s3 else restore_routes v s5)"
  have "kept on_air s s1" unfolding s1_def by (rule kept_restore [OF assms])
  moreover have "kept on_air s1 s2" using kept_restore(1) [OF assms] by (simp add: s2_def)
  moreover have "kept on_air s2 s3" using kept_scutil(2) [OF assms, of s2 kBackupValid 2048] s3 by simp
  moreover have "kept on_air s3 s4" "kept on_air s4 s5" unfolding s4_def s5_def by (rule kept_scutil [OF assms])+
  moreover have "kept on_air s5 (restore_routes v s5)" by (rule kept_routes [OF assms])
  ultimately have "kept on_air s s6" unfolding kept_def s6_def by simp
  moreover have "snd (restore_from_backup v b s) = (if b then remove_backup_keys v s6 else s6)"
    using s3 unfolding restore_from_backup_def Let_def s1_def [symmetric] s2_def [symmetric]
    by (simp add: s4_def s5_def s6_def)
  ultimately show ?thesis using kept_trans [OF _ kept_service(4) [OF assms]] by simp
qed

lemma kept_end:
  assumes "radio_ok v dev on_air"
  shows "kept on_air s (snd (at_net_end_session v s))"
proof -
  obtain had s1 where h: "had_session v s = (had, s1)" by fastforce
  have e: "kept on_air t (snd (scutil_key_exists v k t))" for k t by (rule kept_scutil [OF assms])
  have "kept on_air s (snd (had_session v s))"
    using e kept_trans [OF e e] by (simp add: had_session_def split_def Let_def)
  then have 1: "kept on_air s s1" using h by simp
  have svc: "kept on_air t (snd (at_net_remove_service v (snd (at_net_unpublish_path v t))))" for t
    using kept_trans [OF kept_service(1) [OF assms] kept_service(2) [OF assms]] .
  define s2 where "s2 = (if had then snd (restore_from_backup v True s1)
    else if wifi_marker_present v s1 then snd (restore_wifi_device v None s1) else s1)"
  define s3 where "s3 = (if had \<and> n_we_off s2
    then snd (restore_wifi_device v (if n_wifi_dev s2 \<noteq> '''' then Some (n_wifi_dev s2) else None) s2) else s2)"
  have "kept on_air s1 s2" using kept_backup [OF assms] kept_restore(1) [OF assms] by (simp add: s2_def)
  moreover have "kept on_air s2 s3" using kept_restore(1) [OF assms] by (simp add: s3_def)
  ultimately have "kept on_air s (snd (at_net_remove_service v (snd (at_net_unpublish_path v s3))))"
    using 1 svc [of s3] unfolding kept_def by simp
  moreover have "snd (at_net_end_session v s) = (let t = snd (at_net_remove_service v (snd (at_net_unpublish_path v s3)))
      in if had then t\<lparr>n_session_open := False\<rparr> else t)"
    using h by (cases had) (simp_all add: at_net_end_session_def s2_def s3_def Let_def)
  ultimately show ?thesis by (simp add: Let_def)
qed

lemma kept_begin:
  assumes "radio_ok v dev on_air"
  shows "kept on_air s (snd (at_net_begin_session v s))"
proof -
  note run = kept_run [OF assms] and key = kept_scutil [OF assms]
  have stale: "kept on_air t (destroy_stale_feth v t)" for t
  proof -
    have f: "kept on_air r (fold (\<lambda>tok s. if \<not> starts_with tok ''feth'' then s else snd (run_cmd v [IFCONFIG, tok, ''destroy''] s)) ts r)" for ts r
    proof (induction ts arbitrary: r)
      case (Cons tok ts)
      then show ?case using kept_trans [OF run(1) Cons] by simp
    qed simp
    show ?thesis using run(3) kept_trans [OF run(3) f] by (simp add: destroy_stale_feth_def Let_def split_def)
  qed
  have wifi: "kept on_air t (snd (snd (snapshot_wifi v d n t)))" for d n t
  proof -
    have a: "kept on_air r (snd (snd (wifi_find_device v d n r)))" "kept on_air r (snd (wifi_power_on v x r))"
      "kept on_air r (persist_wifi_backup v x p q r)" for r x p q
      using run(4) key(1) by (simp_all add: wifi_find_device_def wifi_power_on_def persist_wifi_backup_def Let_def split_def)
    have b: "kept on_air r (persist_wifi_backup v x p q (r\<lparr>n_wifi_dev := y\<rparr>))" for r x p q y
      using a(3) [of "r\<lparr>n_wifi_dev := y\<rparr>"] by (simp add: kept_def radio_inv_def)
    show ?thesis using kept_trans [OF a(1,3)] kept_trans [OF kept_trans [OF a(1,2)] b] by (simp add: snapshot_wifi_def Let_def split_def)
  qed
  have take: "kept on_air t (snd (take_snapshot_to_backup v t))" for t
  proof -
    obtain a t1 where t1: "scutil_key_exists v kGlobalIPv4 t = (a, t1)" by fastforce
    obtain b t2 where t2: "scutil_key_exists v kGlobalDNS t1 = (b, t2)" by fastforce
    define t3 where "t3 = (if a then snd (scutil_copy_key v kGlobalIPv4 kBackupIPv4 t2) else t2)"
    define t4 where "t4 = (if b then snd (scutil_copy_key v kGlobalDNS kBackupDNS t3) else t3)"
    obtain r4 t5 where t5: "snapshot_default_route v t4 = (r4, t5)" by fastforce
    obtain r6 t6 where t6: "snapshot_default_route6 v t5 = (r6, t6)" by fastforce
    obtain wdev on t7 where t7: "snapshot_wifi v '''' 32 t6 = (wdev, on, t7)" by (metis prod_cases3)
    have "kept on_air t t1" "kept on_air t1 t2" using key(3) [of t kGlobalIPv4] key(3) [of t1 kGlobalDNS] t1 t2 by simp_all
    moreover have "kept on_air t2 t3" "kept on_air t3 t4" using key(4) by (simp_all add: t3_def t4_def)
    moreover have "kept on_air t4 t5" "kept on_air t5 t6" "kept on_air t6 t7"
      using kept_routes(2) [OF assms, of t4] kept_routes(3) [OF assms, of t5] wifi [of t6 "''''" 32] t5 t6 t7 by simp_all
    ultimately have "kept on_air t t7" unfolding kept_def by simp
    moreover obtain rc t8 where t8: "scutil_run v (snapshot_script r4 r6 wdev on a b) t7 = (rc, t8)" by fastforce
    ultimately have "kept on_air t t8" using kept_trans [OF _ key(1)] by (metis snd_conv)
    moreover have "snd (take_snapshot_to_backup v t) = t8"
      using t1 t2 t5 t6 t7 t8 by (cases a; cases b) (simp_all add: take_snapshot_to_backup_def t3_def t4_def Let_def)
    ultimately show ?thesis by simp
  qed
  obtain kind gw iface s2 where s2: "snapshot_default_route v (destroy_stale_feth v s) = ((kind, gw, iface), s2)"
    by (metis prod_cases4 prod.collapse)
  obtain ex s3 where s3: "scutil_key_exists v kBackupValid s2 = (ex, s3)" by fastforce
  define s4 where "s4 = (if \<not> ex then s3
    else if kind \<noteq> ''none'' \<and> \<not> iface_is_virtual_tether (Some iface) then remove_backup_keys v s3
    else snd (at_net_remove_service v (snd (at_net_unpublish_path v (snd (restore_from_backup v True s3))))))"
  have "kept on_air s s2" using kept_trans [OF stale kept_routes(2) [OF assms]] s2 by (metis snd_conv)
  moreover have "kept on_air s2 s3" using key(3) [of s2 kBackupValid] s3 by simp
  moreover have "kept on_air s3 s4"
    using kept_service(4) [OF assms] kept_trans [OF kept_trans [OF kept_backup [OF assms] kept_service(1) [OF assms]] kept_service(2) [OF assms]]
    by (simp add: s4_def)
  moreover have "kept on_air s4 (snd (take_snapshot_to_backup v s4))" by (rule take)
  ultimately have k: "kept on_air s (snd (take_snapshot_to_backup v s4))" unfolding kept_def by simp
  have "snd (at_net_begin_session v s) = (if n_session_open s then s else
      case take_snapshot_to_backup v s4 of (rc, s) \<Rightarrow> if rc \<noteq> 0 then s else s\<lparr>n_session_open := True\<rparr>)"
    using s2 s3 unfolding at_net_begin_session_def Let_def s4_def by (simp add: split_def)
  then show ?thesis using k by (simp add: split_def)
qed

lemma kept_lease:
  assumes "radio_ok v dev on_air"
  shows "kept on_air s (snd (at_net_apply_lease v name lease prim s))" "kept on_air s (snd (at_net_drop_ipv6_default v s))"
    "kept on_air s (snd (at_net_prefer_default_route v name gw s))" "kept on_air s (snd (at_net_clear_dhcp v name s))"
proof -
  note run = kept_run(1) [OF assms]
  have p: "kept on_air t (snd (at_net_publish_path v name lease prim t))" for t
    using kept_scutil(1) [OF assms] by (simp add: at_net_publish_path_def Let_def split_def)
  show "kept on_air s (snd (at_net_apply_lease v name lease prim s))"
    using run kept_trans [OF run run] kept_trans [OF kept_trans [OF run run] p] kept_trans [OF kept_trans [OF kept_trans [OF run run] run] p]
    by (simp add: at_net_apply_lease_def Let_def split_def)
  have d: "kept on_air t (snd (at_net_drop_ipv6_default v t))" for t
    using kept_act [OF assms] by (simp add: at_net_drop_ipv6_default_def set_call_def Let_def)
  show "kept on_air s (snd (at_net_drop_ipv6_default v s))" by (rule d)
  show "kept on_air s (snd (at_net_prefer_default_route v name gw s))"
    using kept_trans [OF run run] kept_trans [OF kept_trans [OF run run] d] kept_trans [OF kept_trans [OF run run] run]
      kept_trans [OF kept_trans [OF kept_trans [OF run run] run] d]
    by (simp add: at_net_prefer_default_route_def Let_def split_def)
  have e: "kept on_air t (snd (at_net_remove_service v (snd (at_net_unpublish_path v t))))" for t
    by (rule kept_trans [OF kept_service(1) [OF assms] kept_service(2) [OF assms]])
  show "kept on_air s (snd (at_net_clear_dhcp v name s))"
    using kept_trans [OF kept_end [OF assms] e] kept_trans [OF kept_trans [OF kept_trans [OF kept_end [OF assms] run] run] e]
    by (simp add: at_net_clear_dhcp_def Let_def split: option.split)
qed

lemma kept_wifi:
  assumes "radio_ok v dev on_air"
  shows "kept on_air s (snd (at_net_disable_wifi_during_tether v s))" "kept on_air s (snd (at_net_restore_wifi v s))"
proof -
  show "kept on_air s (snd (at_net_disable_wifi_during_tether v s))"
    using radio_disabled [OF assms, of s] by (metis kept_def prod.collapse radio_inv_def)
  show "kept on_air s (snd (at_net_restore_wifi v s))"
    using kept_restore(2) [OF assms] kept_trans [OF kept_restore(2) [OF assms] kept_restore(1) [OF assms]]
    by (simp add: at_net_restore_wifi_def Let_def)
qed

lemma kept_net_act: "radio_ok v dev on_air \<Longrightarrow> kept on_air s (net_act v c s)"
  using kept_begin kept_end kept_service kept_lease kept_wifi unfolding net_act_def by (cases c) fastforce+

lemma kept_fold: "radio_ok v dev on_air \<Longrightarrow> kept on_air s (fold (net_act v) cs s)"
proof (induction cs arbitrary: s)
  case (Cons c cs)
  then show ?case using kept_trans [OF kept_net_act] by fastforce
qed simp

section \<open>The end of an engine\<close>

lemma restored_radio:
  assumes "radio_ok v dev on_air" "radio_inv on_air s"
  shows "on_air (n_world (snd (at_net_restore_wifi v s)))"
proof -
  obtain rc dump s1 where s1: "scutil_show v kBackupWifi 2048 s = (rc, dump, s1)" by (metis prod_cases3)
  have "clears v s s1 {}" "n_we_off s1 = n_we_off s"
    using clears_show [of v s kBackupWifi 2048] show_keeps [of s v kBackupWifi 2048] s1 by (simp_all add: flags_same_def)
  then have 1: "n_we_off s1 \<or> on_air (n_world s1)"
    using clears_on_air [OF assms(1)] assms(2) by (auto simp: radio_inv_def)
  have r: "on_air (n_world (snd (restore_wifi_device v d t)))" for d t
    using radio_restored [OF assms(1), of d t] by (metis snd_conv)
  have "restore_wifi_from_backup v s = s1 \<and> \<not> n_we_off s1 \<or> (\<exists>d. restore_wifi_from_backup v s = snd (restore_wifi_device v d s1))"
    using s1 by (auto simp: restore_wifi_from_backup_def Let_def)
  then have "on_air (n_world (restore_wifi_from_backup v s))" using 1 r by auto
  then show ?thesis using r by (simp add: at_net_restore_wifi_def Let_def)
qed

lemma net_act_stop:
  "fold (net_act v) (stop_first e @ map Join (joins_of e) @ stop_last gone e) s =
     net_act v (if e_utun e \<noteq> None then ClearDhcp (at_utun_name (e_utun e)) else EndSession) (net_act v RestoreWifi s)"
proof -
  have "fold (net_act v) (map Join js) t = t" for js t
    by (induction js) (simp_all add: net_act_def)
  then show ?thesis by (simp add: stop_first_def stop_last_def net_act_def)
qed

text \<open>What the end of an engine leaves of the network it found.\<close>

definition given_back :: "'w net_env \<Rightarrow> ('w \<Rightarrow> bool) \<Rightarrow> 'w net \<Rightarrow> 'w net \<Rightarrow> bool" where
  "given_back v on_air s s' \<longleftrightarrow> \<not> n_session_open s' \<and> on_air (n_world s') \<and>
     clears v s s' (service_keys \<union> (if n_session_open s then backup_keys else {}))"

lemma clears_restore [simp]: "clears v s (snd (at_net_restore_wifi v s)) {}"
  using clears_restore_backup_wifi [of v s] clears_trans0 [OF clears_restore_backup_wifi [of v s] clears_restore_wifi]
  by (simp add: at_net_restore_wifi_def Let_def)

lemma stop_gives_back:
  assumes "tools_start v" "radio_ok v dev on_air" "radio_inv on_air s"
  shows "given_back v on_air s (fold (net_act v) (stop_first e @ map Join (joins_of e) @ stop_last gone e) s)"
proof -
  define s1 where "s1 = net_act v RestoreWifi s"
  have 1: "clears v s s1 {}" "on_air (n_world s1)" "n_session_open s1 = n_session_open s"
    using restored_radio [OF assms(2,3)] by (simp_all add: s1_def net_act_def) (simp add: at_net_restore_wifi_def Let_def)
  define s2 where "s2 = net_act v (if e_utun e \<noteq> None then ClearDhcp (at_utun_name (e_utun e)) else EndSession) s1"
  have 2: "\<not> n_session_open s2 \<and> clears v s1 s2 (service_keys \<union> (if n_session_open s1 then backup_keys else {}))"
  proof (cases "e_utun e")
    case None
    have "clears v s1 t (service_keys \<union> (if n_session_open s1 then backup_keys else {}))"
      if "clears v s1 t (service_keys \<union> (if fst (had_session v s1) then backup_keys else {}))" "n_session_open s1 \<longrightarrow> fst (had_session v s1)" for t
      using that unfolding clears_def by (auto split: if_splits)
    then show ?thesis using None end_session_result [OF assms(1), of s1] by (auto simp: s2_def net_act_def split: prod.splits)
  next
    case (Some u)
    then show ?thesis using clear_dhcp_result [OF assms(1)] by (simp add: s2_def net_act_def)
  qed
  then have "on_air (n_world s2)" using clears_on_air [OF assms(2)] 1(2) by blast
  then have "given_back v on_air s s2" using clears_trans0 [OF 1(1)] 1(3) 2 by (simp add: given_back_def)
  then show ?thesis by (simp only: net_act_stop s1_def s2_def)
qed



end
