(* ===== verification/Spec2Isabelle.thy ===== *)
theory Spec2Isabelle
  imports Checksum Common Rndis Dhcp Utun TxQueue RxPath TunPath Lease Engine NetParse UsbSession NetSession
begin

text \<open>
  Verification development of the macOS wired tethering engine.
\<close>

end
